(* ===== verification/Prelude.thy ===== *)
theory Prelude
  imports Main "HOL-Library.Sublist"
begin

text \<open>
  Shared vocabulary of the development: Go strings as byte lists, the functions of Go's
  \<open>strings\<close> package that the code calls (\<open>Index\<close>, \<open>Contains\<close>, \<open>Join\<close>,
  \<open>ReplaceAll\<close>), and the lemmas on them and on maps that several components use.
  A Go \<open>string\<close> is a sequence of bytes; \<^typ>\<open>char\<close> is a byte, so
  \<^typ>\<open>string\<close> is the same thing and lengths and indices count bytes as in Go.
\<close>

type_synonym gostring = string

named_theorems go_strings \<open>defining equations of the string functions of Go's library\<close>

section \<open>Searching: Index and Contains\<close>

text \<open>
  \<open>find_sub\<close> is the least offset at which \<open>sep\<close> occurs; \<open>strings.Index\<close>
  returns it as an int and -1 when there is none.
\<close>

fun find_sub :: "gostring \<Rightarrow> gostring \<Rightarrow> nat option" where
  "find_sub [] sep = (if sep = [] then Some 0 else None)"
| "find_sub (c # cs) sep =
     (if prefix sep (c # cs) then Some 0 else map_option Suc (find_sub cs sep))"

definition strings_Index :: "gostring \<Rightarrow> gostring \<Rightarrow> int" where
  [go_strings]: "strings_Index s sep = (case find_sub s sep of None \<Rightarrow> -1 | Some i \<Rightarrow> int i)"

definition strings_Contains :: "gostring \<Rightarrow> gostring \<Rightarrow> bool" where
  [go_strings]: "strings_Contains s sep = (0 \<le> strings_Index s sep)"

lemma find_sub_None: "find_sub s sep = None \<longleftrightarrow> \<not> sublist sep s"
  by (induction s) (auto simp: sublist_Cons_right)

lemma find_sub_Some:
  "find_sub s sep = Some i \<longleftrightarrow>
     i \<le> length s \<and> prefix sep (drop i s) \<and> (\<forall>j<i. \<not> prefix sep (drop j s))"
proof (induction s arbitrary: i)
  case Nil
  then show ?case by auto
next
  case (Cons c cs)
  show ?case
  proof (cases i)
    case 0
    then show ?thesis by auto
  next
    case (Suc k)
    then show ?thesis
      using Cons.IH [of k] by (auto simp: less_Suc_eq_0_disj all_conj_distrib)
  qed
qed

lemma strings_Index_neg: "strings_Index s sep < 0 \<longleftrightarrow> \<not> sublist sep s"
  by (simp add: strings_Index_def find_sub_None [symmetric] split: option.splits)

lemma strings_Index_eq:
  "strings_Index s sep = int i \<longleftrightarrow> find_sub s sep = Some i"
  by (simp add: strings_Index_def split: option.splits)

lemma strings_Contains_sublist: "strings_Contains s sep \<longleftrightarrow> sublist sep s"
  using strings_Index_neg [of s sep] by (auto simp: strings_Contains_def)

section \<open>Join and ReplaceAll\<close>

fun strings_Join :: "gostring list \<Rightarrow> gostring \<Rightarrow> gostring" where
  "strings_Join [] sep = []"
| "strings_Join [x] sep = x"
| "strings_Join (x # y # ys) sep = x @ sep @ strings_Join (y # ys) sep"

text \<open>
  \<open>strings.ReplaceAll(s, old, new)\<close> for a one-byte \<open>old\<close>, the only use in the code:
  each occurrence of the byte is replaced by \<open>new\<close>, the other bytes are kept.
\<close>

fun strings_ReplaceAll1 :: "gostring \<Rightarrow> char \<Rightarrow> gostring \<Rightarrow> gostring" where
  "strings_ReplaceAll1 [] old new = []"
| "strings_ReplaceAll1 (c # cs) old new =
     (if c = old then new else [c]) @ strings_ReplaceAll1 cs old new"

section \<open>Maps\<close>

text \<open>A Go map read of an absent key yields the zero value; \<open>delete\<close> ignores it.\<close>

definition map_delete :: "('k \<rightharpoonup> 'v) \<Rightarrow> 'k \<Rightarrow> ('k \<rightharpoonup> 'v)" where
  [simp]: "map_delete m k = m(k := None)"

section \<open>Hexadecimal digits\<close>

definition hex_digit :: "nat \<Rightarrow> char" where
  "hex_digit n = ''0123456789abcdef'' ! n"

lemma hex_digit_eq: "m < 16 \<Longrightarrow> n < 16 \<Longrightarrow> hex_digit m = hex_digit n \<longleftrightarrow> m = n"
  unfolding hex_digit_def by (rule nth_eq_iff_index_eq) simp_all

definition hex_value :: "char \<Rightarrow> nat option" where
  "hex_value c = find (\<lambda>n. hex_digit n = c) [0..<16]"

lemma hex_value_digit: "n < 16 \<Longrightarrow> hex_value (hex_digit n) = Some n"
proof -
  have "list_all (\<lambda>n. hex_value (hex_digit n) = Some n) [0..<16]" by code_simp
  then show "n < 16 \<Longrightarrow> ?thesis" by (simp add: list_all_iff)
qed

end
