(* ===== verification/Namespace.thy ===== *)
theory Namespace
  imports Prelude
begin

text \<open>
  The tool namespace of mcpmux, \<open>mcpmux/internal/mcpmux/namespace.go\<close>: server names
  are validated, a child's tool is exported as \<open>{server}__{tool}\<close>, and an exported
  name is split again at the first \<open>__\<close>. The locale \<open>name_codec\<close> is what the
  proxy needs of the encoding (two validated servers never export the same name); it
  is interpreted on the code's functions.
\<close>

section \<open>The code\<close>

definition namespaceSep :: gostring where
  "namespaceSep = ''__''"

text \<open>\<open>error\<close> results are the text of \<open>err.Error()\<close>; \<open>nil\<close> is \<^term>\<open>None\<close>.\<close>

definition ValidateServerName :: "gostring \<Rightarrow> gostring option" where
  "ValidateServerName name =
     (if name = '''' then Some ''server name must not be empty''
      else if strings_Contains name namespaceSep
        then Some (''server name must not contain '' @ [CHR 0x22] @ ''__'' @ [CHR 0x22])
      else if name ! (length name - 1) = CHR ''_''
        then Some (''server name must not end with '' @ [CHR 0x22] @ ''_'' @ [CHR 0x22])
      else None)"

definition PrefixTool :: "gostring \<Rightarrow> gostring \<Rightarrow> gostring" where
  "PrefixTool server tool = server @ namespaceSep @ tool"

definition SplitTool :: "gostring \<Rightarrow> gostring \<times> gostring \<times> bool" where
  "SplitTool name =
     (let i = strings_Index name namespaceSep in
      if i < 0 then ('''', name, False)
      else (take (nat i) name, drop (nat i + length namespaceSep) name, True))"

section \<open>Splitting at the first separator\<close>

text \<open>A name splits at \<open>i\<close> when the separator occurs there and nowhere before.\<close>

lemma SplitTool_True:
  "SplitTool n = (s, t, True) \<longleftrightarrow>
     n = s @ ''__'' @ t \<and> (\<forall>j < length s. \<not> prefix ''__'' (drop j n))"
proof
  assume "SplitTool n = (s, t, True)"
  then obtain i where i: "find_sub n ''__'' = Some i" "s = take i n" "t = drop (i + 2) n"
    by (auto simp: SplitTool_def namespaceSep_def strings_Index_def Let_def
        split: if_splits option.splits)
  then have *: "i \<le> length n" "prefix ''__'' (drop i n)" "\<forall>j<i. \<not> prefix ''__'' (drop j n)"
    by (simp_all add: find_sub_Some)
  from *(2) obtain r where r: "drop i n = ''__'' @ r" by (auto elim: prefixE)
  have "t = drop 2 (drop i n)" using i(3) by (simp add: add.commute)
  with r have "t = r" by simp
  with r i(2) *(1) have "n = s @ ''__'' @ t" by (metis append_take_drop_id)
  moreover have "length s = i" using i(2) *(1) by (simp only: length_take min_absorb2)
  ultimately show "n = s @ ''__'' @ t \<and> (\<forall>j < length s. \<not> prefix ''__'' (drop j n))"
    using *(3) by blast
next
  assume *: "n = s @ ''__'' @ t \<and> (\<forall>j < length s. \<not> prefix ''__'' (drop j n))"
  then have n: "n = s @ ''__'' @ t" by (rule conjunct1)
  then have len: "length s \<le> length n" and rest: "drop (length s) n = ''__'' @ t"
    by simp_all
  have pre: "prefix ''__'' (drop (length s) n)" unfolding rest by (rule prefixI, rule refl)
  have "find_sub n ''__'' = Some (length s)"
    unfolding find_sub_Some by (rule conjI [OF len conjI [OF pre conjunct2 [OF *]]])
  with n show "SplitTool n = (s, t, True)"
    by (simp add: SplitTool_def namespaceSep_def strings_Index_def)
qed

lemma SplitTool_False: "SplitTool n = (s, t, False) \<longleftrightarrow> s = [] \<and> t = n \<and> \<not> sublist ''__'' n"
  using strings_Index_neg [of n "''__''"]
  by (auto simp: SplitTool_def namespaceSep_def Let_def)

text \<open>
  No early occurrence of the separator in \<open>s @ ''__'' @ t\<close>: it would lie inside
  \<open>s\<close>, or straddle its last byte and the first underscore of the separator.
\<close>

lemma no_early_sep:
  "(\<forall>j < length s. \<not> prefix ''__'' (drop j (s @ ''__'' @ t)))
     \<longleftrightarrow> \<not> sublist ''__'' s \<and> (s = [] \<or> last s \<noteq> CHR ''_'')"
proof (induction s)
  case Nil
  then show ?case by simp
next
  case (Cons c cs)
  have "(\<forall>j < length (c # cs). \<not> prefix ''__'' (drop j ((c # cs) @ ''__'' @ t)))
     \<longleftrightarrow> \<not> prefix ''__'' (c # cs @ ''__'' @ t)
        \<and> (\<forall>j < length cs. \<not> prefix ''__'' (drop j (cs @ ''__'' @ t)))"
    by (auto simp: less_Suc_eq_0_disj)
  then show ?case
    using Cons.IH by (cases cs) (auto simp: sublist_Cons_right)
qed

lemma ValidateServerName_None:
  "ValidateServerName s = None \<longleftrightarrow>
     s \<noteq> [] \<and> \<not> sublist ''__'' s \<and> last s \<noteq> CHR ''_''"
  by (auto simp: ValidateServerName_def namespaceSep_def strings_Contains_sublist last_conv_nth)

lemma SplitTool_PrefixTool:
  "SplitTool (PrefixTool s t) = (s, t, True) \<longleftrightarrow> s = [] \<or> ValidateServerName s = None"
proof -
  have "SplitTool (PrefixTool s t) = (s, t, True)
    \<longleftrightarrow> \<not> sublist ''__'' s \<and> (s = [] \<or> last s \<noteq> CHR ''_'')"
    using no_early_sep [of s t] by (simp add: SplitTool_True PrefixTool_def namespaceSep_def)
  then show ?thesis by (auto simp: ValidateServerName_None)
qed

section \<open>The contract of a name codec\<close>

text \<open>
  What the proxy needs: on valid owners, decoding undoes encoding. Its consequences,
  used for the tool registry: encoding is injective in both arguments together, and the
  names of different owners never meet.
\<close>

locale name_codec =
  fixes valid :: "'o \<Rightarrow> bool" and enc :: "'o \<Rightarrow> 'm \<Rightarrow> 'n" and dec :: "'n \<Rightarrow> 'o \<times> 'm \<times> bool"
  assumes dec_enc: "valid s \<Longrightarrow> dec (enc s t) = (s, t, True)"
begin

lemma enc_inject: "valid s \<Longrightarrow> valid s' \<Longrightarrow> enc s t = enc s' t' \<longleftrightarrow> s = s' \<and> t = t'"
  by (metis dec_enc prod.inject)

lemma owners_disjoint: "valid s \<Longrightarrow> valid s' \<Longrightarrow> s \<noteq> s' \<Longrightarrow> enc s ` A \<inter> enc s' ` B = {}"
  by (auto simp: enc_inject)

lemma enc_image_iff: "valid s \<Longrightarrow> valid s' \<Longrightarrow> enc s t \<in> enc s' ` A \<longleftrightarrow> s = s' \<and> t \<in> A"
  by (auto simp: enc_inject image_iff)

end

abbreviation valid_name :: "gostring \<Rightarrow> bool" where
  "valid_name s \<equiv> ValidateServerName s = None"

interpretation ns: name_codec valid_name PrefixTool SplitTool
  by unfold_locales (simp add: SplitTool_PrefixTool)

lemma PrefixTool_has_sep: "sublist ''__'' (PrefixTool s t)"
  unfolding PrefixTool_def namespaceSep_def sublist_def by (intro exI) (rule refl)

section \<open>Properties\<close>

text \<open>C32. The validation is exactly the condition under which exporting can be undone: for a
  non-empty server name, splitting gives back the server and the tool for every tool name if
  and only if the name is accepted.\<close>

theorem validate_iff_roundtrip:
  assumes "s \<noteq> []"
  shows "ValidateServerName s = None \<longleftrightarrow> (\<forall>t. SplitTool (PrefixTool s t) = (s, t, True))"
  using assms by (simp add: SplitTool_PrefixTool)

lemma validate_iff_roundtrip_witness:
  "SplitTool (PrefixTool ''my_server'' ''__tool__'') = (''my_server'', ''__tool__'', True)"
proof -
  have "ValidateServerName ''my_server'' = None"
    by (simp add: ValidateServerName_None sublist_code)
  with validate_iff_roundtrip [of "''my_server''"] show ?thesis by simp
qed

text \<open>Splitting is the inverse of exporting: a split name is the export of its parts, cut at
  the first separator, so the server part holds no separator and does not end in an
  underscore; a name that does not split has no separator and is returned whole.\<close>

theorem split_inverse:
  assumes "SplitTool n = (s, t, ok)"
  shows "if ok then n = PrefixTool s t \<and> (s = [] \<or> ValidateServerName s = None)
         else s = [] \<and> t = n \<and> \<not> strings_Contains n namespaceSep"
proof (cases ok)
  case True
  with assms have n: "n = PrefixTool s t"
    by (simp add: SplitTool_True PrefixTool_def namespaceSep_def)
  with True assms have "SplitTool (PrefixTool s t) = (s, t, True)" by simp
  with n True show ?thesis by (simp add: SplitTool_PrefixTool)
next
  case False
  with assms show ?thesis
    by (simp add: SplitTool_False strings_Contains_sublist namespaceSep_def)
qed

lemma split_inverse_witness:
  "SplitTool ''a___b'' = (''a'', ''_b'', True) \<and> PrefixTool ''a'' ''_b'' = ''a___b''"
proof -
  have s: "SplitTool ''a___b'' = (''a'', ''_b'', True)" by code_simp
  show ?thesis using split_inverse [OF s] s by simp
qed

text \<open>Two accepted servers never export the same name, whatever their tools are called.\<close>

theorem exported_names_unique:
  assumes "ValidateServerName s = None" and "ValidateServerName s' = None"
  shows "PrefixTool s t = PrefixTool s' t' \<longleftrightarrow> s = s' \<and> t = t'"
  using assms by (rule ns.enc_inject)

lemma exported_names_unique_witness:
  "PrefixTool ''a'' ''b'' \<noteq> PrefixTool ''a_b'' ''c'' \<and> PrefixTool ''a_'' ''b'' = PrefixTool ''a'' ''_b''"
proof -
  have "ValidateServerName ''a'' = None" "ValidateServerName ''a_b'' = None"
    by (simp_all add: ValidateServerName_None sublist_code)
  from exported_names_unique [OF this, of "''b''" "''c''"] show ?thesis
    by (simp add: PrefixTool_def namespaceSep_def)
qed

end
