(* ===== verification/ChildModel.thy ===== *)
theory ChildModel
  imports Prelude
begin

text \<open>
  One child MCP server, \<open>mcpmux/internal/mcpmux/child.go\<close>: its configuration and
  state, the command line it is spawned with, the tool discovery loop, and every section
  of \<open>Start\<close>, \<open>start\<close>, \<open>monitor\<close> and \<open>Stop\<close> that the code runs
  under \<open>c.mu\<close>, one definition per section. The interleavings of these sections
  are in \<open>ChildThreads\<close>; \<open>child_Start\<close> and \<open>child_Stop\<close> at the end
  of this theory run them in program order, undisturbed.

  Sessions and processes are named by numbers (the identity of the Go pointers), the zero
  \<open>time.Time\<close> is \<^term>\<open>None\<close>, \<open>startDone\<close> is \<^term>\<open>None\<close> for nil and otherwise
  says whether the channel is closed. What the MCP SDK and the operating system answer is
  an argument.
\<close>

section \<open>Data\<close>

text \<open>\<open>Env\<close> is the Go map in the order in which a \<open>range\<close> loop visits it.\<close>

record ChildConfig =
  cfg_Name :: gostring
  cfg_Command :: gostring
  cfg_Args :: "gostring list"
  cfg_Env :: "(gostring \<times> gostring) list"
  cfg_Cwd :: gostring

datatype ChildStatus =
    StatusNew | StatusStarting | StatusRunning | StatusStopped | StatusCrashed

fun status_String :: "ChildStatus \<Rightarrow> gostring" where
  "status_String StatusNew = ''new''"
| "status_String StatusStarting = ''starting''"
| "status_String StatusRunning = ''running''"
| "status_String StatusStopped = ''stopped''"
| "status_String StatusCrashed = ''crashed''"

text \<open>The fields of \<open>mcp.Tool\<close> that the code reads; a schema is its JSON text.\<close>

record Tool =
  tool_Name :: gostring
  tool_Description :: gostring
  tool_InputSchema :: "gostring option"

record Child =
  Config :: ChildConfig
  StartTime :: "nat option"
  status :: ChildStatus
  tools :: "Tool list"
  pid :: int
  process :: "nat option"
  session :: "nat option"
  stopCancel :: "nat option"
  startDone :: "bool option"
  onCrash :: bool

definition NewChild :: "ChildConfig \<Rightarrow> bool \<Rightarrow> Child" where
  "NewChild cfg crashfn =
     \<lparr>Config = cfg, StartTime = None, status = StatusNew, tools = [], pid = 0,
      process = None, session = None, stopCancel = None, startDone = None,
      onCrash = crashfn\<rparr>"

text \<open>The accessors, each one read under the lock.\<close>

definition Status :: "Child \<Rightarrow> ChildStatus" where
  [simp]: "Status c = status c"

definition Tools :: "Child \<Rightarrow> Tool list" where
  [simp]: "Tools c = tools c"

definition PID :: "Child \<Rightarrow> int" where
  [simp]: "PID c = pid c"

definition Session :: "Child \<Rightarrow> nat option" where
  [simp]: "Session c = session c"

text \<open>One constructor per \<open>fmt.Errorf\<close>; the wrapped error is its text.\<close>

datatype child_error =
    CannotStart gostring ChildStatus
  | ConnectToChild gostring gostring
  | StoppedDuringStartup gostring
  | DiscoverTools gostring gostring

section \<open>The command of a child\<close>

record exec_Cmd =
  cmd_Path :: gostring
  cmd_Args :: "gostring list"
  cmd_Dir :: "gostring option"
  cmd_Env :: "gostring list"
  cmd_StderrPrefix :: gostring

definition build_cmd :: "ChildConfig \<Rightarrow> gostring list \<Rightarrow> exec_Cmd" where
  "build_cmd cfg environ =
     \<lparr>cmd_Path = cfg_Command cfg,
      cmd_Args = cfg_Args cfg,
      cmd_Dir = (if cfg_Cwd cfg \<noteq> [] then Some (cfg_Cwd cfg) else None),
      cmd_Env = environ @ map (\<lambda>(k, v). k @ ''='' @ v) (cfg_Env cfg),
      cmd_StderrPrefix = ''['' @ cfg_Name cfg @ ''] ''\<rparr>"

text \<open>
  \<open>os/exec\<close> and the C library read an environment list so that the last entry of a
  name wins; an entry is split at its first \<open>=\<close>.
\<close>

definition env_entry :: "gostring \<Rightarrow> gostring \<times> gostring" where
  "env_entry e = (takeWhile (\<lambda>c. c \<noteq> CHR ''='') e, drop 1 (dropWhile (\<lambda>c. c \<noteq> CHR ''='') e))"

definition effective_env :: "gostring list \<Rightarrow> gostring \<rightharpoonup> gostring" where
  "effective_env es = map_of (rev (map env_entry es))"

section \<open>Tool discovery\<close>

text \<open>
  \<open>discoverTools\<close>: the \<open>n\<close>-th \<open>ListTools\<close> request of this session, made
  with a cursor, answers an error or a page and the next cursor. The loop has no bound of
  its own, so not returning is \<^term>\<open>None\<close>.
\<close>

type_synonym lister = "nat \<Rightarrow> gostring \<Rightarrow> gostring + (Tool list \<times> gostring)"

partial_function (option) discover_loop ::
  "lister \<Rightarrow> nat \<Rightarrow> gostring \<Rightarrow> Tool list \<Rightarrow> (gostring + Tool list) option" where
  "discover_loop listTools n cursor all =
     (case listTools n cursor of
        Inl err \<Rightarrow> Some (Inl err)
      | Inr page \<Rightarrow>
          (if snd page = [] then Some (Inr (all @ fst page))
           else discover_loop listTools (Suc n) (snd page) (all @ fst page)))"

definition discoverTools :: "lister \<Rightarrow> (gostring + Tool list) option" where
  "discoverTools listTools = discover_loop listTools 0 [] []"

section \<open>The sections under the mutex\<close>

text \<open>\<open>Start\<close>, first section; \<open>i\<close> names this call's cancellable context.\<close>

definition start_enter :: "nat \<Rightarrow> Child \<Rightarrow> Child option" where
  "start_enter i c =
     (if status c \<noteq> StatusNew then None
      else Some (c\<lparr>status := StatusStarting, stopCancel := Some i, startDone := Some False\<rparr>))"

text \<open>\<open>start\<close>: publish the session unless \<open>Stop\<close> got there first.\<close>

definition start_publish :: "nat \<Rightarrow> nat \<Rightarrow> int \<Rightarrow> Child \<Rightarrow> Child option" where
  "start_publish s p n c =
     (if status c \<noteq> StatusStarting then None
      else Some (c\<lparr>session := Some s, process := Some p, pid := n\<rparr>))"

text \<open>\<open>start\<close>: discovery failed, give the session up if it is still ours.\<close>

definition start_disown :: "nat \<Rightarrow> Child \<Rightarrow> Child" where
  "start_disown s c =
     (if session c = Some s then c\<lparr>session := None, process := None\<rparr> else c)"

text \<open>\<open>start\<close>: record the tools and become running, unless stopped.\<close>

definition start_commit :: "Tool list \<Rightarrow> nat \<Rightarrow> Child \<Rightarrow> Child option" where
  "start_commit ts now c =
     (if status c \<noteq> StatusStarting then None
      else Some (c\<lparr>tools := ts, status := StatusRunning, StartTime := Some now\<rparr>))"

text \<open>
  \<open>Start\<close>, last section. Closing a nil or closed channel panics: \<^term>\<open>None\<close>.
\<close>

definition start_leave :: "bool \<Rightarrow> bool \<Rightarrow> Child \<Rightarrow> Child option" where
  "start_leave failed ctx_err c =
     (let c1 = (if failed \<and> status c = StatusStarting \<and> \<not> ctx_err
                then c\<lparr>status := StatusCrashed\<rparr> else c);
          c2 = c1\<lparr>stopCancel := None\<rparr>
      in if startDone c2 = Some False then Some (c2\<lparr>startDone := Some True\<rparr>) else None)"

text \<open>\<open>monitor\<close>, after \<open>session.Wait\<close>: \<open>wasCrash\<close> and the new state.\<close>

definition monitor_exit :: "Child \<Rightarrow> bool \<times> Child" where
  "monitor_exit c =
     (let wasCrash = (status c = StatusRunning)
      in (wasCrash, if wasCrash then c\<lparr>status := StatusCrashed\<rparr> else c))"

text \<open>\<open>Stop\<close>, first section: what the call reads, and the state it leaves.\<close>

record stop_frame =
  f_session :: "nat option"
  f_process :: "nat option"
  f_cancel :: "nat option"
  f_wait :: bool

definition stop_frame_of :: "Child \<Rightarrow> stop_frame" where
  "stop_frame_of c =
     \<lparr>f_session = session c, f_process = process c, f_cancel = stopCancel c,
      f_wait = (startDone c \<noteq> None)\<rparr>"

definition stop_enter :: "Child \<Rightarrow> Child" where
  "stop_enter c =
     c\<lparr>session := None, process := None, stopCancel := None,
       status := (if status c \<noteq> StatusCrashed then StatusStopped else status c)\<rparr>"

definition stop_reread :: "Child \<Rightarrow> Child" where
  "stop_reread c = c\<lparr>session := None, process := None\<rparr>"

lemmas section_defs =
  start_enter_def start_publish_def start_disown_def start_commit_def start_leave_def
  monitor_exit_def stop_frame_of_def stop_enter_def stop_reread_def Let_def

section \<open>Start and Stop, undisturbed\<close>

text \<open>What a \<open>Start\<close> call meets: the SDK's and the system's answers, in order.\<close>

record start_env =
  env_connect :: "gostring + int"
  env_list :: lister
  env_now :: nat
  env_ctx_err :: bool

text \<open>
  The inner \<open>start\<close>: its result, the state, and the sessions it closed. The session
  and the process of call \<open>i\<close> are both named \<open>i\<close>.
\<close>

definition child_start ::
  "nat \<Rightarrow> start_env \<Rightarrow> Child \<Rightarrow> ((child_error + Tool list) \<times> Child \<times> nat list) option" where
  "child_start i e c =
     (let name = cfg_Name (Config c) in
      case env_connect e of
        Inl err \<Rightarrow> Some (Inl (ConnectToChild name err), c, [])
      | Inr n \<Rightarrow>
          (case start_publish i i n c of
             None \<Rightarrow> Some (Inl (StoppedDuringStartup name), c, [i])
           | Some c1 \<Rightarrow>
               (case discoverTools (env_list e) of
                  None \<Rightarrow> None
                | Some (Inl err) \<Rightarrow> Some (Inl (DiscoverTools name err), start_disown i c1, [i])
                | Some (Inr ts) \<Rightarrow>
                    (case start_commit ts (env_now e) c1 of
                       None \<Rightarrow> Some (Inl (StoppedDuringStartup name), c1, [])
                     | Some c2 \<Rightarrow> Some (Inr ts, c2, [])))))"

definition child_Start ::
  "nat \<Rightarrow> start_env \<Rightarrow> Child \<Rightarrow> ((child_error + Tool list) \<times> Child \<times> nat list) option" where
  "child_Start i e c =
     (case start_enter i c of
        None \<Rightarrow> Some (Inl (CannotStart (cfg_Name (Config c)) (status c)), c, [])
      | Some c1 \<Rightarrow>
          (case child_start i e c1 of
             None \<Rightarrow> None
           | Some (r, c2, closed) \<Rightarrow>
               (case start_leave (isl r) (env_ctx_err e) c2 of
                  None \<Rightarrow> None
                | Some c3 \<Rightarrow> Some (r, c3, closed))))"

text \<open>
  \<open>Stop\<close> when no \<open>Start\<close> is in progress: the state and the session it closed.
\<close>

definition child_Stop :: "Child \<Rightarrow> Child \<times> nat option" where
  "child_Stop c =
     (let f = stop_frame_of c; c1 = stop_enter c in
      if f_session f = None then (stop_reread c1, session c1) else (c1, f_session f))"

text \<open>
  \<open>prefixWriter.Write\<close>: two writes to the underlying writer, whose answers to its
  first and second call are given; the result is the count and the error, and what was
  passed on.
\<close>

definition prefixWriter_Write ::
  "gostring \<Rightarrow> gostring \<Rightarrow> (nat \<Rightarrow> gostring \<Rightarrow> int \<times> gostring option) \<Rightarrow>
     (int \<times> gostring option) \<times> gostring list" where
  "prefixWriter_Write pre p w =
     (case snd (w 0 pre) of
        Some err \<Rightarrow> ((0, Some err), [pre])
      | None \<Rightarrow> (w 1 p, [pre, p]))"

end
