(* ===== verification/ProxyModel.thy ===== *)
theory ProxyModel
  imports Namespace ChildModel
begin

text \<open>
  The proxy of \<open>mcpmux/internal/mcpmux/proxy.go\<close>: the table of children, the tools it
  registers on the MCP server it presents to its client, and its four management
  handlers, one call at a time. The MCP SDK's server is not part of the repository: its
  tool table is a parameter, the operations of \<open>tool_server\<close>, and what the proxy relies on
  is the locale \<open>mcp_server\<close>. A child lives in a heap under a number, the identity of its
  Go pointer, which also names the session its \<open>Start\<close> connects.
\<close>

section \<open>The MCP server's tool table\<close>

text \<open>The handler registered with a tool: one of the four management handlers, or the
  closure \<open>makeProxyHandler\<close> returns for a server and an original tool name.\<close>

datatype handler =
    AddServer | RemoveServer | ReloadServer | ListServers
  | ProxyTool gostring gostring

type_synonym entry = "Tool \<times> handler"

record 'r tool_server =
  newServer :: 'r
  addTool :: "Tool \<Rightarrow> handler \<Rightarrow> 'r \<Rightarrow> 'r"
  removeTools :: "gostring list \<Rightarrow> 'r \<Rightarrow> 'r"
  lookupTool :: "'r \<Rightarrow> gostring \<rightharpoonup> entry"

text \<open>
  What the SDK documents: a new server has no tools, \<open>AddTool\<close> adds a tool or replaces
  the one of the same name, \<open>RemoveTools\<close> removes the tools with the given names.
\<close>

locale mcp_server =
  fixes ops :: "'r tool_server"
  assumes lookup_new: "lookupTool ops (newServer ops) = Map.empty"
    and lookup_add: "lookupTool ops (addTool ops t h r) = (lookupTool ops r)(tool_Name t \<mapsto> (t, h))"
    and lookup_remove: "lookupTool ops (removeTools ops ns r) = lookupTool ops r |` (- set ns)"

text \<open>The reference instance: the table is the map itself.\<close>

definition map_server :: "(gostring \<rightharpoonup> entry) tool_server" where
  "map_server =
     \<lparr>newServer = Map.empty, addTool = (\<lambda>t h r. r(tool_Name t \<mapsto> (t, h))),
      removeTools = (\<lambda>ns r. r |` (- set ns)), lookupTool = (\<lambda>r. r)\<rparr>"

interpretation ms: mcp_server map_server
  by unfold_locales (simp_all add: map_server_def)

section \<open>State, requests and replies\<close>

text \<open>\<open>live\<close> is the set of child sessions that are connected and not closed.\<close>

record 'r proxy =
  server :: 'r
  children :: "gostring \<rightharpoonup> nat"
  heap :: "nat \<Rightarrow> Child"
  next_child :: nat
  live :: "nat set"

record addServerInput =
  in_Name :: gostring
  in_Command :: gostring
  in_Args :: "gostring list"
  in_Env :: "(gostring \<times> gostring) list"
  in_Cwd :: gostring

text \<open>The input of \<open>remove_server\<close> and \<open>reload_server\<close> is a struct with the name only.\<close>

type_synonym nameInput = gostring

record serverInfo =
  si_Name :: gostring
  si_Command :: gostring
  si_Args :: "gostring list"
  si_Status :: gostring
  si_Tools :: "gostring list"
  si_PID :: int
  si_Uptime :: nat

text \<open>The texts of the replies, one constructor per format string or JSON object.\<close>

datatype reply_text =
    NameError gostring
  | AlreadyExists gostring
  | FailedToStart gostring child_error
  | ExitedImmediately gostring
  | Added gostring "gostring list"
  | NotFound gostring
  | Removed gostring
  | Servers "serverInfo list"
  | NotRunning gostring
  | CallFailed gostring gostring gostring

record reply =
  isError :: bool
  content :: reply_text

definition textResult :: "bool \<Rightarrow> reply_text \<Rightarrow> reply" where
  "textResult e t = \<lparr>isError = e, content = t\<rparr>"

section \<open>NewProxy\<close>

definition mgmt_tool :: "gostring \<Rightarrow> gostring \<Rightarrow> Tool" where
  "mgmt_tool n d = \<lparr>tool_Name = n, tool_Description = d, tool_InputSchema = None\<rparr>"

definition registerManagementTools :: "'r tool_server \<Rightarrow> 'r \<Rightarrow> 'r" where
  "registerManagementTools ops r =
     (let r1 = addTool ops (mgmt_tool ''add_server'' ''Add and start a child MCP server'') AddServer r;
          r2 = addTool ops (mgmt_tool ''remove_server'' ''Stop and remove a child MCP server'') RemoveServer r1;
          r3 = addTool ops (mgmt_tool ''reload_server'' ''Restart a child MCP server with the same config'') ReloadServer r2
      in addTool ops (mgmt_tool ''list_servers'' ''List all registered child MCP servers'') ListServers r3)"

definition NewProxy :: "'r tool_server \<Rightarrow> 'r proxy" where
  "NewProxy ops =
     \<lparr>server = registerManagementTools ops (newServer ops), children = Map.empty,
      heap = (\<lambda>_. NewChild \<lparr>cfg_Name = [], cfg_Command = [], cfg_Args = [], cfg_Env = [], cfg_Cwd = []\<rparr> False),
      next_child = 0, live = {}\<rparr>"

section \<open>Removing and adding the tools of a child\<close>

definition removeToolsForChild :: "'r tool_server \<Rightarrow> Child \<Rightarrow> gostring \<Rightarrow> 'r \<Rightarrow> 'r" where
  "removeToolsForChild ops c name r =
     (let names = map (\<lambda>t. PrefixTool name (tool_Name t)) (Tools c)
      in if length names > 0 then removeTools ops names r else r)"

definition handleCrash :: "'r tool_server \<Rightarrow> gostring \<Rightarrow> nat \<Rightarrow> 'r proxy \<Rightarrow> 'r proxy" where
  "handleCrash ops name crashed p =
     (if children p name = Some crashed
      then p\<lparr>server := removeToolsForChild ops (heap p crashed) name (server p)\<rparr>
      else p)"

text \<open>The monitor of a child sees its session end: \<open>monitor_exit\<close>, then the callback.\<close>

definition child_exits :: "'r tool_server \<Rightarrow> gostring \<Rightarrow> nat \<Rightarrow> 'r proxy \<Rightarrow> 'r proxy" where
  "child_exits ops name i p =
     (let (wasCrash, c) = monitor_exit (heap p i);
          p1 = p\<lparr>heap := (heap p)(i := c)\<rparr>
      in if wasCrash \<and> onCrash c then handleCrash ops name i p1 else p1)"

definition object_schema :: gostring where
  "object_schema = CHR ''{'' # CHR 0x22 # ''type'' @ CHR 0x22 # '':'' @ CHR 0x22 # ''object'' @ [CHR 0x22, CHR ''}'']"

definition export_tool :: "gostring \<Rightarrow> Tool \<Rightarrow> Tool" where
  "export_tool name t =
     \<lparr>tool_Name = PrefixTool name (tool_Name t), tool_Description = tool_Description t,
      tool_InputSchema = Some (case tool_InputSchema t of None \<Rightarrow> object_schema | Some s \<Rightarrow> s)\<rparr>"

fun registerTools :: "'r tool_server \<Rightarrow> gostring \<Rightarrow> Tool list \<Rightarrow> 'r \<Rightarrow> 'r" where
  "registerTools ops name [] r = r"
| "registerTools ops name (t # ts) r =
     registerTools ops name ts
       (addTool ops (export_tool name t) (ProxyTool name (tool_Name t)) r)"

section \<open>add_server\<close>

definition add_reserve :: "addServerInput \<Rightarrow> 'r proxy \<Rightarrow> reply + (nat \<times> 'r proxy)" where
  "add_reserve input p =
     (case ValidateServerName (in_Name input) of
        Some e \<Rightarrow> Inl (textResult True (NameError e))
      | None \<Rightarrow>
          if children p (in_Name input) \<noteq> None
          then Inl (textResult True (AlreadyExists (in_Name input)))
          else
            (let cfg = \<lparr>cfg_Name = in_Name input, cfg_Command = in_Command input,
                        cfg_Args = in_Args input, cfg_Env = in_Env input, cfg_Cwd = in_Cwd input\<rparr>;
                 i = next_child p
             in Inr (i, p\<lparr>children := (children p)(in_Name input \<mapsto> i),
                         heap := (heap p)(i := NewChild cfg True), next_child := Suc i\<rparr>)))"

definition forget :: "gostring \<Rightarrow> 'r proxy \<Rightarrow> 'r proxy" where
  "forget name p = p\<lparr>children := map_delete (children p) name\<rparr>"

text \<open>What an \<open>add_server\<close> call meets: the answers to \<open>Start\<close>, and whether the child
  dies between the return of \<open>Start\<close> and the check of its status.\<close>

record add_env =
  ae_start :: start_env
  ae_dies :: bool

text \<open>After \<open>child.Start\<close> returned: the sessions that are live.\<close>

definition after_start :: "nat \<Rightarrow> start_env \<Rightarrow> Child \<Rightarrow> nat list \<Rightarrow> 'r proxy \<Rightarrow> 'r proxy" where
  "after_start i e c closed p =
     p\<lparr>heap := (heap p)(i := c),
       live := (if isl (env_connect e) then live p else insert i (live p)) - set closed\<rparr>"

definition add_finish :: "'r tool_server \<Rightarrow> gostring \<Rightarrow> nat \<Rightarrow> Tool list \<Rightarrow> 'r proxy \<Rightarrow> reply \<times> 'r proxy" where
  "add_finish ops name i ts p =
     (if Status (heap p i) \<noteq> StatusRunning
      then (textResult True (ExitedImmediately name), forget name p)
      else (textResult False (Added name (map (\<lambda>t. PrefixTool name (tool_Name t)) ts)),
            p\<lparr>server := registerTools ops name ts (server p)\<rparr>))"

definition handleAddServer ::
  "'r tool_server \<Rightarrow> add_env \<Rightarrow> addServerInput \<Rightarrow> 'r proxy \<Rightarrow> (reply \<times> 'r proxy) option" where
  "handleAddServer ops e input p =
     (case add_reserve input p of
        Inl r \<Rightarrow> Some (r, p)
      | Inr (i, p1) \<Rightarrow>
          (case child_Start i (ae_start e) (heap p1 i) of
             None \<Rightarrow> None
           | Some (res, c, closed) \<Rightarrow>
               (let p2 = after_start i (ae_start e) c closed p1 in
                case res of
                  Inl err \<Rightarrow>
                    Some (textResult True (FailedToStart (in_Name input) err), forget (in_Name input) p2)
                | Inr ts \<Rightarrow>
                    (let p3 = (if ae_dies e then child_exits ops (in_Name input) i p2 else p2)
                     in Some (add_finish ops (in_Name input) i ts p3)))))"

section \<open>remove_server, reload_server\<close>

definition stop_child :: "nat \<Rightarrow> 'r proxy \<Rightarrow> 'r proxy" where
  "stop_child i p =
     (let (c, s) = child_Stop (heap p i)
      in p\<lparr>heap := (heap p)(i := c),
           live := (case s of None \<Rightarrow> live p | Some k \<Rightarrow> live p - {k})\<rparr>)"

definition handleRemoveServer :: "'r tool_server \<Rightarrow> nameInput \<Rightarrow> 'r proxy \<Rightarrow> reply \<times> 'r proxy" where
  "handleRemoveServer ops name p =
     (case children p name of
        None \<Rightarrow> (textResult True (NotFound name), p)
      | Some i \<Rightarrow>
          (let p1 = forget name p;
               p2 = p1\<lparr>server := removeToolsForChild ops (heap p1 i) name (server p1)\<rparr>
           in (textResult False (Removed name), stop_child i p2)))"

definition input_of :: "ChildConfig \<Rightarrow> addServerInput" where
  "input_of cfg =
     \<lparr>in_Name = cfg_Name cfg, in_Command = cfg_Command cfg, in_Args = cfg_Args cfg,
      in_Env = cfg_Env cfg, in_Cwd = cfg_Cwd cfg\<rparr>"

definition handleReloadServer ::
  "'r tool_server \<Rightarrow> add_env \<Rightarrow> nameInput \<Rightarrow> 'r proxy \<Rightarrow> (reply \<times> 'r proxy) option" where
  "handleReloadServer ops e name p =
     (case children p name of
        None \<Rightarrow> Some (textResult True (NotFound name), p)
      | Some i \<Rightarrow>
          (let cfg = Config (heap p i);
               (r, p1) = handleRemoveServer ops name p
           in if isError r then Some (r, p1) else handleAddServer ops e (input_of cfg) p1))"

section \<open>list_servers, tool calls, shutdown\<close>

text \<open>The order in which \<open>range p.children\<close> visits the table is an argument.\<close>

definition server_info :: "nat \<Rightarrow> gostring \<Rightarrow> Child \<Rightarrow> serverInfo" where
  "server_info now name c =
     \<lparr>si_Name = name, si_Command = cfg_Command (Config c), si_Args = cfg_Args (Config c),
      si_Status = status_String (Status c),
      si_Tools = (if Status c = StatusRunning
                  then map (\<lambda>t. PrefixTool name (tool_Name t)) (Tools c) else []),
      si_PID = PID c,
      si_Uptime = (case StartTime c of None \<Rightarrow> 0 | Some t \<Rightarrow> now - t)\<rparr>"

definition handleListServers :: "nat \<Rightarrow> gostring list \<Rightarrow> 'r proxy \<Rightarrow> reply" where
  "handleListServers now order p =
     textResult False
       (Servers (map (\<lambda>n. server_info now n (heap p (the (children p n)))) order))"

datatype 'a call_reply = Own reply | FromChild 'a

text \<open>\<open>session.CallTool\<close> is an argument: the session, the tool's name and the arguments.\<close>

definition proxyHandler ::
  "(nat \<Rightarrow> gostring \<Rightarrow> 'args \<Rightarrow> gostring + 'a) \<Rightarrow> gostring \<Rightarrow> gostring \<Rightarrow> 'args \<Rightarrow> 'r proxy
     \<Rightarrow> 'a call_reply" where
  "proxyHandler callTool serverName toolName args p =
     (case children p serverName of
        None \<Rightarrow> Own (textResult True (NotFound serverName))
      | Some i \<Rightarrow>
          (case Session (heap p i) of
             None \<Rightarrow> Own (textResult True (NotRunning serverName))
           | Some s \<Rightarrow>
               (case callTool s toolName args of
                  Inl err \<Rightarrow> Own (textResult True (CallFailed serverName toolName err))
                | Inr result \<Rightarrow> FromChild result)))"

fun stop_all :: "nat list \<Rightarrow> 'r proxy \<Rightarrow> 'r proxy" where
  "stop_all [] p = p"
| "stop_all (i # is) p = stop_all is (stop_child i p)"

definition Shutdown :: "gostring list \<Rightarrow> 'r proxy \<Rightarrow> 'r proxy" where
  "Shutdown order p =
     stop_all (map (\<lambda>n. the (children p n)) order) (p\<lparr>children := Map.empty\<rparr>)"

end
