(* ===== verification/ChildThreads.thy ===== *)
theory ChildThreads
  imports ChildModel
begin

text \<open>
  The concurrency of one child (\<open>child.go\<close>): any number of \<open>Start\<close> calls, any
  number of \<open>Stop\<close> calls and the monitor goroutines, each a program counter that
  moves from one section under \<open>c.mu\<close> or one SDK call to the next. A move is a
  partial function of the state and of what the SDK answers; the reachable states are
  those of every schedule. The session connected by the \<open>i\<close>-th \<open>Start\<close> call is
  named \<open>i\<close>, and so are its process, its context and the monitor it spawns.
\<close>

section \<open>Program counters\<close>

text \<open>
  \<open>SRefuse\<close> is between the unlock of line 103 and the read of \<open>c.status\<close> on
  line 104, which is outside the lock.
\<close>

datatype start_pc =
    SIdle | SRefuse | SRefused ChildStatus
  | SConnect | SPublish int | SDiscover | SDisown gostring | SClose child_error
  | SCommit "Tool list" | SSpawn "Tool list"
  | SLeave "child_error + Tool list" | SCancel "child_error + Tool list"
  | SDone "child_error + Tool list"

datatype stop_pc =
    PIdle | PCancel stop_frame | PWait stop_frame | PReread
  | PClose nat "nat option" | PKilled nat | PDone

datatype mon_pc = MIdle | MRead | MWait nat | MExit | MNotify | MDone

record child_sys =
  child :: Child
  starters :: "nat \<Rightarrow> start_pc"
  stoppers :: "nat \<Rightarrow> stop_pc"
  monitors :: "nat \<Rightarrow> mon_pc"
  cancelled :: "nat set"
  open_sessions :: "nat set"
  dead :: "nat set"
  killed :: "nat set"
  crash_calls :: nat
  panicked :: bool

definition init_sys :: "Child \<Rightarrow> child_sys" where
  "init_sys c =
     \<lparr>child = c, starters = (\<lambda>_. SIdle), stoppers = (\<lambda>_. PIdle), monitors = (\<lambda>_. MIdle),
      cancelled = {}, open_sessions = {}, dead = {}, killed = {}, crash_calls = 0,
      panicked = False\<rparr>"

definition sgoto :: "nat \<Rightarrow> start_pc \<Rightarrow> child_sys \<Rightarrow> child_sys" where
  [simp]: "sgoto i pc s = s\<lparr>starters := (starters s)(i := pc)\<rparr>"

definition pgoto :: "nat \<Rightarrow> stop_pc \<Rightarrow> child_sys \<Rightarrow> child_sys" where
  [simp]: "pgoto j pc s = s\<lparr>stoppers := (stoppers s)(j := pc)\<rparr>"

definition mgoto :: "nat \<Rightarrow> mon_pc \<Rightarrow> child_sys \<Rightarrow> child_sys" where
  [simp]: "mgoto i pc s = s\<lparr>monitors := (monitors s)(i := pc)\<rparr>"

section \<open>The moves of Start\<close>

text \<open>What a move needs to know: the answer of the SDK, or the time.\<close>

datatype answer =
    Go | Connected int | ConnectFailed gostring | Listed "Tool list" | ListFailed gostring
  | Clock nat

abbreviation child_name :: "child_sys \<Rightarrow> gostring" where
  "child_name s \<equiv> cfg_Name (Config (child s))"

fun start_move :: "start_pc \<Rightarrow> answer \<Rightarrow> nat \<Rightarrow> child_sys \<Rightarrow> child_sys option" where
  "start_move SIdle a i s =
     (case start_enter i (child s) of
        None \<Rightarrow> Some (sgoto i SRefuse s)
      | Some c \<Rightarrow> Some (sgoto i SConnect (s\<lparr>child := c\<rparr>)))"
| "start_move SRefuse a i s = Some (sgoto i (SRefused (status (child s))) s)"
| "start_move (SRefused st) a i s = None"
| "start_move SConnect a i s =
     (case a of
        Connected n \<Rightarrow> Some (sgoto i (SPublish n) (s\<lparr>open_sessions := insert i (open_sessions s)\<rparr>))
      | ConnectFailed e \<Rightarrow> Some (sgoto i (SLeave (Inl (ConnectToChild (child_name s) e))) s)
      | _ \<Rightarrow> None)"
| "start_move (SPublish n) a i s =
     (case start_publish i i n (child s) of
        None \<Rightarrow> Some (sgoto i (SClose (StoppedDuringStartup (child_name s))) s)
      | Some c \<Rightarrow> Some (sgoto i SDiscover (s\<lparr>child := c\<rparr>)))"
| "start_move SDiscover a i s =
     (case a of
        Listed ts \<Rightarrow> Some (sgoto i (SCommit ts) s)
      | ListFailed e \<Rightarrow> Some (sgoto i (SDisown e) s)
      | _ \<Rightarrow> None)"
| "start_move (SDisown e) a i s =
     Some (sgoto i (SClose (DiscoverTools (child_name s) e))
       (s\<lparr>child := start_disown i (child s)\<rparr>))"
| "start_move (SClose err) a i s =
     Some (sgoto i (SLeave (Inl err)) (s\<lparr>open_sessions := open_sessions s - {i}\<rparr>))"
| "start_move (SCommit ts) a i s =
     (case a of
        Clock now \<Rightarrow>
          (case start_commit ts now (child s) of
             None \<Rightarrow> Some (sgoto i (SLeave (Inl (StoppedDuringStartup (child_name s)))) s)
           | Some c \<Rightarrow> Some (sgoto i (SSpawn ts) (s\<lparr>child := c\<rparr>)))
      | _ \<Rightarrow> None)"
| "start_move (SSpawn ts) a i s = Some (mgoto i MRead (sgoto i (SLeave (Inr ts)) s))"
| "start_move (SLeave r) a i s =
     (case start_leave (isl r) (i \<in> cancelled s) (child s) of
        None \<Rightarrow> Some (s\<lparr>panicked := True\<rparr>)
      | Some c \<Rightarrow> Some (sgoto i (SCancel r) (s\<lparr>child := c\<rparr>)))"
| "start_move (SCancel r) a i s =
     Some (sgoto i (SDone r) (s\<lparr>cancelled := insert i (cancelled s)\<rparr>))"
| "start_move (SDone r) a i s = None"

fun_cases start_moveE: "start_move pc a i s = Some s'"

section \<open>The moves of Stop\<close>

text \<open>\<open>timeout\<close>: the \<open>select\<close> took the timer instead of the close's return.\<close>

fun stop_move :: "stop_pc \<Rightarrow> bool \<Rightarrow> nat \<Rightarrow> child_sys \<Rightarrow> child_sys option" where
  "stop_move PIdle _ j s =
     Some (pgoto j (PCancel (stop_frame_of (child s))) (s\<lparr>child := stop_enter (child s)\<rparr>))"
| "stop_move (PCancel f) _ j s =
     Some (pgoto j (PWait f)
       (s\<lparr>cancelled := (case f_cancel f of None \<Rightarrow> cancelled s | Some i \<Rightarrow> insert i (cancelled s))\<rparr>))"
| "stop_move (PWait f) _ j s =
     (if f_wait f \<and> startDone (child s) \<noteq> Some True then None
      else (case f_session f of
              None \<Rightarrow> Some (pgoto j PReread s)
            | Some k \<Rightarrow> Some (pgoto j (PClose k (f_process f)) s)))"
| "stop_move PReread _ j s =
     (case session (child s) of
        None \<Rightarrow> Some (pgoto j PDone (s\<lparr>child := stop_reread (child s)\<rparr>))
      | Some k \<Rightarrow> Some (pgoto j (PClose k (process (child s)))
                    (s\<lparr>child := stop_reread (child s)\<rparr>)))"
| "stop_move (PClose k p) timeout j s =
     (if timeout
      then Some (pgoto j (PKilled k)
             (s\<lparr>killed := (case p of None \<Rightarrow> killed s | Some q \<Rightarrow> insert q (killed s))\<rparr>))
      else Some (pgoto j PDone (s\<lparr>open_sessions := open_sessions s - {k}\<rparr>)))"
| "stop_move (PKilled k) _ j s =
     Some (pgoto j PDone (s\<lparr>open_sessions := open_sessions s - {k}\<rparr>))"
| "stop_move PDone _ _ _ = None"

fun_cases stop_moveE: "stop_move pc a j s = Some s'"

section \<open>The moves of a monitor\<close>

text \<open>\<open>session.Wait\<close> returns once the peer died or the session was closed.\<close>

fun mon_move :: "mon_pc \<Rightarrow> nat \<Rightarrow> child_sys \<Rightarrow> child_sys option" where
  "mon_move MIdle _ _ = None"
| "mon_move MRead i s =
     (case session (child s) of
        None \<Rightarrow> Some (mgoto i MDone s)
      | Some k \<Rightarrow> Some (mgoto i (MWait k) s))"
| "mon_move (MWait k) i s =
     (if k \<in> dead s \<or> k \<notin> open_sessions s then Some (mgoto i MExit s) else None)"
| "mon_move MExit i s =
     (let (wasCrash, c) = monitor_exit (child s) in
      Some (mgoto i (if wasCrash \<and> onCrash c then MNotify else MDone) (s\<lparr>child := c\<rparr>)))"
| "mon_move MNotify i s = Some (mgoto i MDone (s\<lparr>crash_calls := Suc (crash_calls s)\<rparr>))"
| "mon_move MDone _ _ = None"

fun_cases mon_moveE: "mon_move pc i s = Some s'"

section \<open>Schedules\<close>

text \<open>
  One step of the system: a thread moves, the caller of the \<open>i\<close>-th \<open>Start\<close> cancels
  its context, or the process behind a session dies.
\<close>

datatype action =
    AStart nat answer | AStop nat bool | AMon nat | ACancel nat | ADie nat

fun child_step :: "action \<Rightarrow> child_sys \<Rightarrow> child_sys option" where
  "child_step (AStart i a) s = start_move (starters s i) a i s"
| "child_step (AStop j timeout) s = stop_move (stoppers s j) timeout j s"
| "child_step (AMon i) s = mon_move (monitors s i) i s"
| "child_step (ACancel i) s = Some (s\<lparr>cancelled := insert i (cancelled s)\<rparr>)"
| "child_step (ADie k) s =
     (if k \<in> open_sessions s then Some (s\<lparr>dead := insert k (dead s)\<rparr>) else None)"

fun child_run :: "action list \<Rightarrow> child_sys \<Rightarrow> child_sys option" where
  "child_run [] s = Some s"
| "child_run (a # as) s = (case child_step a s of None \<Rightarrow> None | Some s1 \<Rightarrow> child_run as s1)"

inductive creach :: "ChildConfig \<Rightarrow> bool \<Rightarrow> child_sys \<Rightarrow> bool" for cfg crashfn where
  init: "creach cfg crashfn (init_sys (NewChild cfg crashfn))"
| step: "creach cfg crashfn s \<Longrightarrow> child_step a s = Some s' \<Longrightarrow> creach cfg crashfn s'"

lemma creach_run: "creach cfg f s \<Longrightarrow> child_run as s = Some s' \<Longrightarrow> creach cfg f s'"
  by (induction as arbitrary: s) (auto split: option.splits intro: creach.step)

text \<open>An invariant is proved thread by thread.\<close>

lemma child_step_cases:
  assumes "child_step a s = Some s'"
  obtains (start) i b where "start_move (starters s i) b i s = Some s'"
  | (stop) j t where "stop_move (stoppers s j) t j s = Some s'"
  | (mon) i where "mon_move (monitors s i) i s = Some s'"
  | (cancel) i where "s' = s\<lparr>cancelled := insert i (cancelled s)\<rparr>"
  | (die) k where "k \<in> open_sessions s" "s' = s\<lparr>dead := insert k (dead s)\<rparr>"
  using assms by (cases a) (auto split: if_splits)

end
