(* ===== verification/ProxyThreads.thy ===== *)
theory ProxyThreads
  imports ProxyModel ChildThreads
begin

text \<open>
  The proxy under concurrent calls (\<open>proxy.go\<close>): the SDK runs every tool call in a
  goroutine of its own, so calls of the handlers interleave with each other, with the threads
  of the children (\<open>child.go\<close>, as \<open>ChildThreads\<close> has them) and with the crash callbacks.
  A section under \<open>p.mu\<close>, a call on the MCP server and a move of a child is one step each,
  but for \<open>list_servers\<close>, which holds the read lock over its whole loop: its reads of the
  children are steps, and the sections that need the write lock wait for it (\<open>readers\<close>).
  The \<open>i\<close>-th child allocated has number \<open>i\<close>; its only \<open>Start\<close> call is number \<open>i\<close> of
  its \<^typ>\<open>child_sys\<close>, and the \<open>Stop\<close> call made by the handler call \<open>t\<close> is number \<open>t\<close>.
\<close>

section \<open>Calls\<close>

datatype request =
    ReqAdd addServerInput | ReqRemove gostring | ReqReload gostring | ReqList | ReqShutdown

text \<open>
  Where \<open>handleListServers\<close> is in its loop: the servers still to visit and the entries made so
  far, and of the server it is at, what it has read.
\<close>

datatype list_pc =
    LNext "(gostring \<times> nat) list" "serverInfo list"
  | LTools gostring nat "(gostring \<times> nat) list" "serverInfo list"
  | LTime gostring nat "gostring list" "(gostring \<times> nat) list" "serverInfo list"
  | LStat gostring nat "gostring list" nat "(gostring \<times> nat) list" "serverInfo list"
  | LPid gostring nat "gostring list" nat gostring "(gostring \<times> nat) list" "serverInfo list"

text \<open>Where the handler of \<open>makeProxyHandler\<close> is: the server's and the tool's name, the
  arguments, the child it has found, the session it has read.\<close>

datatype tool_pc =
    TLook gostring gostring gostring | TSess gostring gostring gostring nat
  | TSend gostring gostring gostring nat nat

text \<open>
  Where a handler call is. \<open>AddReg\<close> holds the tools still to register and all of them;
  the last argument of the \<open>Rem\<close> counters is the input \<open>handleReloadServer\<close> adds next.
\<close>

datatype call_pc =
    Idle
  | AddEnter addServerInput | AddStart gostring nat | AddFail gostring child_error
  | AddCheck gostring nat "Tool list" | AddGone gostring
  | AddReg gostring "Tool list" "Tool list"
  | RelEnter gostring
  | RemEnter gostring "addServerInput option" | RemRead gostring nat "addServerInput option"
  | RemDrop "gostring list" gostring nat "addServerInput option"
  | RemStop gostring nat "addServerInput option"
  | ListEnter | Listing list_pc | Tooling tool_pc
  | ShutEnter | ShutStop "nat list"
  | Replied reply | Forwarded gostring | ShutDone

text \<open>\<open>handleCrash\<close> of one child: look at the table, read the tools, remove them.\<close>

datatype crash_pc = KIdle | KLook | KRead | KDrop "gostring list" | KDone

record 'r psys =
  registry :: 'r
  table :: "gostring \<rightharpoonup> nat"
  readers :: "nat set"
  kids :: "nat \<Rightarrow> child_sys"
  next_kid :: nat
  calls :: "nat \<Rightarrow> call_pc"
  crashers :: "nat \<Rightarrow> crash_pc"

definition init_psys :: "'r tool_server \<Rightarrow> 'r psys" where
  "init_psys ops =
     \<lparr>registry = registerManagementTools ops (newServer ops), table = Map.empty, readers = {},
      kids = (\<lambda>_. init_sys (NewChild \<lparr>cfg_Name = [], cfg_Command = [], cfg_Args = [], cfg_Env = [], cfg_Cwd = []\<rparr> True)),
      next_kid = 0, calls = (\<lambda>_. Idle), crashers = (\<lambda>_. KIdle)\<rparr>"

definition goto :: "nat \<Rightarrow> call_pc \<Rightarrow> 'r psys \<Rightarrow> 'r psys" where
  [simp]: "goto t pc s = s\<lparr>calls := (calls s)(t := pc)\<rparr>"

definition enter :: "request \<Rightarrow> call_pc" where
  "enter req =
     (case req of
        ReqAdd input \<Rightarrow> AddEnter input
      | ReqRemove name \<Rightarrow> RemEnter name None
      | ReqReload name \<Rightarrow> RelEnter name
      | ReqList \<Rightarrow> ListEnter
      | ReqShutdown \<Rightarrow> ShutEnter)"

definition cfg_of :: "addServerInput \<Rightarrow> ChildConfig" where
  "cfg_of input =
     \<lparr>cfg_Name = in_Name input, cfg_Command = in_Command input, cfg_Args = in_Args input,
      cfg_Env = in_Env input, cfg_Cwd = in_Cwd input\<rparr>"

definition tool_names :: "gostring \<Rightarrow> Tool list \<Rightarrow> gostring list" where
  "tool_names name ts = map (\<lambda>t. PrefixTool name (tool_Name t)) ts"

section \<open>The moves of a call\<close>

definition kid_name :: "'r psys \<Rightarrow> nat \<Rightarrow> gostring" where
  "kid_name s i = cfg_Name (Config (child (kids s i)))"

text \<open>After the removal: reply, or go on with the addition of a reload.\<close>

definition after_remove :: "gostring \<Rightarrow> addServerInput option \<Rightarrow> call_pc" where
  "after_remove name k =
     (case k of None \<Rightarrow> Replied (textResult False (Removed name)) | Some input \<Rightarrow> AddEnter input)"

fun call_move :: "'r tool_server \<Rightarrow> call_pc \<Rightarrow> nat \<Rightarrow> 'r psys \<Rightarrow> 'r psys option" where
  "call_move ops Idle t s = None"
| "call_move ops (AddEnter input) t s =
     (case ValidateServerName (in_Name input) of
        Some e \<Rightarrow> Some (goto t (Replied (textResult True (NameError e))) s)
      | None \<Rightarrow>
          (if table s (in_Name input) \<noteq> None
           then Some (goto t (Replied (textResult True (AlreadyExists (in_Name input)))) s)
           else if readers s \<noteq> {} then None
           else Some (goto t (AddStart (in_Name input) (next_kid s))
             (s\<lparr>table := (table s)(in_Name input \<mapsto> next_kid s),
                kids := (kids s)(next_kid s := init_sys (NewChild (cfg_of input) True)),
                next_kid := Suc (next_kid s)\<rparr>))))"
| "call_move ops (AddStart name i) t s =
     (case starters (kids s i) i of
        SDone (Inl err) \<Rightarrow> Some (goto t (AddFail name err) s)
      | SDone (Inr ts) \<Rightarrow> Some (goto t (AddCheck name i ts) s)
      | SRefused st \<Rightarrow> Some (goto t (AddFail name (CannotStart (kid_name s i) st)) s)
      | _ \<Rightarrow> None)"
| "call_move ops (AddFail name err) t s =
     (if readers s \<noteq> {} then None
      else Some (goto t (Replied (textResult True (FailedToStart name err)))
        (s\<lparr>table := map_delete (table s) name\<rparr>)))"
| "call_move ops (AddCheck name i ts) t s =
     Some (goto t (if Status (child (kids s i)) \<noteq> StatusRunning then AddGone name else AddReg name ts ts) s)"
| "call_move ops (AddGone name) t s =
     (if readers s \<noteq> {} then None
      else Some (goto t (Replied (textResult True (ExitedImmediately name)))
        (s\<lparr>table := map_delete (table s) name\<rparr>)))"
| "call_move ops (AddReg name ts all) t s =
     (case ts of
        [] \<Rightarrow> Some (goto t (Replied (textResult False (Added name (tool_names name all)))) s)
      | x # xs \<Rightarrow> Some (goto t (AddReg name xs all)
          (s\<lparr>registry := addTool ops (export_tool name x) (ProxyTool name (tool_Name x)) (registry s)\<rparr>)))"
| "call_move ops (RelEnter name) t s =
     (case table s name of
        None \<Rightarrow> Some (goto t (Replied (textResult True (NotFound name))) s)
      | Some i \<Rightarrow> Some (goto t (RemEnter name (Some (input_of (Config (child (kids s i)))))) s))"
| "call_move ops (RemEnter name k) t s =
     (if readers s \<noteq> {} then None else case table s name of
        None \<Rightarrow> Some (goto t (Replied (textResult True (NotFound name))) s)
      | Some i \<Rightarrow> Some (goto t (RemRead name i k) (s\<lparr>table := map_delete (table s) name\<rparr>)))"
| "call_move ops (RemRead name i k) t s =
     (let names = tool_names name (Tools (child (kids s i)))
      in Some (goto t (if length names > 0 then RemDrop names name i k else RemStop name i k) s))"
| "call_move ops (RemDrop names name i k) t s =
     Some (goto t (RemStop name i k) (s\<lparr>registry := removeTools ops names (registry s)\<rparr>))"
| "call_move ops (RemStop name i k) t s =
     (if stoppers (kids s i) t = PDone then Some (goto t (after_remove name k) s) else None)"
| "call_move ops ListEnter t s = None"
| "call_move ops (Listing lp) t s = None"
| "call_move ops (Tooling tp) t s = None"
| "call_move ops (Forwarded r) t s = None"
| "call_move ops ShutEnter t s = None"
| "call_move ops (ShutStop is) t s =
     (case is of
        [] \<Rightarrow> Some (goto t ShutDone s)
      | i # js \<Rightarrow> if stoppers (kids s i) t = PDone then Some (goto t (ShutStop js) s) else None)"
| "call_move ops (Replied r) t s = None"
| "call_move ops ShutDone t s = None"

text \<open>The section of \<open>Shutdown\<close> under the lock; \<open>order\<close> is the order in which the range
  loop that follows visits the copy of the table.\<close>

definition shut_move :: "gostring list \<Rightarrow> nat \<Rightarrow> 'r psys \<Rightarrow> 'r psys option" where
  "shut_move order t s =
     (if calls s t = ShutEnter \<and> readers s = {} \<and> distinct order \<and> set order = dom (table s)
      then Some (goto t (ShutStop (map (\<lambda>n. the (table s n)) order)) (s\<lparr>table := Map.empty\<rparr>))
      else None)"

section \<open>list_servers\<close>

text \<open>The start of the range loop, and its reads; the last one before the unlock makes the
  reply.\<close>

definition range_move :: "gostring list \<Rightarrow> nat \<Rightarrow> 'r psys \<Rightarrow> 'r psys option" where
  "range_move order t s =
     (if calls s t = ListEnter \<and> distinct order \<and> set order = dom (table s)
      then Some (goto t (Listing (LNext (map (\<lambda>n. (n, the (table s n))) order) []))
        (s\<lparr>readers := insert t (readers s)\<rparr>))
      else None)"

definition entry_of :: "gostring \<Rightarrow> Child \<Rightarrow> gostring list \<Rightarrow> nat \<Rightarrow> gostring \<Rightarrow> int \<Rightarrow> serverInfo" where
  "entry_of name c names uptime st n =
     \<lparr>si_Name = name, si_Command = cfg_Command (Config c), si_Args = cfg_Args (Config c),
      si_Status = st, si_Tools = names, si_PID = n, si_Uptime = uptime\<rparr>"

fun list_move :: "nat \<Rightarrow> list_pc \<Rightarrow> (nat \<Rightarrow> Child) \<Rightarrow> list_pc" where
  "list_move now (LNext [] acc) h = LNext [] acc"
| "list_move now (LNext ((n, i) # todo) acc) h =
     (if Status (h i) = StatusRunning then LTools n i todo acc else LTime n i [] todo acc)"
| "list_move now (LTools n i todo acc) h = LTime n i (tool_names n (Tools (h i))) todo acc"
| "list_move now (LTime n i names todo acc) h =
     LStat n i names (case StartTime (h i) of None \<Rightarrow> 0 | Some t \<Rightarrow> now - t) todo acc"
| "list_move now (LStat n i names u todo acc) h = LPid n i names u (status_String (Status (h i))) todo acc"
| "list_move now (LPid n i names u st todo acc) h =
     LNext todo (acc @ [entry_of n (h i) names u st (PID (h i))])"

definition read_move :: "nat \<Rightarrow> nat \<Rightarrow> 'r psys \<Rightarrow> 'r psys option" where
  "read_move now t s =
     (case calls s t of
        Listing (LNext [] acc) \<Rightarrow>
          Some (goto t (Replied (textResult False (Servers acc))) (s\<lparr>readers := readers s - {t}\<rparr>))
      | Listing lp \<Rightarrow> Some (goto t (Listing (list_move now lp (\<lambda>i. child (kids s i)))) s)
      | _ \<Rightarrow> None)"

section \<open>Tool calls\<close>

text \<open>
  A client calls a registered tool: the handler looks the server up, reads its session, and
  calls the tool there. The answer is the environment's, but a session that has been closed
  gives no result.
\<close>

definition arrive_move :: "'r tool_server \<Rightarrow> gostring \<Rightarrow> gostring \<Rightarrow> nat \<Rightarrow> 'r psys \<Rightarrow> 'r psys option" where
  "arrive_move ops n args t s =
     (if calls s t \<noteq> Idle then None
      else case lookupTool ops (registry s) n of
        Some (x, ProxyTool sv tool) \<Rightarrow> Some (goto t (Tooling (TLook sv tool args)) s)
      | _ \<Rightarrow> None)"

fun tool_move :: "gostring + gostring \<Rightarrow> tool_pc \<Rightarrow> 'r psys \<Rightarrow> call_pc option" where
  "tool_move a (TLook sv tool args) s =
     (case table s sv of
        None \<Rightarrow> Some (Replied (textResult True (NotFound sv)))
      | Some i \<Rightarrow> Some (Tooling (TSess sv tool args i)))"
| "tool_move a (TSess sv tool args i) s =
     (case Session (child (kids s i)) of
        None \<Rightarrow> Some (Replied (textResult True (NotRunning sv)))
      | Some k \<Rightarrow> Some (Tooling (TSend sv tool args i k)))"
| "tool_move a (TSend sv tool args i k) s =
     (case a of
        Inl err \<Rightarrow> Some (Replied (textResult True (CallFailed sv tool err)))
      | Inr result \<Rightarrow> if k \<in> open_sessions (kids s i) then Some (Forwarded result) else None)"

definition handler_move :: "gostring + gostring \<Rightarrow> nat \<Rightarrow> 'r psys \<Rightarrow> 'r psys option" where
  "handler_move a t s =
     (case calls s t of
        Tooling tp \<Rightarrow> map_option (\<lambda>pc. goto t pc s) (tool_move a tp s)
      | _ \<Rightarrow> None)"

section \<open>The moves of the children\<close>

definition put_kid :: "nat \<Rightarrow> child_sys \<Rightarrow> 'r psys \<Rightarrow> 'r psys" where
  [simp]: "put_kid i k s = s\<lparr>kids := (kids s)(i := k)\<rparr>"

text \<open>The child that a call is starting, and the one it is stopping.\<close>

fun starts :: "call_pc \<Rightarrow> nat option" where
  "starts (AddStart name i) = Some i"
| "starts _ = None"

fun stops :: "call_pc \<Rightarrow> nat option" where
  "stops (RemStop name i k) = Some i"
| "stops (ShutStop (i # is)) = Some i"
| "stops _ = None"

definition kid_step :: "nat \<Rightarrow> action \<Rightarrow> 'r psys \<Rightarrow> 'r psys option" where
  "kid_step i a s = map_option (\<lambda>k. put_kid i k s) (child_step a (kids s i))"

text \<open>The monitor of a child; its callback is what makes \<open>handleCrash\<close> run.\<close>

definition mon_step :: "nat \<Rightarrow> 'r psys \<Rightarrow> 'r psys option" where
  "mon_step i s =
     (case kid_step i (AMon i) s of
        None \<Rightarrow> None
      | Some s1 \<Rightarrow>
          Some (if monitors (kids s i) i = MNotify then s1\<lparr>crashers := (crashers s1)(i := KLook)\<rparr> else s1))"

fun crash_move :: "'r tool_server \<Rightarrow> crash_pc \<Rightarrow> nat \<Rightarrow> 'r psys \<Rightarrow> 'r psys option" where
  "crash_move ops KIdle i s = None"
| "crash_move ops KLook i s =
     Some (s\<lparr>crashers := (crashers s)(i := (if table s (kid_name s i) = Some i then KRead else KDone))\<rparr>)"
| "crash_move ops KRead i s =
     (let names = tool_names (kid_name s i) (Tools (child (kids s i)))
      in Some (s\<lparr>crashers := (crashers s)(i := (if length names > 0 then KDrop names else KDone))\<rparr>))"
| "crash_move ops (KDrop names) i s =
     Some (s\<lparr>registry := removeTools ops names (registry s), crashers := (crashers s)(i := KDone)\<rparr>)"
| "crash_move ops KDone i s = None"

section \<open>Schedules\<close>

text \<open>
  A new call arrives, or one of a registered tool; a call moves, the loop of \<open>list_servers\<close> starts
  in some order of the table and moves, a tool's handler moves with an answer, \<open>Shutdown\<close> in some order of the table; the \<open>Start\<close> or \<open>Stop\<close> a call is in moves; the
  client cancels an \<open>add_server\<close> call; the process of a child dies; its monitor or its crash
  callback moves.
\<close>

datatype paction =
    PCall nat request | PTool nat gostring gostring | PMove nat
  | PList nat "gostring list" | PRead nat nat | PHandle nat "gostring + gostring"
  | PShut nat "gostring list" | PStart nat answer | PStop nat bool | PCancel nat
  | PDie nat | PMon nat | PCrash nat

fun pstep :: "'r tool_server \<Rightarrow> paction \<Rightarrow> 'r psys \<Rightarrow> 'r psys option" where
  "pstep ops (PCall t req) s = (if calls s t = Idle then Some (goto t (enter req) s) else None)"
| "pstep ops (PTool t n args) s = arrive_move ops n args t s"
| "pstep ops (PList t order) s = range_move order t s"
| "pstep ops (PRead t now) s = read_move now t s"
| "pstep ops (PHandle t a) s = handler_move a t s"
| "pstep ops (PMove t) s = call_move ops (calls s t) t s"
| "pstep ops (PShut t order) s = shut_move order t s"
| "pstep ops (PStart t a) s =
     (case starts (calls s t) of None \<Rightarrow> None | Some i \<Rightarrow> kid_step i (AStart i a) s)"
| "pstep ops (PStop t timeout) s =
     (case stops (calls s t) of None \<Rightarrow> None | Some i \<Rightarrow> kid_step i (AStop t timeout) s)"
| "pstep ops (PCancel t) s =
     (case starts (calls s t) of None \<Rightarrow> None | Some i \<Rightarrow> kid_step i (ACancel i) s)"
| "pstep ops (PDie i) s = (if i < next_kid s then kid_step i (ADie i) s else None)"
| "pstep ops (PMon i) s = (if i < next_kid s then mon_step i s else None)"
| "pstep ops (PCrash i) s = crash_move ops (crashers s i) i s"

fun prun :: "'r tool_server \<Rightarrow> paction list \<Rightarrow> 'r psys \<Rightarrow> 'r psys option" where
  "prun ops [] s = Some s"
| "prun ops (a # as) s = (case pstep ops a s of None \<Rightarrow> None | Some s1 \<Rightarrow> prun ops as s1)"

inductive preach :: "'r tool_server \<Rightarrow> 'r psys \<Rightarrow> bool" for ops where
  init: "preach ops (init_psys ops)"
| step: "preach ops s \<Longrightarrow> pstep ops a s = Some s' \<Longrightarrow> preach ops s'"

lemma preach_run: "preach ops s \<Longrightarrow> prun ops as s = Some s' \<Longrightarrow> preach ops s'"
  by (induction as arbitrary: s) (auto split: option.splits intro: preach.step)

lemma prun_append:
  "prun ops (as @ bs) s = (case prun ops as s of None \<Rightarrow> None | Some s1 \<Rightarrow> prun ops bs s1)"
  by (induction as arbitrary: s) (auto split: option.splits)

end
