(* ===== verification/ProxySpec.thy ===== *)
theory ProxySpec
  imports ProxyModel
begin

text \<open>
  What the proxy promises, and that its handlers keep it. The abstract proxy is a table of
  servers, each with its configuration, whether it runs, and its tools; the tools a client
  sees are computed from that table by splitting the called name at the first separator.
  \<open>proxy_inv\<close> ties the concrete state to it, and every handler refines the abstract
  operation (\<open>proxy.go\<close>).
\<close>

section \<open>The abstract proxy\<close>

record aserver =
  a_config :: ChildConfig
  a_running :: bool
  a_tools :: "Tool list"

type_synonym aproxy = "gostring \<rightharpoonup> aserver"

definition abs_child :: "Child \<Rightarrow> aserver" where
  "abs_child c = \<lparr>a_config = Config c, a_running = (status c = StatusRunning), a_tools = tools c\<rparr>"

definition abs_proxy :: "'r proxy \<Rightarrow> aproxy" where
  "abs_proxy p name = map_option (\<lambda>i. abs_child (heap p i)) (children p name)"

text \<open>The tools a successful \<open>Start\<close> discovers in an environment.\<close>

definition start_result :: "start_env \<Rightarrow> Tool list option" where
  "start_result e =
     (case env_connect e of
        Inl err \<Rightarrow> None
      | Inr n \<Rightarrow> (case discoverTools (env_list e) of Some (Inr ts) \<Rightarrow> Some ts | _ \<Rightarrow> None))"

definition config_of :: "addServerInput \<Rightarrow> ChildConfig" where
  "config_of input =
     \<lparr>cfg_Name = in_Name input, cfg_Command = in_Command input, cfg_Args = in_Args input,
      cfg_Env = in_Env input, cfg_Cwd = in_Cwd input\<rparr>"

definition spec_add :: "add_env \<Rightarrow> addServerInput \<Rightarrow> aproxy \<Rightarrow> aproxy" where
  "spec_add e input a =
     (case start_result (ae_start e) of
        Some ts \<Rightarrow>
          if valid_name (in_Name input) \<and> a (in_Name input) = None \<and> \<not> ae_dies e
          then a(in_Name input \<mapsto> \<lparr>a_config = config_of input, a_running = True, a_tools = ts\<rparr>)
          else a
      | None \<Rightarrow> a)"

definition spec_remove :: "gostring \<Rightarrow> aproxy \<Rightarrow> aproxy" where
  "spec_remove name a = a(name := None)"

definition spec_reload :: "add_env \<Rightarrow> gostring \<Rightarrow> aproxy \<Rightarrow> aproxy" where
  "spec_reload e name a =
     (case a name of None \<Rightarrow> a
      | Some s \<Rightarrow> spec_add e (input_of (a_config s)) (spec_remove name a))"

definition spec_crash :: "gostring \<Rightarrow> aproxy \<Rightarrow> aproxy" where
  "spec_crash name a = a(name := map_option (\<lambda>s. s\<lparr>a_running := False\<rparr>) (a name))"

section \<open>The tools a client sees\<close>

definition mgmt_entries :: "gostring \<rightharpoonup> entry" where
  "mgmt_entries =
     [''add_server'' \<mapsto> (mgmt_tool ''add_server'' ''Add and start a child MCP server'', AddServer),
      ''remove_server'' \<mapsto> (mgmt_tool ''remove_server'' ''Stop and remove a child MCP server'', RemoveServer),
      ''reload_server'' \<mapsto> (mgmt_tool ''reload_server'' ''Restart a child MCP server with the same config'', ReloadServer),
      ''list_servers'' \<mapsto> (mgmt_tool ''list_servers'' ''List all registered child MCP servers'', ListServers)]"

text \<open>A tool by its name; of two with the same name the later one is registered.\<close>

definition find_tool :: "Tool list \<Rightarrow> gostring \<rightharpoonup> Tool" where
  "find_tool ts = map_of (rev (map (\<lambda>t. (tool_Name t, t)) ts))"

definition visible_of :: "gostring \<Rightarrow> aserver option \<Rightarrow> gostring \<Rightarrow> entry option" where
  "visible_of s srv t =
     (case srv of None \<Rightarrow> None
      | Some x \<Rightarrow>
          if a_running x
          then map_option (\<lambda>tl. (export_tool s tl, ProxyTool s t)) (find_tool (a_tools x) t)
          else None)"

definition visible :: "aproxy \<Rightarrow> gostring \<rightharpoonup> entry" where
  "visible a n =
     (case SplitTool n of
        (s, t, ok) \<Rightarrow> if ok then visible_of s (a s) t else mgmt_entries n)"

definition exported :: "gostring \<Rightarrow> Tool list \<Rightarrow> gostring \<rightharpoonup> entry" where
  "exported s ts =
     map_of (rev (map (\<lambda>t. (PrefixTool s (tool_Name t), export_tool s t, ProxyTool s (tool_Name t))) ts))"

lemma find_tool_None: "find_tool ts t = None \<longleftrightarrow> t \<notin> tool_Name ` set ts"
  by (simp add: find_tool_def map_of_eq_None_iff image_image)

lemma find_tool_Cons: "find_tool (x # xs) = (\<lambda>t. case find_tool xs t of Some y \<Rightarrow> Some y
     | None \<Rightarrow> if t = tool_Name x then Some x else None)"
  by (auto simp: find_tool_def fun_eq_iff map_add_def split: option.splits)

lemma exported_Cons: "exported s (x # xs) = (\<lambda>n. case exported s xs n of Some y \<Rightarrow> Some y
     | None \<Rightarrow> if n = PrefixTool s (tool_Name x) then Some (export_tool s x, ProxyTool s (tool_Name x)) else None)"
  by (auto simp: exported_def fun_eq_iff map_add_def split: option.splits)

lemma PrefixTool_inject2 [simp]: "PrefixTool s t = PrefixTool s t' \<longleftrightarrow> t = t'"
  by (simp add: PrefixTool_def)

lemma exported_PrefixTool:
  "exported s ts (PrefixTool s t) =
     map_option (\<lambda>tl. (export_tool s tl, ProxyTool s t)) (find_tool ts t)"
proof (induction ts)
  case Nil
  then show ?case by (simp add: exported_def find_tool_def)
next
  case (Cons x xs)
  then show ?case
    by (auto simp: exported_Cons find_tool_Cons split: option.splits)
qed

lemma exported_other: "\<forall>t. n \<noteq> PrefixTool s t \<Longrightarrow> exported s ts n = None"
  by (induction ts) (simp_all add: exported_def map_add_None)

lemma visible_PrefixTool:
  "valid_name s \<Longrightarrow> visible a (PrefixTool s t) = visible_of s (a s) t"
  by (simp add: visible_def ns.dec_enc)

text \<open>Changing the entry of one valid server changes the tools of that server only.\<close>

lemma visible_upd_other:
  assumes "valid_name s" and "\<forall>t. n \<noteq> PrefixTool s t"
  shows "visible (a(s := x)) n = visible a n"
proof -
  obtain s' t ok where n: "SplitTool n = (s', t, ok)" by (cases "SplitTool n") auto
  have "s' \<noteq> s" if ok
    using n that assms(2) SplitTool_True [of n s' t] by (auto simp: PrefixTool_def namespaceSep_def)
  with n show ?thesis by (auto simp: visible_def)
qed

lemma visible_add:
  assumes "valid_name s" and "a s = None"
  shows "visible (a(s \<mapsto> \<lparr>a_config = c, a_running = True, a_tools = ts\<rparr>)) = visible a ++ exported s ts"
    (is "?l = ?r")
proof
  fix n
  show "?l n = ?r n"
  proof (cases "\<exists>t. n = PrefixTool s t")
    case True
    then obtain t where n: "n = PrefixTool s t" ..
    show ?thesis
      by (simp add: n visible_PrefixTool assms visible_of_def exported_PrefixTool map_add_def
          split: option.splits)
  next
    case False
    then show ?thesis
      by (simp add: visible_upd_other [OF assms(1)] exported_other map_add_def)
  qed
qed

lemma visible_hide:
  assumes "valid_name s" and "a s = Some x" and "y = None \<or> (\<exists>z. y = Some z \<and> \<not> a_running z)"
  shows "visible (a(s := y)) = visible a |` (- PrefixTool s ` tool_Name ` set (a_tools x))"
    (is "?l = ?r")
proof
  fix n
  show "?l n = ?r n"
  proof (cases "\<exists>t. n = PrefixTool s t")
    case True
    then obtain t where n: "n = PrefixTool s t" ..
    have l: "?l n = None"
      using assms by (auto simp: n visible_PrefixTool visible_of_def)
    have "visible a n = None" if "t \<notin> tool_Name ` set (a_tools x)"
      using that assms(1,2) by (simp add: n visible_PrefixTool visible_of_def find_tool_None)
    then show ?thesis
      using l by (cases "t \<in> tool_Name ` set (a_tools x)") (auto simp: n restrict_map_def)
  next
    case False
    then show ?thesis
      by (auto simp: visible_upd_other [OF assms(1)] restrict_map_def)
  qed
qed

section \<open>The operations on the MCP server\<close>

context mcp_server
begin

lemma lookup_registerTools:
  "lookupTool ops (registerTools ops s ts r) = lookupTool ops r ++ exported s ts"
proof (induction ts arbitrary: r)
  case Nil
  then show ?case by (simp add: exported_def)
next
  case (Cons x xs)
  then show ?case
    by (auto simp: lookup_add exported_Cons map_add_def export_tool_def fun_eq_iff split: option.splits)
qed

lemma lookup_removeToolsForChild:
  "lookupTool ops (removeToolsForChild ops c s r) =
     lookupTool ops r |` (- PrefixTool s ` tool_Name ` set (tools c))"
  by (auto simp: removeToolsForChild_def lookup_remove image_image Let_def)

lemma lookup_mgmt: "lookupTool ops (registerManagementTools ops (newServer ops)) = mgmt_entries"
  by (simp add: registerManagementTools_def mgmt_entries_def Let_def lookup_add lookup_new mgmt_tool_def)

end

section \<open>A child that only its proxy uses\<close>

lemma child_Start_new:
  assumes "child_Start i e (NewChild cfg f) = Some (r, c, closed)"
  shows "Config c = cfg \<and>
     (case start_result e of
        Some ts \<Rightarrow> r = Inr ts \<and> \<not> isl (env_connect e) \<and> closed = [] \<and> status c = StatusRunning \<and>
                   tools c = ts \<and> session c = Some i \<and> onCrash c = f
      | None \<Rightarrow> isl r \<and> closed = (if isl (env_connect e) then [] else [i]) \<and> status c \<noteq> StatusRunning)"
proof (cases "env_connect e")
  case (Inl err)
  with assms show ?thesis
    by (auto simp: child_Start_def child_start_def section_defs NewChild_def start_result_def split: if_splits)
next
  case (Inr n)
  from assms Inr obtain d where "discoverTools (env_list e) = Some d"
    by (cases "discoverTools (env_list e)")
      (auto simp: child_Start_def child_start_def section_defs NewChild_def)
  with assms Inr show ?thesis
    by (cases d)
      (auto simp: child_Start_def child_start_def section_defs NewChild_def start_result_def split: if_splits)
qed

lemma child_Stop_running:
  "session c = Some k \<Longrightarrow> child_Stop c = (stop_enter c, Some k)"
  by (simp add: child_Stop_def section_defs)

section \<open>The invariant\<close>

definition child_ok :: "'r proxy \<Rightarrow> gostring \<Rightarrow> nat \<Rightarrow> bool" where
  "child_ok p name i \<longleftrightarrow>
     valid_name name \<and> i < next_child p \<and> i \<in> live p \<and>
     cfg_Name (Config (heap p i)) = name \<and> session (heap p i) = Some i \<and>
     onCrash (heap p i) \<and> status (heap p i) \<in> {StatusRunning, StatusCrashed}"

definition proxy_inv :: "'r tool_server \<Rightarrow> 'r proxy \<Rightarrow> bool" where
  "proxy_inv ops p \<longleftrightarrow>
     (\<forall>name i. children p name = Some i \<longrightarrow> child_ok p name i) \<and>
     (\<forall>i. status (heap p i) = StatusRunning \<longrightarrow> children p (cfg_Name (Config (heap p i))) = Some i) \<and>
     (\<forall>i \<in> live p. i < next_child p \<and>
        (children p (cfg_Name (Config (heap p i))) = Some i \<or> status (heap p i) = StatusCrashed)) \<and>
     lookupTool ops (server p) = visible (abs_proxy p)"

lemma abs_proxy_None: "abs_proxy p n = None \<longleftrightarrow> children p n = None"
  by (simp add: abs_proxy_def)

lemma abs_proxy_eqI:
  assumes "\<And>n. n \<noteq> s \<Longrightarrow> map_option (\<lambda>i. abs_child (heap p i)) (children p n) = a n"
    and "map_option (\<lambda>i. abs_child (heap p i)) (children p s) = x"
  shows "abs_proxy p = a(s := x)"
  using assms by (auto simp: abs_proxy_def fun_eq_iff)

end
