(* ===== verification/ProxySafety.thy ===== *)
theory ProxySafety
  imports ProxyThreads ProxySpec
begin

text \<open>
  What holds of the proxy under every schedule of \<open>ProxyThreads\<close>: each child behaves as
  \<open>ChildThreads\<close> says, names in the table and in the registry are well formed, and every
  child that has been allocated is being started by a call or its \<open>Start\<close> has returned.
\<close>

section \<open>Children\<close>

lemma start_move_Config: "start_move pc a i k = Some k' \<Longrightarrow> Config (child k') = Config (child k)"
  by (elim start_moveE) (auto simp: section_defs split: option.splits if_splits answer.splits)

lemma stop_move_Config: "stop_move pc a j k = Some k' \<Longrightarrow> Config (child k') = Config (child k)"
  by (elim stop_moveE) (auto simp: section_defs split: option.splits if_splits)

lemma mon_move_Config: "mon_move pc i k = Some k' \<Longrightarrow> Config (child k') = Config (child k)"
  by (elim mon_moveE) (auto simp: section_defs split: option.splits if_splits)

lemma child_step_Config: "child_step a k = Some k' \<Longrightarrow> Config (child k') = Config (child k)"
  by (elim child_step_cases) (auto dest: start_move_Config stop_move_Config mon_move_Config)

text \<open>A step of a child: what every proxy step that moves a child does.\<close>

definition moves_kid :: "action \<Rightarrow> nat \<Rightarrow> 'r psys \<Rightarrow> 'r psys \<Rightarrow> bool" where
  "moves_kid a i s s' \<longleftrightarrow>
     child_step a (kids s i) = Some (kids s' i) \<and> (\<forall>j b. a = AStart j b \<longrightarrow> j = i) \<and>
     (\<forall>j. j \<noteq> i \<longrightarrow> kids s' j = kids s j) \<and>
     registry s' = registry s \<and> table s' = table s \<and> readers s' = readers s \<and>
     next_kid s' = next_kid s \<and> calls s' = calls s \<and>
     (\<forall>j. crashers s' j = crashers s j \<or> crashers s' j = KLook)"

lemma moves_put_kid:
  "child_step a (kids s i) = Some k \<Longrightarrow> (\<And>j b. a = AStart j b \<Longrightarrow> j = i) \<Longrightarrow>
     moves_kid a i s (s\<lparr>kids := (kids s)(i := k)\<rparr>)"
  by (simp add: moves_kid_def)

text \<open>The calls that change nothing but themselves and the set of readers.\<close>

fun viewing :: "call_pc \<Rightarrow> bool" where
  "viewing Idle = True" | "viewing ListEnter = True" | "viewing (Listing lp) = True"
| "viewing (Tooling tp) = True" | "viewing (Replied r) = True" | "viewing (Forwarded r) = True"
| "viewing _ = False"

fun listing :: "call_pc \<Rightarrow> bool" where
  "listing (Listing lp) = True" | "listing _ = False"

text \<open>The readers but for the call itself are the same, and it holds the lock as its counter says.\<close>

definition same_readers :: "nat \<Rightarrow> bool \<Rightarrow> bool \<Rightarrow> nat set \<Rightarrow> nat set \<Rightarrow> bool" where
  "same_readers t old new R R' \<longleftrightarrow>
     R' - {t} = R - {t} \<and> ((t \<in> R \<longleftrightarrow> old) \<longrightarrow> (t \<in> R' \<longleftrightarrow> new))"

definition views :: "nat \<Rightarrow> 'r psys \<Rightarrow> 'r psys \<Rightarrow> bool" where
  "views t s s' \<longleftrightarrow>
     (\<exists>pc R. s' = s\<lparr>calls := (calls s)(t := pc), readers := R\<rparr> \<and> viewing (calls s t) \<and> viewing pc \<and>
        same_readers t (listing (calls s t)) (listing pc) (readers s) R)"

lemma views_goto:
  "viewing (calls s t) \<Longrightarrow> viewing pc \<Longrightarrow> listing (calls s t) = listing pc \<Longrightarrow> views t s (goto t pc s)"
  unfolding views_def by (intro exI [of _ pc] exI [of _ "readers s"]) (simp add: same_readers_def)

lemma views_arrive: "arrive_move ops n args t s = Some s' \<Longrightarrow> views t s s'"
  by (auto simp: arrive_move_def simp del: goto_def intro!: views_goto split: if_splits option.splits prod.splits handler.splits)

lemma views_range: "range_move order t s = Some s' \<Longrightarrow> views t s s'"
  unfolding views_def range_move_def
  by (intro exI [of _ "calls s' t"] exI [of _ "readers s'"]) (auto simp: same_readers_def split: if_splits)

lemma views_read: "read_move now t s = Some s' \<Longrightarrow> views t s s'"
  unfolding views_def read_move_def
  by (intro exI [of _ "calls s' t"] exI [of _ "readers s'"])
    (auto simp: same_readers_def split: call_pc.splits list_pc.splits list.splits)

lemma views_handle: "handler_move a t s = Some s' \<Longrightarrow> views t s s'"
proof (cases "calls s t")
  case (Tooling tp)
  moreover assume "handler_move a t s = Some s'"
  ultimately obtain pc where "tool_move a tp s = Some pc" "s' = goto t pc s" by (auto simp: handler_move_def)
  moreover from this(1) have "viewing pc \<and> \<not> listing pc" by (cases tp) (auto split: option.splits sum.splits if_splits)
  ultimately show ?thesis using Tooling by (auto simp del: goto_def intro!: views_goto)
qed (simp_all add: handler_move_def)

lemma pstep_cases:
  assumes "pstep ops a s = Some s'"
  obtains (call) t req where "calls s t = Idle" "s' = goto t (enter req) s"
  | (view) t where "views t s s'"
  | (move) t where "call_move ops (calls s t) t s = Some s'"
  | (shut) t order where "shut_move order t s = Some s'"
  | (kid) b i where "moves_kid b i s s'"
  | (crash) i where "crash_move ops (crashers s i) i s = Some s'"
proof (cases a)
  case (PCall t req)
  with assms show thesis by (intro call [of t req]) (simp_all split: if_splits)
next
  case (PTool t n args)
  with assms show thesis by (intro view [of t]) (simp add: views_arrive)
next
  case (PList t order)
  with assms show thesis by (intro view [of t]) (simp add: views_range)
next
  case (PRead t now)
  with assms show thesis by (intro view [of t]) (simp add: views_read)
next
  case (PHandle t a)
  with assms show thesis by (intro view [of t]) (simp add: views_handle)
next
  case (PMove t)
  with assms show thesis by (intro move [of t]) simp
next
  case (PShut t order)
  with assms show thesis by (intro shut [of order t]) simp
next
  case (PStart t b)
  with assms obtain i k where "child_step (AStart i b) (kids s i) = Some k" "s' = put_kid i k s"
    by (auto simp: kid_step_def split: option.splits)
  then show thesis using moves_put_kid [of "AStart i b" s i k] by (intro kid) auto
next
  case (PStop t b)
  with assms obtain i k where "child_step (AStop t b) (kids s i) = Some k" "s' = put_kid i k s"
    by (auto simp: kid_step_def split: option.splits)
  then show thesis using moves_put_kid [of "AStop t b" s i k] by (intro kid) auto
next
  case (PCancel t)
  with assms obtain i k where "child_step (ACancel i) (kids s i) = Some k" "s' = put_kid i k s"
    by (auto simp: kid_step_def split: option.splits)
  then show thesis using moves_put_kid [of "ACancel i" s i k] by (intro kid) auto
next
  case (PDie i)
  with assms obtain k where "child_step (ADie i) (kids s i) = Some k" "s' = put_kid i k s"
    by (auto simp: kid_step_def split: option.splits if_splits)
  then show thesis using moves_put_kid [of "ADie i" s i k] by (intro kid) auto
next
  case (PMon i)
  with assms obtain k where k: "child_step (AMon i) (kids s i) = Some k"
    "s' = (if monitors (kids s i) i = MNotify
           then (put_kid i k s)\<lparr>crashers := (crashers s)(i := KLook)\<rparr> else put_kid i k s)"
    by (auto simp: mon_step_def kid_step_def split: option.splits if_splits)
  then have "moves_kid (AMon i) i s s'" unfolding moves_kid_def by simp
  then show thesis by (rule kid)
next
  case (PCrash i)
  with assms show thesis by (intro crash [of i]) simp
qed

section \<open>The parts of the invariant\<close>

definition has_sep :: "gostring \<Rightarrow> bool" where
  "has_sep n \<longleftrightarrow> sublist ''__'' n"

fun pc_name :: "call_pc \<Rightarrow> gostring option" where
  "pc_name (AddStart n i) = Some n" | "pc_name (AddCheck n i ts) = Some n"
| "pc_name (AddReg n ts all) = Some n" | "pc_name _ = None"

fun pc_drop :: "call_pc \<Rightarrow> gostring list" where
  "pc_drop (RemDrop ns n i k) = ns" | "pc_drop _ = []"

fun crash_drop :: "crash_pc \<Rightarrow> gostring list" where
  "crash_drop (KDrop ns) = ns" | "crash_drop _ = []"

definition typed_entry :: "gostring \<Rightarrow> entry \<Rightarrow> bool" where
  "typed_entry n e \<longleftrightarrow>
     (\<exists>s tl. valid_name s \<and> n = PrefixTool s (tool_Name tl) \<and>
        e = (export_tool s tl, ProxyTool s (tool_Name tl)))"

definition registry_ok :: "(gostring \<rightharpoonup> entry) \<Rightarrow> bool" where
  "registry_ok m \<longleftrightarrow>
     (\<forall>n. \<not> has_sep n \<longrightarrow> m n = mgmt_entries n) \<and>
     (\<forall>n e. has_sep n \<longrightarrow> m n = Some e \<longrightarrow> typed_entry n e)"

definition pcs_ok :: "'r psys \<Rightarrow> bool" where
  "pcs_ok s \<longleftrightarrow>
     (\<forall>t n. pc_name (calls s t) = Some n \<longrightarrow> valid_name n) \<and>
     (\<forall>t. \<forall>x \<in> set (pc_drop (calls s t)). has_sep x) \<and>
     (\<forall>i. \<forall>x \<in> set (crash_drop (crashers s i)). has_sep x)"

definition table_ok :: "'r psys \<Rightarrow> bool" where
  "table_ok s \<longleftrightarrow> finite (dom (table s)) \<and>
     (\<forall>n i. table s n = Some i \<longrightarrow> valid_name n \<and> i < next_kid s \<and> kid_name s i = n)"

lemma tool_names_sep: "x \<in> set (tool_names n ts) \<Longrightarrow> has_sep x"
  by (auto simp: tool_names_def has_sep_def PrefixTool_has_sep)

text \<open>Of a child that has been allocated, the call that starts it is under way or over.\<close>

fun start_over :: "start_pc \<Rightarrow> bool" where
  "start_over (SDone r) = True" | "start_over (SRefused st) = True" | "start_over _ = False"

definition starts_ok :: "'r psys \<Rightarrow> bool" where
  "starts_ok s \<longleftrightarrow>
     (\<forall>i. (\<exists>f cfg. creach cfg f (kids s i)) \<and> (\<forall>j. j \<noteq> i \<longrightarrow> starters (kids s i) j = SIdle)) \<and>
     (\<forall>i < next_kid s. start_over (starters (kids s i) i) \<or> (\<exists>t. starts (calls s t) = Some i)) \<and>
     (\<forall>t i. starts (calls s t) = Some i \<longrightarrow> i < next_kid s)"

section \<open>They are kept\<close>

lemma kid_name_kid: "moves_kid b i s s' \<Longrightarrow> kid_name s' j = kid_name s j"
  by (cases "j = i") (auto simp: moves_kid_def kid_name_def dest: child_step_Config)

lemma pcs_call: "pcs_ok s \<Longrightarrow> pcs_ok (goto t (enter req) s)"
  by (cases req) (auto simp: pcs_ok_def enter_def)

lemma pcs_kid:
  assumes "moves_kid b i s s'" and "pcs_ok s"
  shows "pcs_ok s'"
proof -
  have "\<forall>x \<in> set (crash_drop (crashers s' j)). has_sep x" for j
  proof -
    have "crashers s' j = crashers s j \<or> crashers s' j = KLook"
      using assms(1) by (simp add: moves_kid_def)
    with assms(2) show ?thesis by (auto simp: pcs_ok_def)
  qed
  with assms show ?thesis by (simp add: pcs_ok_def moves_kid_def)
qed

lemma pcs_crash:
  "crash_move ops (crashers s i) i s = Some s' \<Longrightarrow> pcs_ok s \<Longrightarrow> pcs_ok s'"
  by (cases "crashers s i") (auto simp: pcs_ok_def Let_def dest: tool_names_sep split: if_splits)

lemma pcs_upd:
  assumes "pcs_ok s" and "crashers s' = crashers s" and "calls s' = (calls s)(t := pc)"
    and "\<And>n. pc_name pc = Some n \<Longrightarrow> valid_name n" and "\<And>x. x \<in> set (pc_drop pc) \<Longrightarrow> has_sep x"
  shows "pcs_ok s'"
  using assms by (auto simp: pcs_ok_def)

lemma pcs_move:
  assumes m: "call_move ops (calls s t) t s = Some s'" and n: "pcs_ok s"
  shows "pcs_ok s'"
proof -
  have old: "pc_name (calls s t) = Some n \<Longrightarrow> valid_name n" for n
    using n by (simp add: pcs_ok_def)
  have "calls s' = (calls s)(t := calls s' t) \<and> crashers s' = crashers s \<and>
      (\<forall>n. pc_name (calls s' t) = Some n \<longrightarrow> valid_name n) \<and> (\<forall>x. x \<in> set (pc_drop (calls s' t)) \<longrightarrow> has_sep x)"
    using m old
    by (cases "calls s t")
      (auto simp: after_remove_def Let_def dest: tool_names_sep
        split: option.splits if_splits start_pc.splits sum.splits list.splits)
  then show ?thesis by (intro pcs_upd [OF n]) blast+
qed

lemma table_frame:
  assumes "table_ok s" and "\<forall>n i. table s' n = Some i \<longrightarrow> table s n = Some i"
    and "\<forall>i. kid_name s' i = kid_name s i" and "next_kid s' = next_kid s"
  shows "table_ok s'"
  unfolding table_ok_def
proof (intro conjI allI impI)
  have "dom (table s') \<subseteq> dom (table s)" using assms(2) by (auto simp: dom_def)
  then show "finite (dom (table s'))" using assms(1) by (auto simp: table_ok_def intro: finite_subset)
next
  fix n i
  assume "table s' n = Some i"
  with assms(2) have "table s n = Some i" by blast
  with assms show "valid_name n" "i < next_kid s'" "kid_name s' i = n" by (simp_all add: table_ok_def)
qed

lemma table_kid: "moves_kid b i s s' \<Longrightarrow> table_ok s \<Longrightarrow> table_ok s'"
  by (rule table_frame [of s]) (simp_all add: kid_name_kid, simp_all add: moves_kid_def)

lemma table_crash:
  "crash_move ops (crashers s i) i s = Some s' \<Longrightarrow> table_ok s \<Longrightarrow> table_ok s'"
  by (cases "crashers s i") (auto simp: Let_def kid_name_def intro: table_frame [of s])

lemma table_move:
  assumes m: "call_move ops (calls s t) t s = Some s'" and n: "table_ok s"
  shows "table_ok s'"
proof (cases "(\<exists>input. calls s t = AddEnter input) \<and> next_kid s' \<noteq> next_kid s")
  case True
  then obtain input where input: "calls s t = AddEnter input" by blast
  with m True have v: "valid_name (in_Name input)"
    and s': "table s' = (table s)(in_Name input \<mapsto> next_kid s)"
      "kids s' = (kids s)(next_kid s := init_sys (NewChild (cfg_of input) True))" "next_kid s' = Suc (next_kid s)"
    by (auto split: option.splits if_splits)
  have "table s n \<noteq> Some (next_kid s)" for n using n by (auto simp: table_ok_def)
  with n v show ?thesis
    by (auto simp: table_ok_def kid_name_def s' less_Suc_eq init_sys_def NewChild_def cfg_of_def)
next
  case False
  have "(\<forall>n i. table s' n = Some i \<longrightarrow> table s n = Some i) \<and> kids s' = kids s \<and> next_kid s' = next_kid s"
    using m False by (cases "calls s t")
      (auto simp: Let_def split: option.splits if_splits start_pc.splits sum.splits list.splits)
  with n show ?thesis by (intro table_frame [OF n]) (simp_all add: kid_name_def)
qed

text \<open>A step of a child: its other \<open>Start\<close> calls stay idle, and a finished call stays finished.\<close>

lemma start_move_other: "start_move pc a i k = Some k' \<Longrightarrow> j \<noteq> i \<Longrightarrow> starters k' j = starters k j"
  by (elim start_moveE) (auto split: option.splits if_splits answer.splits)

lemma child_step_starters:
  assumes "child_step a k = Some k'" and "\<And>j b. a = AStart j b \<Longrightarrow> j = n"
  shows "(j \<noteq> n \<longrightarrow> starters k' j = starters k j) \<and>
    (start_over (starters k n) \<longrightarrow> starters k' n = starters k n)"
proof (cases a)
  case (AStart i b)
  with assms have "start_move (starters k n) b n k = Some k'" by auto
  then show ?thesis using start_move_other [of "starters k n" b n k k' j]
    by (cases "starters k n") simp_all
next
  case (AStop i b)
  with assms(1) have "stop_move (stoppers k i) b i k = Some k'" by simp
  then show ?thesis by (elim stop_moveE) (auto split: option.splits if_splits)
next
  case (AMon i)
  with assms(1) have "mon_move (monitors k i) i k = Some k'" by simp
  then show ?thesis by (elim mon_moveE) (auto simp: Let_def split: option.splits if_splits prod.splits)
qed (use assms(1) in \<open>auto split: if_splits\<close>)

lemma starts_kid:
  assumes "moves_kid b i s s'" and "starts_ok s"
  shows "starts_ok s'"
proof -
  have st: "child_step b (kids s i) = Some (kids s' i)" and other: "\<And>j. j \<noteq> i \<Longrightarrow> kids s' j = kids s j"
    and same: "next_kid s' = next_kid s" "calls s' = calls s" and b: "\<And>j c. b = AStart j c \<Longrightarrow> j = i"
    using assms(1) by (auto simp: moves_kid_def)
  note sp = child_step_starters [OF st b]
  have "(\<exists>f cfg. creach cfg f (kids s' j)) \<and> (\<forall>l. l \<noteq> j \<longrightarrow> starters (kids s' j) l = SIdle) \<and>
      (start_over (starters (kids s j) j) \<longrightarrow> start_over (starters (kids s' j) j))" for j
  proof (cases "j = i")
    case True
    have "\<exists>f cfg. creach cfg f (kids s i)" using assms(2) by (simp add: starts_ok_def)
    with st have "\<exists>f cfg. creach cfg f (kids s' i)" by (meson creach.step)
    with True sp assms(2) show ?thesis by (auto simp: starts_ok_def)
  next
    case False
    with other assms(2) show ?thesis by (simp add: starts_ok_def)
  qed
  with assms(2) same show ?thesis by (auto simp: starts_ok_def)
qed

lemma starts_frame:
  assumes "starts_ok s" and "kids s' = kids s" and "next_kid s' = next_kid s"
    and "\<And>t. starts (calls s' t) = starts (calls s t) \<or>
           starts (calls s' t) = None \<and> (\<forall>i. starts (calls s t) = Some i \<longrightarrow> start_over (starters (kids s i) i))"
  shows "starts_ok s'"
proof -
  have "start_over (starters (kids s i) i) \<or> (\<exists>t. starts (calls s' t) = Some i)" if "i < next_kid s" for i
    using assms(1,4) that unfolding starts_ok_def by metis
  moreover have "i < next_kid s" if "starts (calls s' t) = Some i" for t i
    using assms(1) assms(4) [of t] that by (auto simp: starts_ok_def)
  ultimately show ?thesis using assms(1-3) by (auto simp: starts_ok_def)
qed

lemma starts_move:
  assumes m: "call_move ops (calls s t) t s = Some s'" and n: "starts_ok s"
  shows "starts_ok s'"
proof (cases "(\<exists>input. calls s t = AddEnter input) \<and> next_kid s' \<noteq> next_kid s")
  case True
  then obtain input where input: "calls s t = AddEnter input" by blast
  with m True have s': "calls s' = (calls s)(t := AddStart (in_Name input) (next_kid s))"
      "kids s' = (kids s)(next_kid s := init_sys (NewChild (cfg_of input) True))" "next_kid s' = Suc (next_kid s)"
    by (auto split: option.splits if_splits)
  have new: "starters (init_sys (NewChild (cfg_of input) True)) j = SIdle" for j by (simp add: init_sys_def)
  have r: "(\<exists>f cfg. creach cfg f (kids s' i)) \<and> (\<forall>j. j \<noteq> i \<longrightarrow> starters (kids s' i) j = SIdle)" for i
  proof (cases "i = next_kid s")
    case True
    have "creach (cfg_of input) True (kids s' i)" using True by (simp add: s' creach.init)
    with True new show ?thesis by (auto simp: s')
  next
    case False
    with n show ?thesis by (simp add: s' starts_ok_def)
  qed
  have "start_over (starters (kids s' i) i) \<or> (\<exists>t. starts (calls s' t) = Some i)" if "i < next_kid s'" for i
  proof (cases "i = next_kid s")
    case True
    then show ?thesis by (auto simp: s' intro: exI [of _ t])
  next
    case False
    with that have "i < next_kid s" by (simp add: s')
    with n have "start_over (starters (kids s i) i) \<or> (\<exists>u. starts (calls s u) = Some i)"
      by (simp add: starts_ok_def)
    then show ?thesis
    proof
      assume "\<exists>u. starts (calls s u) = Some i"
      then obtain u where u: "starts (calls s u) = Some i" ..
      with input have "u \<noteq> t" by auto
      with u show ?thesis by (auto simp: s' intro: exI [of _ u])
    qed (use False in \<open>simp add: s'\<close>)
  qed
  moreover have "i < next_kid s'" if "starts (calls s' u) = Some i" for u i
    using n that by (auto simp: s' starts_ok_def less_Suc_eq split: if_splits)
  ultimately show ?thesis using r unfolding starts_ok_def by blast
next
  case False
  have "kids s' = kids s \<and> next_kid s' = next_kid s \<and> calls s' = (calls s)(t := calls s' t) \<and>
      (starts (calls s' t) = starts (calls s t) \<or>
       starts (calls s' t) = None \<and> (\<forall>i. starts (calls s t) = Some i \<longrightarrow> start_over (starters (kids s i) i)))"
    using m False by (cases "calls s t")
      (auto simp: Let_def after_remove_def split: option.splits if_splits start_pc.splits sum.splits list.splits)
  then show ?thesis by (intro starts_frame [OF n]) (metis fun_upd_apply)+
qed

lemma shut_move_fields:
  assumes "shut_move order t s = Some s'"
  shows "calls s t = ShutEnter" and "set order = dom (table s)"
    and "s' = s\<lparr>calls := (calls s)(t := ShutStop (map (\<lambda>n. the (table s n)) order)), table := Map.empty\<rparr>"
  using assms by (auto simp: shut_move_def split: if_splits)

lemma shut_rules:
  assumes "shut_move order t s = Some s'"
  shows "pcs_ok s \<Longrightarrow> pcs_ok s'" "table_ok s \<Longrightarrow> table_ok s'" "starts_ok s \<Longrightarrow> starts_ok s'"
proof -
  define js where "js = map (\<lambda>n. the (table s n)) order"
  note c = shut_move_fields(1) [OF assms] and s' = shut_move_fields(3) [OF assms, folded js_def]
  show "pcs_ok s'" if "pcs_ok s" using that by (rule pcs_upd [where t = t and pc = "ShutStop js"]) (simp_all add: s')
  show "table_ok s'" if "table_ok s" using that by (rule table_frame) (simp_all add: s' kid_name_def)
  show "starts_ok s'" if "starts_ok s" using that by (rule starts_frame) (simp_all add: s' c)
qed

lemma starts_call: "starts_ok s \<Longrightarrow> calls s t = Idle \<Longrightarrow> starts_ok (goto t (enter req) s)"
  by (rule starts_frame [of s]) (auto simp: enter_def split: request.splits)

lemma starts_crash:
  "crash_move ops (crashers s i) i s = Some s' \<Longrightarrow> starts_ok s \<Longrightarrow> starts_ok s'"
  by (cases "crashers s i") (auto simp: Let_def elim!: starts_frame)

lemma viewing_facts: "viewing pc \<Longrightarrow> starts pc = None \<and> pc_name pc = None \<and> pc_drop pc = []"
  by (cases pc) simp_all

lemma view_rules:
  assumes "views t s s'"
  shows "pcs_ok s \<Longrightarrow> pcs_ok s'" "table_ok s \<Longrightarrow> table_ok s'" "starts_ok s \<Longrightarrow> starts_ok s'"
proof -
  obtain pc R where v: "s' = s\<lparr>calls := (calls s)(t := pc), readers := R\<rparr>" "viewing (calls s t)" "viewing pc"
    using assms by (auto simp: views_def)
  note f = viewing_facts [OF v(2)] viewing_facts [OF v(3)]
  have c: "calls s' = (calls s)(t := pc)" "crashers s' = crashers s" "kids s' = kids s" "next_kid s' = next_kid s"
    by (simp_all add: v(1))
  show "pcs_ok s'" if "pcs_ok s" using f by (intro pcs_upd [OF that c(2,1)]) simp_all
  show "table_ok s'" if "table_ok s" using that by (rule table_frame) (simp_all add: v(1) kid_name_def)
  show "starts_ok s'" if "starts_ok s" using f by (intro starts_frame [OF that c(3,4)]) (simp add: c(1))
qed

section \<open>The registry\<close>

lemma export_typed: "valid_name s \<Longrightarrow> typed_entry (PrefixTool s (tool_Name x)) (export_tool s x, ProxyTool s (tool_Name x))"
  by (auto simp: typed_entry_def)

context mcp_server
begin

lemma registry_add:
  assumes "registry_ok (lookupTool ops r)" and "valid_name s"
  shows "registry_ok (lookupTool ops (addTool ops (export_tool s x) (ProxyTool s (tool_Name x)) r))"
proof -
  have sep: "has_sep (PrefixTool s (tool_Name x))" by (simp add: has_sep_def PrefixTool_has_sep)
  have nm: "tool_Name (export_tool s x) = PrefixTool s (tool_Name x)" by (simp add: export_tool_def)
  show ?thesis
    unfolding registry_ok_def lookup_add nm
    using assms sep export_typed [OF assms(2), of x] by (auto simp: registry_ok_def split: if_splits)
qed

lemma registry_remove:
  assumes "registry_ok (lookupTool ops r)" and "\<forall>x \<in> set ns. has_sep x"
  shows "registry_ok (lookupTool ops (removeTools ops ns r))"
  using assms by (auto simp: registry_ok_def lookup_remove restrict_map_def split: if_splits)

lemma registry_init: "registry_ok (lookupTool ops (registerManagementTools ops (newServer ops)))"
proof -
  have sep: "\<not> has_sep n" if "n \<in> dom mgmt_entries" for n
    using that by (auto simp: has_sep_def mgmt_entries_def sublist_code split: if_splits)
  then have "has_sep n \<Longrightarrow> mgmt_entries n = None" for n by (meson domIff)
  then show ?thesis by (simp add: registry_ok_def lookup_mgmt)
qed

end

definition threads_inv :: "'r tool_server \<Rightarrow> 'r psys \<Rightarrow> bool" where
  "threads_inv ops s \<longleftrightarrow> pcs_ok s \<and> table_ok s \<and> starts_ok s \<and> registry_ok (lookupTool ops (registry s))"

context mcp_server
begin

lemma registry_move:
  assumes "call_move ops (calls s t) t s = Some s'" and "pcs_ok s" and "registry_ok (lookupTool ops (registry s))"
  shows "registry_ok (lookupTool ops (registry s'))"
proof (cases "calls s t")
  case (AddReg name ts all)
  then have "valid_name name" using assms(2) unfolding pcs_ok_def by (metis pc_name.simps(3))
  with AddReg assms(1,3) registry_add show ?thesis by (auto split: list.splits)
next
  case (RemDrop ns name i k)
  then have "\<forall>x \<in> set ns. has_sep x" using assms(2) unfolding pcs_ok_def by (metis pc_drop.simps(1))
  with RemDrop assms(1,3) registry_remove show ?thesis by auto
qed (use assms(1,3) in \<open>auto simp: Let_def split: option.splits if_splits start_pc.splits sum.splits list.splits\<close>)

lemma registry_crash:
  assumes "crash_move ops (crashers s i) i s = Some s'" and "pcs_ok s" and "registry_ok (lookupTool ops (registry s))"
  shows "registry_ok (lookupTool ops (registry s'))"
proof (cases "crashers s i")
  case (KDrop ns)
  then have "\<forall>x \<in> set ns. has_sep x" using assms(2) unfolding pcs_ok_def by (metis crash_drop.simps(1))
  with KDrop assms(1,3) registry_remove show ?thesis by auto
qed (use assms(1,3) in \<open>auto simp: Let_def\<close>)

lemma threads_inv_step:
  assumes "pstep ops a s = Some s'" and "threads_inv ops s"
  shows "threads_inv ops s'"
  using assms(1)
proof (cases rule: pstep_cases)
  case (call t req)
  with assms(2) pcs_call [of s t req] starts_call [of s t req] show ?thesis
    by (simp add: threads_inv_def table_ok_def kid_name_def)
next
  case (view t)
  then have "registry s' = registry s" by (auto simp: views_def)
  with view_rules [OF view] assms(2) show ?thesis by (simp add: threads_inv_def)
next
  case (move t)
  with assms(2) show ?thesis
    using pcs_move table_move starts_move registry_move unfolding threads_inv_def by blast
next
  case (shut order t)
  then have "registry s' = registry s" by (auto simp: shut_move_def split: if_splits)
  with shut_rules [OF shut] assms(2) show ?thesis by (simp add: threads_inv_def)
next
  case (kid b i)
  then have "registry s' = registry s" by (simp add: moves_kid_def)
  with kid assms(2) show ?thesis
    using pcs_kid table_kid starts_kid unfolding threads_inv_def by metis
next
  case (crash i)
  with assms(2) show ?thesis
    using pcs_crash table_crash starts_crash registry_crash unfolding threads_inv_def by blast
qed

lemma threads_inv_reach: "preach ops s \<Longrightarrow> threads_inv ops s"
proof (induction rule: preach.induct)
  case init
  have "pcs_ok (init_psys ops)" "table_ok (init_psys ops)"
    by (simp_all add: init_psys_def pcs_ok_def table_ok_def)
  moreover have "starts_ok (init_psys ops)"
    using creach.init by (auto simp: init_psys_def starts_ok_def) (simp add: init_sys_def)
  ultimately show ?case by (simp add: threads_inv_def) (simp add: init_psys_def registry_init)
next
  case (step s a s')
  then show ?case using threads_inv_step by blast
qed

end

end
