(* ===== verification/ProxyReads.thy ===== *)
theory ProxyReads
  imports ProxySafety
begin

text \<open>
  The calls of the proxy that only read its table (\<open>proxy.go\<close>): \<open>list_servers\<close>, which
  holds the read lock over its loop, and the calls of the servers' tools. The invariants of
  their program counters, and that the readers can always be run to their end, so that a
  section that needs the write lock is never kept from it for ever.
\<close>

section \<open>The holders of the read lock\<close>

definition readers_ok :: "'r psys \<Rightarrow> bool" where
  "readers_ok s \<longleftrightarrow> finite (readers s) \<and> (\<forall>t. t \<in> readers s \<longleftrightarrow> listing (calls s t))"

lemma call_move_readers:
  "call_move ops (calls s t) t s = Some s' \<Longrightarrow>
     readers s' = readers s \<and> calls s' = (calls s)(t := calls s' t) \<and> \<not> listing (calls s t) \<and> \<not> listing (calls s' t)"
  by (cases "calls s t")
    (auto simp: Let_def after_remove_def split: option.splits if_splits start_pc.splits sum.splits list.splits)

lemma readers_upd:
  assumes "readers_ok s" and "readers s' = readers s" and "calls s' = (calls s)(t := pc)"
    and "listing pc = listing (calls s t)"
  shows "readers_ok s'"
  using assms by (auto simp: readers_ok_def)

lemma readers_step:
  assumes "pstep ops a s = Some s'" and r: "readers_ok s"
  shows "readers_ok s'"
  using assms(1)
proof (cases rule: pstep_cases)
  case (call t req)
  then show ?thesis
    by (intro readers_upd [OF r, of s' t "enter req"]) (auto simp: enter_def split: request.splits)
next
  case (view t)
  then obtain pc R where v: "s' = s\<lparr>calls := (calls s)(t := pc), readers := R\<rparr>"
    "same_readers t (listing (calls s t)) (listing pc) (readers s) R" by (auto simp: views_def)
  have "R - {t} = readers s - {t}" "t \<in> R \<longleftrightarrow> listing pc"
    using v(2) r by (simp_all add: same_readers_def readers_ok_def)
  moreover from this(1) have "finite R" using r by (metis finite_Diff_insert finite.emptyI finite_Diff2 readers_ok_def finite_insert)
  ultimately show ?thesis using r by (auto simp: readers_ok_def v(1))
next
  case (move t)
  with call_move_readers [OF move] show ?thesis by (intro readers_upd [OF r, of s' t "calls s' t"]) auto
next
  case (shut order t)
  then show ?thesis
    by (intro readers_upd [OF r, of s' order "ShutStop (map (\<lambda>n. the (table s n)) t)"])
      (auto simp: shut_move_def split: if_splits)
next
  case (kid b i)
  then show ?thesis using r by (simp add: readers_ok_def moves_kid_def)
next
  case (crash i)
  then show ?thesis using r by (cases "crashers s i") (auto simp: readers_ok_def Let_def)
qed

lemma readers_reach: "preach ops s \<Longrightarrow> readers_ok s"
proof (induction rule: preach.induct)
  case init
  show ?case by (simp add: readers_ok_def init_psys_def)
next
  case (step s a s')
  then show ?case using readers_step by blast
qed

section \<open>A reader can finish\<close>

fun list_rank :: "list_pc \<Rightarrow> nat" where
  "list_rank (LNext todo acc) = 5 * length todo + 1"
| "list_rank (LTools n i todo acc) = 5 * length todo + 5"
| "list_rank (LTime n i names todo acc) = 5 * length todo + 4"
| "list_rank (LStat n i names u todo acc) = 5 * length todo + 3"
| "list_rank (LPid n i names u st todo acc) = 5 * length todo + 2"

lemma list_move_rank: "(\<forall>acc. lp \<noteq> LNext [] acc) \<Longrightarrow> list_rank (list_move now lp h) < list_rank lp"
  by (cases "(now, lp, h)" rule: list_move.cases) auto

lemma read_move_next:
  "calls s t = Listing lp \<Longrightarrow> (\<forall>acc. lp \<noteq> LNext [] acc) \<Longrightarrow>
     pstep ops (PRead t now) s = Some (goto t (Listing (list_move now lp (\<lambda>i. child (kids s i)))) s)"
  by (cases lp) (auto simp: read_move_def split: list.splits)

lemma lister_finishes:
  assumes "calls s t = Listing lp"
  shows "\<exists>as r. length as \<le> list_rank lp \<and>
     prun ops as s = Some (goto t (Replied r) (s\<lparr>readers := readers s - {t}\<rparr>))"
  using assms
proof (induction "list_rank lp" arbitrary: s lp rule: less_induct)
  case less
  show ?case
  proof (cases "\<exists>acc. lp = LNext [] acc")
    case True
    then obtain acc where "lp = LNext [] acc" ..
    with less.prems show ?thesis
      by (intro exI [of _ "[PRead t 0]"] exI [of _ "textResult False (Servers acc)"]) (simp add: read_move_def)
  next
    case False
    let ?lp = "list_move 0 lp (\<lambda>i. child (kids s i))"
    let ?s1 = "goto t (Listing ?lp) s"
    have lt: "list_rank ?lp < list_rank lp" using False by (intro list_move_rank) blast
    have p: "pstep ops (PRead t 0) s = Some ?s1" using False by (intro read_move_next [OF less.prems]) blast
    obtain as r where "length as \<le> list_rank ?lp"
      "prun ops as ?s1 = Some (goto t (Replied r) (?s1\<lparr>readers := readers ?s1 - {t}\<rparr>))"
      using less.hyps [OF lt, of ?s1] by auto
    with lt p show ?thesis by (intro exI [of _ "PRead t 0 # as"] exI [of _ r]) simp
  qed
qed

text \<open>All readers out: only their calls have moved.\<close>

definition drained :: "'r psys \<Rightarrow> 'r psys \<Rightarrow> bool" where
  "drained s s' \<longleftrightarrow>
     (\<exists>c. s' = s\<lparr>calls := c, readers := {}\<rparr> \<and> (\<forall>t. t \<notin> readers s \<longrightarrow> c t = calls s t))"

lemma drain_finite:
  assumes "finite R" and "readers s = R" and "\<forall>t \<in> R. listing (calls s t)"
  shows "\<exists>as s'. prun ops as s = Some s' \<and> drained s s'"
  using assms
proof (induction R arbitrary: s rule: finite_induct)
  case empty
  then have "s\<lparr>calls := calls s, readers := {}\<rparr> = s" by simp
  then have "drained s s" unfolding drained_def by (intro exI [of _ "calls s"]) simp
  then show ?case by (intro exI [of _ "[]"] exI [of _ s]) simp
next
  case (insert t R)
  from insert.prems obtain lp where "calls s t = Listing lp" by (cases "calls s t") auto
  from lister_finishes [OF this, of ops] obtain as r where
    as: "prun ops as s = Some (goto t (Replied r) (s\<lparr>readers := readers s - {t}\<rparr>))" by blast
  let ?s1 = "goto t (Replied r) (s\<lparr>readers := readers s - {t}\<rparr>)"
  have "readers ?s1 = R" "\<forall>u \<in> R. listing (calls ?s1 u)" using insert by auto
  from insert.IH [OF this] obtain bs s' where bs: "prun ops bs ?s1 = Some s'" "drained ?s1 s'" by blast
  have "drained s s'" using bs(2) insert.prems(1) by (auto simp: drained_def)
  with as bs(1) show ?case by (intro exI [of _ "as @ bs"] exI [of _ s']) (simp add: prun_append)
qed

lemma drain:
  assumes "preach ops s"
  shows "\<exists>as s'. prun ops as s = Some s' \<and> drained s s'"
  using readers_reach [OF assms] by (intro drain_finite [of "readers s"]) (auto simp: readers_ok_def)

text \<open>A call that waits for the write lock gets it.\<close>

lemma writers_turn:
  assumes r: "preach ops s" and t: "\<not> listing (calls s t)"
  shows "\<exists>as s'. prun ops as s = Some s' \<and> preach ops s' \<and> readers s' = {} \<and> calls s' t = calls s t \<and>
     table s' = table s \<and> kids s' = kids s \<and> next_kid s' = next_kid s \<and> registry s' = registry s"
proof -
  obtain as s' where as: "prun ops as s = Some s'" "drained s s'" using drain [OF r] by blast
  have "t \<notin> readers s" using readers_reach [OF r] t by (simp add: readers_ok_def)
  with as preach_run [OF r as(1)] show ?thesis by (intro exI [of _ as] exI [of _ s']) (auto simp: drained_def)
qed

end
