(* ===== verification/ChildSafety.thy ===== *)
theory ChildSafety
  imports ChildThreads
begin

text \<open>
  The invariant of the interleaved child of \<open>ChildThreads\<close> and what follows from it:
  the status automaton, single use, no panic on the \<open>startDone\<close> channel, no session
  that nobody will close, at most one crash callback, no deadlock.
\<close>

section \<open>The status automaton\<close>

fun status_edge :: "ChildStatus \<Rightarrow> ChildStatus \<Rightarrow> bool" where
  "status_edge StatusNew t = (t \<in> {StatusStarting, StatusStopped})"
| "status_edge StatusStarting t = (t \<in> {StatusRunning, StatusStopped, StatusCrashed})"
| "status_edge StatusRunning t = (t \<in> {StatusStopped, StatusCrashed})"
| "status_edge StatusStopped t = False"
| "status_edge StatusCrashed t = False"

lemma status_step:
  "child_step a s = Some s' \<Longrightarrow>
     status (child s') = status (child s) \<or> status_edge (status (child s)) (status (child s'))"
  by (cases "status (child s)"; erule child_step_cases;
      (elim start_moveE stop_moveE mon_moveE)?;
      auto simp: section_defs split: option.splits if_splits answer.splits)

section \<open>The proof outline\<close>

text \<open>
  Before any call of \<open>Start\<close> has passed the check of the status, \<open>untouched\<close>
  holds. Afterwards exactly one call has passed it, the call \<open>w\<close>, and what is true
  depends on where \<open>w\<close> is: \<open>outline\<close> is an assertion for each of its control
  points, which \<open>w\<close> establishes and no other thread falsifies.
\<close>

fun entered :: "start_pc \<Rightarrow> bool" where
  "entered SIdle = False" | "entered SRefuse = False" | "entered (SRefused _) = False"
| "entered _ = True"

text \<open>The \<open>Stop\<close> call at \<open>pc\<close> has taken the session \<open>k\<close> and will close it.\<close>

fun stop_holds :: "stop_pc \<Rightarrow> nat \<Rightarrow> bool" where
  "stop_holds (PCancel f) k = (f_session f = Some k)"
| "stop_holds (PWait f) k = (f_session f = Some k)"
| "stop_holds (PClose l _) k = (l = k)"
| "stop_holds (PKilled l) k = (l = k)"
| "stop_holds _ k = False"

definition stop_held :: "child_sys \<Rightarrow> nat \<Rightarrow> bool" where
  "stop_held s k = (\<exists>j. stop_holds (stoppers s j) k)"

lemma stop_held_split:
  "stop_held s k \<longleftrightarrow> stop_holds (stoppers s j) k \<or> (\<exists>i. i \<noteq> j \<and> stop_holds (stoppers s i) k)"
  by (auto simp: stop_held_def)

text \<open>Once a \<open>Stop\<close> call has entered, the status is final and the session is gone.\<close>

definition final :: "ChildStatus \<Rightarrow> bool" where
  "final st = (st = StatusStopped \<or> st = StatusCrashed)"

definition stop_rule :: "child_sys \<Rightarrow> bool" where
  "stop_rule s \<longleftrightarrow>
     (status (child s) = StatusStopped \<longrightarrow> session (child s) = None) \<and>
     (final (status (child s)) \<and> session (child s) = None \<or> (\<forall>j. stoppers s j = PIdle))"

definition untouched :: "child_sys \<Rightarrow> bool" where
  "untouched s \<longleftrightarrow>
     (\<forall>i. \<not> entered (starters s i)) \<and> startDone (child s) = None \<and> session (child s) = None \<and>
     stopCancel (child s) = None \<and>
     open_sessions s = {} \<and> (\<forall>i. monitors s i = MIdle) \<and> crash_calls s = 0 \<and> \<not> panicked s \<and>
     status (child s) \<in> {StatusNew, StatusStopped} \<and> stop_rule s"

text \<open>The session of \<open>w\<close> is open only if somebody will close it.\<close>

definition owned :: "child_sys \<Rightarrow> nat \<Rightarrow> bool" where
  "owned s w \<longleftrightarrow>
     (session (child s) = None \<or> session (child s) = Some w) \<and>
     (w \<in> open_sessions s \<longrightarrow> session (child s) = Some w \<or> stop_held s w) \<and>
     (session (child s) = Some w \<longrightarrow> w \<in> open_sessions s)"

definition returned :: "child_sys \<Rightarrow> nat \<Rightarrow> child_error + Tool list \<Rightarrow> bool" where
  "returned s w r =
     (case r of
        Inl e \<Rightarrow> status (child s) \<in> {StatusStarting, StatusStopped, StatusCrashed} \<and>
                 session (child s) = None \<and> monitors s w = MIdle
      | Inr ts \<Rightarrow> status (child s) \<in> {StatusRunning, StatusStopped, StatusCrashed} \<and>
                 (status (child s) = StatusRunning \<longrightarrow> session (child s) = Some w) \<and>
                 tools (child s) = ts \<and> StartTime (child s) \<noteq> None \<and> monitors s w \<noteq> MIdle)"

abbreviation starting :: "child_sys \<Rightarrow> bool" where
  "starting s \<equiv> status (child s) \<in> {StatusStarting, StatusStopped}"

fun outline :: "start_pc \<Rightarrow> child_sys \<Rightarrow> nat \<Rightarrow> bool" where
  "outline SConnect s w =
     (starting s \<and> session (child s) = None \<and> w \<notin> open_sessions s \<and> \<not> stop_held s w \<and>
      monitors s w = MIdle)"
| "outline (SPublish n) s w =
     (starting s \<and> session (child s) = None \<and> w \<in> open_sessions s \<and> \<not> stop_held s w \<and>
      monitors s w = MIdle)"
| "outline SDiscover s w =
     (starting s \<and> owned s w \<and>
      (status (child s) = StatusStarting \<longrightarrow> session (child s) = Some w) \<and> monitors s w = MIdle)"
| "outline (SDisown e) s w = (starting s \<and> owned s w \<and> monitors s w = MIdle)"
| "outline (SClose e) s w = (starting s \<and> session (child s) = None \<and> monitors s w = MIdle)"
| "outline (SCommit ts) s w =
     (starting s \<and> owned s w \<and>
      (status (child s) = StatusStarting \<longrightarrow> session (child s) = Some w) \<and> monitors s w = MIdle)"
| "outline (SSpawn ts) s w =
     (status (child s) \<in> {StatusRunning, StatusStopped} \<and> owned s w \<and>
      (status (child s) = StatusRunning \<longrightarrow> session (child s) = Some w) \<and>
      tools (child s) = ts \<and> StartTime (child s) \<noteq> None \<and> monitors s w = MIdle)"
| "outline (SLeave r) s w =
     (startDone (child s) = Some False \<and> owned s w \<and> returned s w r \<and>
      (isl r \<longrightarrow> status (child s) \<noteq> StatusCrashed))"
| "outline (SCancel r) s w = (owned s w \<and> returned s w r)"
| "outline (SDone r) s w = (owned s w \<and> returned s w r)"
| "outline _ s w = False"

fun left :: "start_pc \<Rightarrow> bool" where
  "left (SCancel _) = True" | "left (SDone _) = True" | "left _ = False"

text \<open>The crash callback: at most one call, made by the monitor of \<open>w\<close>.\<close>

definition crash_rule :: "child_sys \<Rightarrow> nat \<Rightarrow> bool" where
  "crash_rule s w =
     (case monitors s w of
        MWait k \<Rightarrow> k = w \<and> crash_calls s = 0
      | MNotify \<Rightarrow> status (child s) = StatusCrashed \<and> crash_calls s = 0
      | MDone \<Rightarrow> crash_calls s = 0 \<or> status (child s) = StatusCrashed \<and> crash_calls s = 1
      | _ \<Rightarrow> crash_calls s = 0)"

definition active :: "child_sys \<Rightarrow> nat \<Rightarrow> bool" where
  "active s w \<longleftrightarrow>
     entered (starters s w) \<and> (\<forall>i. i \<noteq> w \<longrightarrow> \<not> entered (starters s i)) \<and>
     startDone (child s) = Some (left (starters s w)) \<and>
     (stopCancel (child s) = None \<or> stopCancel (child s) = Some w) \<and>
     status (child s) \<noteq> StatusNew \<and> open_sessions s \<subseteq> {w} \<and>
     (\<forall>i. i \<noteq> w \<longrightarrow> monitors s i = MIdle) \<and> \<not> panicked s \<and>
     stop_rule s \<and> crash_rule s w \<and> outline (starters s w) s w"

definition child_inv :: "child_sys \<Rightarrow> bool" where
  "child_inv s \<longleftrightarrow> untouched s \<or> (\<exists>w. active s w)"

section \<open>The outline is kept by every thread\<close>

lemma untouched_init: "untouched (init_sys (NewChild cfg f))"
  by (simp add: untouched_def init_sys_def NewChild_def stop_rule_def)

lemmas outline_defs =
  stop_rule_def owned_def returned_def crash_rule_def final_def

lemma untouched_stop:
  assumes "stop_move (stoppers s j) t j s = Some s'" and "untouched s"
  shows "untouched s'"
  using assms
  by (elim stop_moveE)
    (auto simp: untouched_def stop_rule_def final_def section_defs split: option.splits if_splits)

text \<open>The assertions do not read the program counters of \<open>Start\<close> calls.\<close>

lemma starters_frame [simp]:
  "stop_held (s\<lparr>starters := f\<rparr>) k = stop_held s k"
  "stop_rule (s\<lparr>starters := f\<rparr>) = stop_rule s"
  "owned (s\<lparr>starters := f\<rparr>) w = owned s w"
  "returned (s\<lparr>starters := f\<rparr>) w r = returned s w r"
  "crash_rule (s\<lparr>starters := f\<rparr>) w = crash_rule s w"
  by (cases r; cases "monitors s w"; simp add: outline_defs stop_held_def)+

lemma outline_starters [simp]: "outline pc (s\<lparr>starters := f\<rparr>) w = outline pc s w"
  by (cases pc) simp_all

lemma untouched_other: "\<not> entered pc \<Longrightarrow> untouched s \<Longrightarrow> untouched (sgoto i pc s)"
  by (auto simp: untouched_def split: if_splits)

lemma active_other: "\<not> entered pc \<Longrightarrow> i \<noteq> w \<Longrightarrow> active s w \<Longrightarrow> active (sgoto i pc s) w"
  by (auto simp: active_def split: if_splits)

lemma start_other_move:
  assumes "start_move (starters s i) a i s = Some s'"
    and "\<not> entered (starters s i)" and "status (child s) \<noteq> StatusNew \<or> starters s i \<noteq> SIdle"
  obtains pc where "\<not> entered pc" "s' = sgoto i pc s"
proof (cases "starters s i")
  case SIdle
  with assms show ?thesis by (intro that [of SRefuse]) (auto simp: start_enter_def)
next
  case SRefuse
  with assms show ?thesis by (intro that [of "SRefused (status (child s))"]) auto
qed (use assms in auto)

lemma untouched_start:
  assumes "start_move (starters s i) a i s = Some s'" and u: "untouched s"
  shows "untouched s' \<or> active s' i"
proof (cases "status (child s) = StatusNew \<and> starters s i = SIdle")
  case True
  with assms(1) have s': "s' = sgoto i SConnect (s\<lparr>child := (child s)\<lparr>status := StatusStarting,
      stopCancel := Some i, startDone := Some False\<rparr>\<rparr>)"
    by (simp add: start_enter_def)
  have "\<forall>j. stoppers s j = PIdle" using u True
    by (simp add: untouched_def stop_rule_def final_def)
  with u have "active s' i"
    by (simp add: s' untouched_def active_def outline_defs stop_held_def)
  then show ?thesis ..
next
  case False
  have "\<not> entered (starters s i)" using u by (simp add: untouched_def)
  with assms(1) False obtain pc where "\<not> entered pc" "s' = sgoto i pc s"
    by (elim start_other_move) auto
  with u show ?thesis using untouched_other by blast
qed

lemma active_start_other:
  assumes "start_move (starters s i) a i s = Some s'" and "active s w" and "i \<noteq> w"
  shows "active s' w"
proof -
  have "\<not> entered (starters s i)" "status (child s) \<noteq> StatusNew"
    using assms(2,3) by (auto simp: active_def)
  with assms(1) obtain pc where "\<not> entered pc" "s' = sgoto i pc s"
    by (elim start_other_move) auto
  with assms(2,3) show ?thesis using active_other by blast
qed

text \<open>The moves of \<open>w\<close> itself.\<close>

lemma crash_rule_idle: "monitors s w = MIdle \<Longrightarrow> crash_rule s w = (crash_calls s = 0)"
  by (simp add: crash_rule_def)

lemma stop_held_frame [simp]:
  "stop_held (s\<lparr>child := c\<rparr>) k = stop_held s k"
  "stop_held (s\<lparr>open_sessions := A\<rparr>) k = stop_held s k"
  "stop_held (s\<lparr>monitors := m\<rparr>) k = stop_held s k"
  "stop_held (s\<lparr>cancelled := A\<rparr>) k = stop_held s k"
  "stop_held (s\<lparr>dead := A\<rparr>) k = stop_held s k"
  "stop_held (s\<lparr>crash_calls := n\<rparr>) k = stop_held s k"
  by (simp_all add: stop_held_def)


lemma child_frame:
  assumes "status c = status (child s)" "session c = session (child s)" "tools c = tools (child s)"
    "StartTime c = StartTime (child s)"
  shows "stop_rule (s\<lparr>child := c\<rparr>) = stop_rule s" "owned (s\<lparr>child := c\<rparr>) w = owned s w"
    "returned (s\<lparr>child := c\<rparr>) w r = returned s w r" "crash_rule (s\<lparr>child := c\<rparr>) w = crash_rule s w"
  using assms by (cases r; cases "monitors s w"; simp add: outline_defs)+

lemma cancelled_frame [simp]:
  "stop_rule (s\<lparr>cancelled := A\<rparr>) = stop_rule s"
  "owned (s\<lparr>cancelled := A\<rparr>) w = owned s w"
  "returned (s\<lparr>cancelled := A\<rparr>) w r = returned s w r"
  "crash_rule (s\<lparr>cancelled := A\<rparr>) w = crash_rule s w"
  "outline pc (s\<lparr>cancelled := A\<rparr>) w = outline pc s w"
  by (cases r; cases "monitors s w"; simp add: outline_defs stop_held_def)+
    (cases pc; simp add: outline_defs stop_held_def split: sum.splits)

lemma dead_frame [simp]:
  "stop_rule (s\<lparr>dead := A\<rparr>) = stop_rule s"
  "owned (s\<lparr>dead := A\<rparr>) w = owned s w"
  "returned (s\<lparr>dead := A\<rparr>) w r = returned s w r"
  "crash_rule (s\<lparr>dead := A\<rparr>) w = crash_rule s w"
  "outline pc (s\<lparr>dead := A\<rparr>) w = outline pc s w"
  by (cases r; cases "monitors s w"; simp add: outline_defs stop_held_def)+
    (cases pc; simp add: outline_defs stop_held_def split: sum.splits)

lemma active_connect:
  assumes "start_move (starters s w) a w s = Some s'" and "active s w"
    and "starters s w = SConnect"
  shows "active s' w"
  using assms
  by (cases a) (clarsimp simp: active_def crash_rule_idle owned_def returned_def stop_rule_def; auto)+


lemma active_publish:
  assumes "start_move (starters s w) a w s = Some s'" and "active s w"
    and "starters s w = SPublish n"
  shows "active s' w"
  using assms
  by (clarsimp simp: active_def crash_rule_idle owned_def stop_rule_def start_publish_def final_def
      split: if_splits; auto)

lemma active_discover:
  assumes "start_move (starters s w) a w s = Some s'" and "active s w"
    and "starters s w = SDiscover"
  shows "active s' w"
  using assms
  by (cases a; clarsimp simp: active_def)

lemma active_disown:
  assumes "start_move (starters s w) a w s = Some s'" and "active s w"
    and "starters s w = SDisown n"
  shows "active s' w"
  using assms
  by (clarsimp simp: active_def crash_rule_idle owned_def stop_rule_def start_disown_def
      split: if_splits; auto)

lemma active_close:
  assumes "start_move (starters s w) a w s = Some s'" and "active s w"
    and "starters s w = SClose n"
  shows "active s' w"
  using assms
  by (clarsimp simp: active_def crash_rule_idle owned_def returned_def stop_rule_def
      split: if_splits; auto)

lemma active_commit:
  assumes "start_move (starters s w) a w s = Some s'" and "active s w"
    and "starters s w = SCommit n"
  shows "active s' w"
  using assms
  by (cases a; clarsimp simp: active_def crash_rule_idle owned_def returned_def stop_rule_def start_commit_def
      split: if_splits; auto)

lemma active_spawn:
  assumes "start_move (starters s w) a w s = Some s'" and "active s w"
    and "starters s w = SSpawn n"
  shows "active s' w"
  using assms
  by (clarsimp simp: active_def crash_rule_def owned_def returned_def stop_rule_def
      split: if_splits; auto)

lemma active_leave:
  assumes "start_move (starters s w) a w s = Some s'" and act: "active s w" and pc: "starters s w = SLeave r"
  shows "active s' w"
proof -
  have D: "startDone (child s) = Some False" using act pc by (simp add: active_def)
  define crash where "crash \<longleftrightarrow> isl r \<and> status (child s) = StatusStarting \<and> w \<notin> cancelled s"
  define c where "c = (child s)\<lparr>status := (if crash then StatusCrashed else status (child s)),
      stopCancel := None, startDone := Some True\<rparr>"
  have s': "s' = sgoto w (SCancel r) (s\<lparr>child := c\<rparr>)"
    using assms(1) pc D by (auto simp: start_leave_def c_def crash_def Let_def)
  show ?thesis
  proof (cases crash)
    case True
    then obtain e where "r = Inl e" "status (child s) = StatusStarting"
    by (auto simp: crash_def isl_def)
    then show ?thesis using act pc True
    by (clarsimp simp: s' active_def c_def owned_def returned_def crash_rule_def stop_rule_def final_def)
  next
    case False
    then show ?thesis using act pc
    by (clarsimp simp: s' active_def c_def child_frame)
  qed
qed

lemma active_cancel:
  assumes "start_move (starters s w) a w s = Some s'" and "active s w"
    and "starters s w = SCancel n"
  shows "active s' w"
  using assms by (clarsimp simp: active_def)

lemma active_start_self:
  assumes "start_move (starters s w) a w s = Some s'" and "active s w"
  shows "active s' w"
proof (cases "starters s w")
  case SConnect
  with assms show ?thesis by (rule active_connect)
next
  case (SPublish n)
  with assms show ?thesis by (rule active_publish)
next
  case SDiscover
  with assms show ?thesis by (rule active_discover)
next
  case (SDisown e)
  with assms show ?thesis by (rule active_disown)
next
  case (SClose e)
  with assms show ?thesis by (rule active_close)
next
  case (SCommit ts)
  with assms show ?thesis by (rule active_commit)
next
  case (SSpawn ts)
  with assms show ?thesis by (rule active_spawn)
next
  case (SLeave r)
  with assms show ?thesis by (rule active_leave)
next
  case (SCancel r)
  with assms show ?thesis by (rule active_cancel)
qed (use assms in \<open>simp_all add: active_def\<close>)

text \<open>The moves of a \<open>Stop\<close> call.\<close>

lemma stop_held_upd:
  "stop_held (s\<lparr>stoppers := f(j := pc)\<rparr>) k \<longleftrightarrow>
     stop_holds pc k \<or> (\<exists>i. i \<noteq> j \<and> stop_holds (f i) k)"
  by (auto simp: stop_held_def)

lemma stop_held_same:
  "\<forall>k. stop_holds pc k = stop_holds (stoppers s j) k \<Longrightarrow>
     stop_held (s\<lparr>stoppers := (stoppers s)(j := pc)\<rparr>) k = stop_held s k"
  by (simp add: stop_held_upd stop_held_split [of s k j])

text \<open>A move of an entered call that takes or gives up no session.\<close>

lemma stoppers_frame [simp]:
  "returned (s\<lparr>stoppers := f\<rparr>) w r = returned s w r"
  "crash_rule (s\<lparr>stoppers := f\<rparr>) w = crash_rule s w"
  by (simp_all add: returned_def crash_rule_def cong: sum.case_cong mon_pc.case_cong)

lemma stoppers_owned:
  assumes "stop_held (s\<lparr>stoppers := f\<rparr>) w = stop_held s w"
  shows "owned (s\<lparr>stoppers := f\<rparr>) w = owned s w"
  using assms by (simp add: owned_def)

lemma stoppers_outline:
  assumes "stop_held (s\<lparr>stoppers := f\<rparr>) w = stop_held s w"
  shows "outline pc (s\<lparr>stoppers := f\<rparr>) w = outline pc s w"
  using assms stoppers_owned [OF assms] by (cases pc) simp_all

lemma killed_frame [simp]:
  "stop_held (s\<lparr>killed := A\<rparr>) k = stop_held s k"
  "stop_rule (s\<lparr>killed := A\<rparr>) = stop_rule s"
  "owned (s\<lparr>killed := A\<rparr>) w = owned s w"
  "returned (s\<lparr>killed := A\<rparr>) w r = returned s w r"
  "crash_rule (s\<lparr>killed := A\<rparr>) w = crash_rule s w"
  by (cases r; cases "monitors s w"; simp add: outline_defs stop_held_def)+

lemma killed_outline [simp]: "outline pc (s\<lparr>killed := A\<rparr>) w = outline pc s w"
  by (cases pc) simp_all

lemma active_stop_skip:
  assumes "active s w" and "stoppers s j \<noteq> PIdle"
    and "\<forall>k. stop_holds pc k = stop_holds (stoppers s j) k"
  shows "active (s\<lparr>stoppers := (stoppers s)(j := pc)\<rparr>) w"
proof -
  have "stop_rule (s\<lparr>stoppers := (stoppers s)(j := pc)\<rparr>)"
    using assms(1,2) by (auto simp: active_def stop_rule_def)
  then show ?thesis
    using assms(1)
    by (simp add: active_def stoppers_outline [OF stop_held_same [OF assms(3)]])
qed

lemma active_cancelled: "active s w \<Longrightarrow> active (s\<lparr>cancelled := A\<rparr>) w"
  by (simp add: active_def)

lemma active_dead: "active s w \<Longrightarrow> active (s\<lparr>dead := A\<rparr>) w"
  by (simp add: active_def)

lemma active_killed: "active s w \<Longrightarrow> active (s\<lparr>killed := A\<rparr>) w"
  by (simp add: active_def)

lemma stop_entered_final:
  assumes "stop_rule s" and "stoppers s j \<noteq> PIdle"
  shows "session (child s) = None" and "final (status (child s))"
  using assms by (auto simp: stop_rule_def)

lemma active_stop_enter:
  assumes act: "active s w" and idle: "stoppers s j = PIdle"
  shows "active (s\<lparr>child := stop_enter (child s),
    stoppers := (stoppers s)(j := PCancel (stop_frame_of (child s)))\<rparr>) w"
    (is "active ?t w")
proof -
  have held: "stop_held ?t w \<longleftrightarrow> session (child s) = Some w \<or> stop_held s w"
    using idle by (simp add: stop_held_upd stop_held_split [of s w j] stop_frame_of_def)
  have ses: "session (child ?t) = None" and ts: "tools (child ?t) = tools (child s)"
    "StartTime (child ?t) = StartTime (child s)" "startDone (child ?t) = startDone (child s)"
    and st: "status (child ?t) =
      (if status (child s) = StatusCrashed then StatusCrashed else StatusStopped)"
    by (simp_all add: stop_enter_def)
  have "owned s w \<Longrightarrow> owned ?t w"
    using held ses by (auto simp: owned_def)
  moreover have "returned s w r \<Longrightarrow> returned ?t w r" for r
    using ses ts st by (cases r) (auto simp: returned_def)
  moreover have "outline (starters s w) s w" using act by (simp add: active_def)
  ultimately have "outline (starters s w) ?t w"
    using held ses ts st by (cases "starters s w") (simp_all, auto)
  moreover have "stop_rule ?t" using ses st by (simp add: stop_rule_def final_def)
  moreover have "crash_rule ?t w"
    using act by (auto simp: active_def crash_rule_def stop_enter_def split: mon_pc.splits)
  ultimately show ?thesis
    using act by (simp add: active_def stop_enter_def)
qed

lemma active_stop_close:
  assumes act: "active s w" and pc: "stop_holds (stoppers s j) = (\<lambda>l. k = l)"
  shows "active (s\<lparr>open_sessions := open_sessions s - {k}, stoppers := (stoppers s)(j := PDone)\<rparr>) w"
    (is "active ?t w")
proof -
  have j: "stoppers s j \<noteq> PIdle"
  proof
    assume "stoppers s j = PIdle"
    with pc have "\<not> k = k" by (metis stop_holds.simps(5))
    then show False by simp
  qed
  with act have none: "session (child s) = None" and fin: "final (status (child s))"
    using stop_entered_final [of s j] by (simp_all add: active_def)
  have held: "w \<noteq> k \<Longrightarrow> stop_held ?t w = stop_held s w"
    using pc by (simp add: stop_held_upd stop_held_split [of s w j])
  have gone: "\<not> stop_held s w \<Longrightarrow> \<not> stop_held ?t w" and k: "stop_held s k"
    using pc by (simp_all add: stop_held_upd stop_held_split [of s _ j])
  have "owned s w \<Longrightarrow> owned ?t w"
    using none held by (cases "w = k") (simp_all add: owned_def)
  moreover have "returned ?t w r = returned s w r" for r
    by (simp add: returned_def cong: sum.case_cong)
  moreover have "outline (starters s w) s w" using act by (simp add: active_def)
  ultimately have "outline (starters s w) ?t w"
    using none fin gone k
    by (cases "starters s w") (simp_all, auto)
  moreover have "stop_rule ?t" using none fin by (simp add: stop_rule_def)
  moreover have "crash_rule ?t w"
    using act by (simp add: active_def crash_rule_def cong: mon_pc.case_cong)
  ultimately show ?thesis
    using act by (simp add: active_def) blast
qed

lemma outline_child:
  assumes "status c = status (child s)" "session c = session (child s)" "tools c = tools (child s)"
    "StartTime c = StartTime (child s)" "startDone c = startDone (child s)"
  shows "outline pc (s\<lparr>child := c\<rparr>) w = outline pc s w"
  using assms by (cases pc) (simp_all add: child_frame)

lemma active_child:
  assumes "active s w" "status c = status (child s)" "session c = session (child s)"
    "tools c = tools (child s)" "StartTime c = StartTime (child s)"
    "startDone c = startDone (child s)" "stopCancel c = stopCancel (child s)"
  shows "active (s\<lparr>child := c\<rparr>) w"
  using assms by (simp add: active_def child_frame outline_child)

lemma active_stop:
  assumes mv: "stop_move (stoppers s j) t j s = Some s'" and act: "active s w"
  shows "active s' w"
proof (cases "stoppers s j")
  case PIdle
  with active_stop_enter [OF act] mv show ?thesis by auto
next
  case (PCancel f)
  have "active (s\<lparr>cancelled := A, stoppers := (stoppers s)(j := PWait f)\<rparr>) w" for A
    using active_stop_skip [OF active_cancelled [OF act, of A], of j "PWait f"] PCancel by simp
  then show ?thesis using mv PCancel by auto
next
  case (PWait f)
  with mv active_stop_skip [OF act] show ?thesis
    by (auto split: if_splits option.splits)
next
  case PReread
  have none: "session (child s) = None"
    using act PReread stop_entered_final [of s j] by (simp add: active_def)
  have "active (s\<lparr>child := stop_reread (child s)\<rparr>) w"
    by (rule active_child) (use act none in \<open>simp_all add: stop_reread_def\<close>)
  from active_stop_skip [OF this, of j PDone] show ?thesis
    using mv PReread none by auto
next
  case (PClose k p)
  show ?thesis
  proof (cases t)
    case True
    have "active (s\<lparr>killed := A, stoppers := (stoppers s)(j := PKilled k)\<rparr>) w" for A
      using active_stop_skip [OF active_killed [OF act, of A], of j "PKilled k"] PClose by simp
    then show ?thesis using mv PClose True by auto
  next
    case False
    with mv PClose active_stop_close [OF act, of j k] show ?thesis by (simp add: fun_eq_iff)
  qed
next
  case (PKilled k)
  with mv active_stop_close [OF act, of j k] show ?thesis by (simp add: fun_eq_iff)
next
  case PDone
  with mv show ?thesis by simp
qed

text \<open>The moves of the monitor of \<open>w\<close>, which exists only after \<open>w\<close> committed.\<close>

lemma spawned_outline:
  assumes "outline (starters s w) s w" and "monitors s w \<noteq> MIdle"
  obtains ts where "starters s w \<in> {SLeave (Inr ts), SCancel (Inr ts), SDone (Inr ts)}"
    "owned s w" "returned s w (Inr ts)"
  using assms by (cases "starters s w") (auto simp: returned_def split: sum.splits)

lemma active_monitors:
  assumes "active s w" and "monitors s w \<noteq> MIdle" and "m \<noteq> MIdle"
    and "crash_rule (s\<lparr>monitors := (monitors s)(w := m)\<rparr>) w"
  shows "active (s\<lparr>monitors := (monitors s)(w := m)\<rparr>) w"
proof -
  have "outline (starters s w) s w" using assms(1) by (simp add: active_def)
  then obtain ts where pc: "starters s w \<in> {SLeave (Inr ts), SCancel (Inr ts), SDone (Inr ts)}"
    and "owned s w" "returned s w (Inr ts)"
    using assms(2) by (rule spawned_outline)
  then have "outline (starters s w) (s\<lparr>monitors := (monitors s)(w := m)\<rparr>) w"
    using assms(1,3) by (auto simp: active_def owned_def returned_def)
  with assms(1,4) show ?thesis
    by (simp add: active_def stop_rule_def)
qed

lemma monitor_exit_fields:
  "session (snd (monitor_exit c)) = session c" "tools (snd (monitor_exit c)) = tools c"
  "StartTime (snd (monitor_exit c)) = StartTime c" "startDone (snd (monitor_exit c)) = startDone c"
  "stopCancel (snd (monitor_exit c)) = stopCancel c"
  "status (snd (monitor_exit c)) = (if status c = StatusRunning then StatusCrashed else status c)"
  "fst (monitor_exit c) = (status c = StatusRunning)"
  by (simp_all add: monitor_exit_def Let_def)

lemma active_crash:
  assumes "active s w" and "monitors s w = MExit"
  shows "active (s\<lparr>child := snd (monitor_exit (child s)),
    monitors := (monitors s)(w := if fst (monitor_exit (child s)) \<and> f then MNotify else MDone)\<rparr>) w"
    (is "active ?t w")
proof -
  define c m where "c = snd (monitor_exit (child s))"
    and "m = (if fst (monitor_exit (child s)) \<and> f then MNotify else MDone)"
  note f = monitor_exit_fields [of "child s", folded c_def]
  let ?u = "s\<lparr>child := c, monitors := (monitors s)(w := m)\<rparr>"
  have a: "stop_rule s" "crash_calls s = 0" using assms by (simp_all add: active_def crash_rule_def)
  have "outline (starters s w) s w" "monitors s w \<noteq> MIdle"
    using assms by (simp_all add: active_def)
  then obtain ts where pc: "starters s w \<in> {SLeave (Inr ts), SCancel (Inr ts), SDone (Inr ts)}"
    and o: "owned s w" "returned s w (Inr ts)"
    by (rule spawned_outline)
  have "stop_held ?u = stop_held s" by (simp add: stop_held_def fun_eq_iff)
  then have o': "owned ?u w" "returned ?u w (Inr ts)"
    using o by (simp_all add: owned_def returned_def f m_def split: if_splits) auto
  have "startDone c = startDone (child s)" by (rule f)
  then have "outline (starters s w) ?u w"
    using pc o' assms(1) by (elim insertE) (simp_all add: active_def)
  moreover have "stop_rule ?u" using a(1) by (auto simp: stop_rule_def final_def f)
  moreover have "crash_rule ?u w" using a(2) by (simp add: crash_rule_def m_def f)
  ultimately have "active ?u w"
    using assms(1) by (simp add: active_def f split: if_splits)
  then show ?thesis by (simp only: c_def m_def)
qed

lemma active_notify:
  assumes "active s w" and "monitors s w = MNotify"
  shows "active (s\<lparr>crash_calls := Suc (crash_calls s), monitors := (monitors s)(w := MDone)\<rparr>) w"
    (is "active ?t w")
proof -
  have "outline (starters s w) s w" "monitors s w \<noteq> MIdle"
    using assms by (simp_all add: active_def)
  then obtain ts where pc: "starters s w \<in> {SLeave (Inr ts), SCancel (Inr ts), SDone (Inr ts)}"
    and "owned s w" "returned s w (Inr ts)"
    by (rule spawned_outline)
  then have "outline (starters s w) ?t w"
    using assms by (auto simp: active_def owned_def returned_def)
  moreover have "crash_rule ?t w"
    using assms by (auto simp: active_def crash_rule_def)
  ultimately show ?thesis
    using assms(1) by (simp add: active_def stop_rule_def)
qed

lemma active_mon:
  assumes mv: "mon_move (monitors s i) i s = Some s'" and act: "active s w"
  shows "active s' w"
proof -
  have "i = w" using mv act by (cases "i = w") (auto simp: active_def)
  have out: "outline (starters s w) s w" using act by (simp add: active_def)
  show ?thesis
  proof (cases "monitors s w")
    case MRead
    with out obtain ts where "owned s w" by (auto elim: spawned_outline)
    then show ?thesis
      using mv MRead act \<open>i = w\<close>
      by (auto simp: owned_def active_def [of s] crash_rule_def
          intro!: active_monitors [OF act] split: option.splits)
  next
    case (MWait k)
    with mv act \<open>i = w\<close> show ?thesis
      by (auto simp: active_def [of s] crash_rule_def intro!: active_monitors [OF act] split: if_splits)
  next
    case MExit
    with mv \<open>i = w\<close> active_crash [OF act MExit, of "onCrash (snd (monitor_exit (child s)))"]
    show ?thesis by (auto simp: case_prod_beta Let_def)
  next
    case MNotify
    with mv \<open>i = w\<close> active_notify [OF act MNotify] show ?thesis by auto
  qed (use mv \<open>i = w\<close> in auto)
qed

section \<open>Every reachable state\<close>

lemma child_inv_step:
  assumes "child_step a s = Some s'" and "child_inv s"
  shows "child_inv s'"
  using assms(2) unfolding child_inv_def
proof
  assume u: "untouched s"
  from assms(1) show "untouched s' \<or> (\<exists>w. active s' w)"
  proof (cases rule: child_step_cases)
    case (start i b)
    with u untouched_start show ?thesis by blast
  next
    case (stop j t)
    with u untouched_stop show ?thesis by blast
  next
    case (mon i)
    with u show ?thesis by (simp add: untouched_def)
  next
    case (cancel i)
    with u show ?thesis by (simp add: untouched_def)
  next
    case (die k)
    with u show ?thesis by (simp add: untouched_def)
  qed
next
  assume "\<exists>w. active s w"
  then obtain w where w: "active s w" ..
  from assms(1) have "active s' w"
  proof (cases rule: child_step_cases)
    case (start i b)
    with w show ?thesis
      by (cases "i = w") (auto intro: active_start_self active_start_other)
  next
    case (stop j t)
    with w show ?thesis by (blast intro: active_stop)
  next
    case (mon i)
    with w show ?thesis by (blast intro: active_mon)
  next
    case (cancel i)
    with w show ?thesis by (simp add: active_cancelled)
  next
    case (die k)
    with w show ?thesis by (simp add: active_dead)
  qed
  then show "untouched s' \<or> (\<exists>w. active s' w)" by blast
qed

lemma creach_inv: "creach cfg f s \<Longrightarrow> child_inv s"
  by (induction rule: creach.induct)
    (simp add: child_inv_def untouched_init, rule child_inv_step)

lemma active_unique: "active s w \<Longrightarrow> entered (starters s i) \<Longrightarrow> i = w"
  unfolding active_def by blast

lemma creach_active: "creach cfg f s \<Longrightarrow> entered (starters s i) \<Longrightarrow> active s i"
  using creach_inv active_unique unfolding child_inv_def untouched_def by metis

lemma creach_stop_rule: "creach cfg f s \<Longrightarrow> stop_rule s"
  by (drule creach_inv) (auto simp: child_inv_def untouched_def active_def)

lemma creach_untouched:
  "creach cfg f s \<Longrightarrow> \<forall>i. \<not> entered (starters s i) \<Longrightarrow> untouched s"
  by (drule creach_inv) (auto simp: child_inv_def active_def)

text \<open>
  A \<open>Stop\<close> call that is past its wait has waited for the \<open>Start\<close> in progress, if
  there was one when it entered; if there was none, none can begin.
\<close>

fun waits_for :: "stop_pc \<Rightarrow> bool option \<Rightarrow> bool" where
  "waits_for PIdle d = True"
| "waits_for (PCancel f) d = (f_wait f = (d \<noteq> None))"
| "waits_for (PWait f) d = (f_wait f = (d \<noteq> None))"
| "waits_for _ d = (d \<noteq> Some False)"

definition wait_rule :: "child_sys \<Rightarrow> bool" where
  "wait_rule s \<longleftrightarrow> (\<forall>j. waits_for (stoppers s j) (startDone (child s)))"

lemma waits_for_done: "waits_for pc (Some False) \<Longrightarrow> waits_for pc (Some True)"
  by (cases pc) auto

lemma start_move_startDone:
  assumes "start_move pc a i s = Some s'"
  shows "stoppers s' = stoppers s" and
    "startDone (child s') = startDone (child s) \<or>
     status (child s) = StatusNew \<or>
     startDone (child s) = Some False \<and> startDone (child s') = Some True"
  using assms
  by (cases pc; auto simp: section_defs split: option.splits if_splits answer.splits)+

lemma wait_rule_start:
  assumes "start_move (starters s i) a i s = Some s'" and w: "wait_rule s" and "stop_rule s"
  shows "wait_rule s'"
proof (cases "status (child s) = StatusNew")
  case True
  with assms(3) have "\<forall>j. stoppers s j = PIdle" by (simp add: stop_rule_def final_def)
  then show ?thesis using start_move_startDone(1) [OF assms(1)] by (simp add: wait_rule_def)
next
  case False
  with start_move_startDone [OF assms(1)] w show ?thesis
    unfolding wait_rule_def by (metis waits_for_done)
qed

lemma wait_rule_stop:
  assumes "stop_move (stoppers s j) t j s = Some s'" and w: "wait_rule s"
  shows "wait_rule s'"
proof -
  have "waits_for (stoppers s j) (startDone (child s))" using w by (simp add: wait_rule_def)
  then have "startDone (child s') = startDone (child s) \<and> (\<exists>pc. stoppers s' = (stoppers s)(j := pc) \<and>
      waits_for pc (startDone (child s)))"
    using assms(1)
    by (cases "stoppers s j"; cases t)
      (auto simp: stop_frame_of_def stop_enter_def stop_reread_def split: if_splits option.splits)
  with w show ?thesis by (auto simp: wait_rule_def)
qed

lemma wait_rule_mon:
  assumes "mon_move pc i s = Some s'" and "wait_rule s"
  shows "wait_rule s'"
  using assms
  by (elim mon_moveE) (auto simp: wait_rule_def monitor_exit_def Let_def split: if_splits option.splits)

lemma creach_wait_rule: "creach cfg f s \<Longrightarrow> wait_rule s"
proof (induction rule: creach.induct)
  case init
  show ?case by (simp add: wait_rule_def init_sys_def)
next
  case (step s a s')
  from step.hyps(2) show ?case
  proof (cases rule: child_step_cases)
    case start
    then show ?thesis using step.IH creach_stop_rule [OF step.hyps(1)] by (rule wait_rule_start)
  next
    case stop
    then show ?thesis using step.IH by (rule wait_rule_stop)
  next
    case mon
    then show ?thesis using step.IH by (rule wait_rule_mon)
  qed (use step.IH in \<open>simp_all add: wait_rule_def\<close>)
qed

text \<open>After a \<open>Stop\<close> has returned, an open session is one that another \<open>Stop\<close> is closing.\<close>

lemma stopped_open:
  assumes r: "creach cfg f s" and j: "stoppers s j = PDone" and k: "k \<in> open_sessions s"
  shows "stop_held s k"
proof -
  have "startDone (child s) \<noteq> Some False"
    using creach_wait_rule [OF r] j by (metis wait_rule_def waits_for.simps(7))
  moreover have "session (child s) = None"
    using stop_entered_final [OF creach_stop_rule [OF r], of j] j by simp
  moreover have "\<not> untouched s" using k by (auto simp: untouched_def)
  then obtain w where w: "active s w" using creach_inv [OF r] by (auto simp: child_inv_def)
  moreover have "k = w" using w k by (auto simp: active_def)
  ultimately show ?thesis
    using k by (cases "starters s w") (auto simp: active_def owned_def)
qed

lemma creach_no_panic: "creach cfg f s \<Longrightarrow> \<not> panicked s"
  by (drule creach_inv) (auto simp: child_inv_def untouched_def active_def)

end
