(* ===== verification/ChildSamples.thy ===== *)
theory ChildSamples
  imports ChildModel
begin

text \<open>Concrete inputs that the witnesses of several theories share: a configuration, a
  tool, and the environment of a \<open>Start\<close> that succeeds.\<close>

definition sample_cfg :: ChildConfig where
  "sample_cfg = \<lparr>cfg_Name = ''echo'', cfg_Command = ''echoserver'', cfg_Args = [],
     cfg_Env = [(''A'', ''1'')], cfg_Cwd = []\<rparr>"

definition sample_tool :: Tool where
  "sample_tool = \<lparr>tool_Name = ''echo'', tool_Description = [], tool_InputSchema = None\<rparr>"

definition sample_env :: start_env where
  "sample_env = \<lparr>env_connect = Inr 7, env_list = (\<lambda>n c. Inr ([sample_tool], [])), env_now = 5,
     env_ctx_err = False\<rparr>"

lemma sample_env_simps:
  "discoverTools (env_list sample_env) = Some (Inr [sample_tool])"
  "env_connect sample_env = Inr 7" "env_now sample_env = 5" "\<not> env_ctx_err sample_env"
  by (simp_all add: discoverTools_def discover_loop.simps sample_env_def)

end
