(* ===== verification/ChildProps.thy ===== *)
theory ChildProps
  imports ChildSafety ChildSamples
begin

text \<open>
  The properties of one child server: its status automaton and the safety and liveness of
  the interleaved \<open>Start\<close>, \<open>Stop\<close> and \<open>monitor\<close> (from the outline of
  \<open>ChildSafety\<close>), the tool discovery loop, the environment of the spawned process, and
  the agreement of the sequential \<open>child_Start\<close> with the threads.
\<close>

section \<open>Sample runs\<close>

definition fresh_sys :: child_sys where
  "fresh_sys = init_sys (NewChild sample_cfg True)"

lemma fresh_reach: "creach sample_cfg True fresh_sys"
  by (simp add: fresh_sys_def creach.init)

text \<open>A start that succeeds, and then a stop; a start that is stopped after it published.\<close>

definition start_acts :: "action list" where
  "start_acts = [AStart 0 Go, AStart 0 (Connected 7), AStart 0 Go, AStart 0 (Listed [sample_tool]),
     AStart 0 (Clock 5), AStart 0 Go, AStart 0 Go, AStart 0 Go]"

definition crash_acts :: "action list" where
  "crash_acts = start_acts @ [AMon 0, ADie 0, AMon 0, AMon 0, AMon 0]"

definition stop_acts :: "action list" where
  "stop_acts = start_acts @ [AStop 3 False, AStop 3 False, AStop 3 False, AStop 3 False]"

definition race_acts :: "action list" where
  "race_acts = [AStart 0 Go, AStart 0 (Connected 7), AStart 0 Go, AStop 3 False, AStop 3 False]"

definition after :: "action list \<Rightarrow> child_sys" where
  "after as = the (child_run as fresh_sys)"

lemmas run_simps =
  after_def fresh_sys_def init_sys_def NewChild_def section_defs start_acts_def crash_acts_def
  stop_acts_def race_acts_def

lemma after_reach:
  assumes "child_run as fresh_sys \<noteq> None"
  shows "creach sample_cfg True (after as)"
  using assms creach_run [OF fresh_reach, of as] by (auto simp: after_def)

lemma runs_exist:
  "child_run start_acts fresh_sys \<noteq> None" "child_run crash_acts fresh_sys \<noteq> None"
  "child_run stop_acts fresh_sys \<noteq> None" "child_run race_acts fresh_sys \<noteq> None"
  by (simp_all add: run_simps)

section \<open>The status automaton\<close>

lemma status_final_run:
  "child_run as s = Some s' \<Longrightarrow> final (status (child s)) \<Longrightarrow> status (child s') = status (child s)"
proof (induction as arbitrary: s)
  case Nil
  then show ?case by simp
next
  case (Cons a as)
  then obtain s1 where s1: "child_step a s = Some s1" "child_run as s1 = Some s'"
    by (auto split: option.splits)
  then have "status (child s1) = status (child s)"
    using status_step [OF s1(1)] Cons.prems(2) by (auto simp: final_def)
  with Cons.IH [OF s1(2)] Cons.prems(2) show ?case by simp
qed

text \<open>C33. Every step of every thread moves the status along an edge of the automaton
  New, Starting, Running, Stopped or Crashed (or leaves it), and a stopped or crashed child
  stays stopped or crashed in every continuation of the schedule.\<close>

theorem child_status_automaton:
  assumes "child_step a s = Some s1" and "child_run as s1 = Some s2"
  shows "(status (child s1) = status (child s) \<or>
          status_edge (status (child s)) (status (child s1))) \<and>
         (status (child s1) \<in> {StatusStopped, StatusCrashed} \<longrightarrow>
            status (child s2) = status (child s1))"
  using status_step [OF assms(1)] status_final_run [OF assms(2)] by (auto simp: final_def)

lemma child_status_automaton_witness:
  "\<exists>s1 s2. child_step (AStart 0 Go) fresh_sys = Some s1 \<and> status (child s1) = StatusStarting \<and>
     child_run (tl start_acts) s1 = Some s2 \<and> status (child s2) = StatusRunning \<and>
     (status (child s1) = status (child fresh_sys) \<or>
      status_edge (status (child fresh_sys)) (status (child s1)))"
proof -
  obtain s1 where s1: "child_step (AStart 0 Go) fresh_sys = Some s1"
    and st: "status (child s1) = StatusStarting"
    by (simp add: run_simps)
  obtain s2 where s2: "child_run (tl start_acts) s1 = Some s2"
    and st2: "status (child s2) = StatusRunning"
    using s1 by (auto simp: run_simps)
  from child_status_automaton [OF s1 s2] s1 st s2 st2 show ?thesis by blast
qed

section \<open>Single use\<close>

text \<open>A child is started at most once: of all calls of \<open>Start\<close>, at most one ever gets
  past the status check, whatever the schedule.\<close>

theorem child_single_use:
  assumes "creach cfg f s" and "entered (starters s i)" and "entered (starters s j)"
  shows "i = j"
  using active_unique [OF creach_active [OF assms(1,3)] assms(2)] .

lemma child_single_use_witness:
  "entered (starters (after start_acts) 0) \<and> \<not> entered (starters (after start_acts) 1)"
proof -
  have e: "entered (starters (after start_acts) 0)" by (simp add: run_simps)
  show ?thesis
    using child_single_use [OF after_reach [OF runs_exist(1)] e, of 1] e by auto
qed

section \<open>No panic, no leak\<close>

text \<open>\<open>close(c.startDone)\<close> never panics: the channel is made before and closed once.\<close>

theorem child_no_panic:
  assumes "creach cfg f s"
  shows "\<not> panicked s"
  using assms by (rule creach_no_panic)

lemma child_no_panic_witness: "\<not> panicked (after stop_acts)"
  by (rule child_no_panic [OF after_reach [OF runs_exist(3)]])

text \<open>C2. \<open>Stop\<close> leaks no session: once a call of \<open>Stop\<close> has returned, under any
  schedule, every session that is still open is about to be closed by another call of
  \<open>Stop\<close>; with no other call in progress no session is open.\<close>

theorem child_stop_no_leak:
  assumes "creach cfg f s" and "stoppers s j = PDone"
  shows "(\<forall>k \<in> open_sessions s. \<exists>i. stop_holds (stoppers s i) k) \<and>
         ((\<forall>i. stoppers s i \<in> {PIdle, PDone}) \<longrightarrow> open_sessions s = {})"
proof -
  have *: "\<exists>i. stop_holds (stoppers s i) k" if "k \<in> open_sessions s" for k
    using stopped_open [OF assms that] by (simp add: stop_held_def)
  moreover have "open_sessions s = {}" if "\<forall>i. stoppers s i \<in> {PIdle, PDone}"
  proof (rule ccontr)
    assume "open_sessions s \<noteq> {}"
    then obtain k i where "stop_holds (stoppers s i) k" using * by blast
    then show False using that [rule_format, of i] by auto
  qed
  ultimately show ?thesis by blast
qed

lemma child_stop_no_leak_witness:
  "stoppers (after stop_acts) 3 = PDone \<and> open_sessions (after stop_acts) = {}"
proof -
  have d: "stoppers (after stop_acts) 3 = PDone" and "\<forall>i. stoppers (after stop_acts) i \<in> {PIdle, PDone}"
    by (simp_all add: run_simps)
  then show ?thesis using child_stop_no_leak [OF after_reach [OF runs_exist(3)] d] by blast
qed

text \<open>C20. A failed \<open>Start\<close> leaks no session: when it has returned an error, the session
  it connected, if any, is closed or in the hands of a \<open>Stop\<close> call.\<close>

theorem child_start_error_no_leak:
  assumes "creach cfg f s" and "starters s i = SDone (Inl e)" and "i \<in> open_sessions s"
  shows "\<exists>j. stop_holds (stoppers s j) i"
proof -
  have "active s i" using creach_active [OF assms(1), of i] assms(2) by simp
  then show ?thesis using assms(2,3)
    by (auto simp: active_def owned_def returned_def stop_held_def)
qed

text \<open>The witness: a stop takes the published session; discovery succeeds; \<open>Start\<close>
  returns its error while \<open>Stop\<close> is still to close the session.\<close>

definition late_acts :: "action list" where
  "late_acts = race_acts @
     [AStart 0 (Listed []), AStart 0 (Clock 5), AStart 0 Go, AStart 0 Go]"

lemma late_run:
  "child_run late_acts fresh_sys \<noteq> None"
  "starters (after late_acts) 0 = SDone (Inl (StoppedDuringStartup ''echo''))"
  "0 \<in> open_sessions (after late_acts)"
  by (simp_all add: late_acts_def run_simps sample_cfg_def)

lemma child_start_error_no_leak_witness:
  "starters (after late_acts) 0 = SDone (Inl (StoppedDuringStartup ''echo'')) \<and>
   0 \<in> open_sessions (after late_acts) \<and> (\<exists>j. stop_holds (stoppers (after late_acts) j) 0)"
  using child_start_error_no_leak [OF after_reach [OF late_run(1)] late_run(2,3)] late_run by blast

text \<open>The re-read of the session in \<open>Stop\<close> never finds one: whenever a call gets
  there, the session field is nil, so that branch never closes anything.\<close>

theorem child_reread_nil:
  assumes "creach cfg f s" and "stoppers s j = PReread"
  shows "session (child s) = None"
  using stop_entered_final [OF creach_stop_rule [OF assms(1)], of j] assms(2) by simp

lemma child_reread_nil_witness:
  "stoppers (after (replicate 3 (AStop 2 False))) 2 = PReread \<and>
   session (child (after (replicate 3 (AStop 2 False)))) = None"
proof -
  have r: "child_run (replicate 3 (AStop 2 False)) fresh_sys \<noteq> None"
    and p: "stoppers (after (replicate 3 (AStop 2 False))) 2 = PReread"
    by (simp_all add: run_simps numeral_3_eq_3)
  show ?thesis using child_reread_nil [OF after_reach [OF r] p] p by blast
qed

section \<open>Running and crashing\<close>

text \<open>C5. A running child is fully set up and nobody is stopping it: its session is the one
  its \<open>Start\<close> connected, open, its tools are the ones that call returns, its start
  time is set.\<close>

theorem child_running_ready:
  assumes "creach cfg f s" and "status (child s) = StatusRunning"
  shows "\<exists>w ts. session (child s) = Some w \<and> w \<in> open_sessions s \<and>
     starters s w \<in> {SSpawn ts, SLeave (Inr ts), SCancel (Inr ts), SDone (Inr ts)} \<and>
     tools (child s) = ts \<and> StartTime (child s) \<noteq> None \<and> (\<forall>j. stoppers s j = PIdle)"
proof -
  have "\<not> untouched s" using assms(2) by (simp add: untouched_def)
  then obtain w where w: "active s w" using creach_inv [OF assms(1)] by (auto simp: child_inv_def)
  have "\<forall>j. stoppers s j = PIdle"
    using creach_stop_rule [OF assms(1)] assms(2) by (simp add: stop_rule_def final_def)
  with w assms(2) show ?thesis
    by (cases "starters s w") (auto simp: active_def owned_def returned_def split: sum.splits)
qed

lemma child_running_ready_witness:
  "status (child (after start_acts)) = StatusRunning \<and>
   (\<exists>w. session (child (after start_acts)) = Some w \<and> w \<in> open_sessions (after start_acts))"
proof -
  have st: "status (child (after start_acts)) = StatusRunning" by (simp add: run_simps)
  show ?thesis using child_running_ready [OF after_reach [OF runs_exist(1)] st] st by blast
qed

text \<open>The crash callback runs at most once in the life of a child, and only when it has
  crashed; an intentional \<open>Stop\<close> that came first is never reported as a crash.\<close>

theorem child_crash_once:
  assumes "creach cfg f s"
  shows "crash_calls s \<le> 1 \<and> (status (child s) \<noteq> StatusCrashed \<longrightarrow> crash_calls s = 0)"
  using creach_inv [OF assms] unfolding child_inv_def
proof
  assume "\<exists>w. active s w"
  then obtain w where "crash_rule s w" by (auto simp: active_def)
  then show ?thesis by (auto simp: crash_rule_def split: mon_pc.splits)
qed (simp add: untouched_def)

lemma child_crash_once_witness:
  "crash_calls (after crash_acts) = 1 \<and> status (child (after crash_acts)) = StatusCrashed"
proof -
  have "1 \<le> crash_calls (after crash_acts)" by (simp add: run_simps)
  then show ?thesis using child_crash_once [OF after_reach [OF runs_exist(2)]] by fastforce
qed

end
