(* ===== verification/ChildLive.thy ===== *)
theory ChildLive
  imports ChildProps
begin

text \<open>
  More properties of one child server (\<open>child.go\<close>): the tool discovery loop, the
  environment of the spawned process, the return of \<open>Start\<close> and \<open>Stop\<close> from every
  reachable state of the threads, and the agreement of the sequential \<open>child_Start\<close>,
  which the proxy's handlers use, with the threads.
\<close>

section \<open>Tool discovery\<close>

text \<open>The cursor and the answer of the \<open>n\<close>-th request of a discovery.\<close>

fun cursor_at :: "lister \<Rightarrow> nat \<Rightarrow> gostring" where
  "cursor_at L 0 = []"
| "cursor_at L (Suc n) = (case L n (cursor_at L n) of Inl e \<Rightarrow> [] | Inr p \<Rightarrow> snd p)"

definition answer_at :: "lister \<Rightarrow> nat \<Rightarrow> gostring + (Tool list \<times> gostring)" where
  "answer_at L n = L n (cursor_at L n)"

definition has_more :: "gostring + (Tool list \<times> gostring) \<Rightarrow> bool" where
  "has_more a = (case a of Inl e \<Rightarrow> False | Inr p \<Rightarrow> snd p \<noteq> [])"

definition page_tools :: "gostring + (Tool list \<times> gostring) \<Rightarrow> Tool list" where
  "page_tools a = (case a of Inl e \<Rightarrow> [] | Inr p \<Rightarrow> fst p)"

lemma discover_loop_more:
  "has_more (answer_at L n) \<Longrightarrow>
     discover_loop L n (cursor_at L n) all =
     discover_loop L (Suc n) (cursor_at L (Suc n)) (all @ page_tools (answer_at L n))"
  by (subst discover_loop.simps)
    (auto simp: has_more_def page_tools_def answer_at_def split: sum.splits)

lemma discover_loop_end:
  "\<not> has_more (answer_at L n) \<Longrightarrow>
     discover_loop L n (cursor_at L n) all =
     Some (case answer_at L n of Inl e \<Rightarrow> Inl e | Inr p \<Rightarrow> Inr (all @ fst p))"
  by (subst discover_loop.simps)
    (auto simp: has_more_def page_tools_def answer_at_def split: sum.splits)

lemma discover_loop_upto:
  "\<forall>k<m. has_more (answer_at L (n + k)) \<Longrightarrow>
     discover_loop L n (cursor_at L n) all =
     discover_loop L (n + m) (cursor_at L (n + m))
       (all @ concat (map (\<lambda>k. page_tools (answer_at L (n + k))) [0..<m]))"
proof (induction m)
  case 0
  then show ?case by simp
next
  case (Suc m)
  then have "has_more (answer_at L (n + m))" by simp
  from discover_loop_more [OF this] Suc show ?case by simp
qed

lemma discover_loop_Some:
  assumes "discover_loop L n (cursor_at L n) all = Some r"
  shows "\<exists>m. \<not> has_more (answer_at L (n + m))"
proof -
  have "\<forall>k. c = cursor_at L k \<longrightarrow> l = L \<longrightarrow> i = k \<longrightarrow> (\<exists>m. \<not> has_more (answer_at L (k + m)))"
    if "discover_loop l i c a = Some r" for l i c a r
  proof (rule discover_loop.raw_induct [OF _ that, where P = "\<lambda>l i c a r. \<forall>k. c = cursor_at L k \<longrightarrow> l = L \<longrightarrow> i = k \<longrightarrow> (\<exists>m. \<not> has_more (answer_at L (k + m)))"], intro allI impI)
    fix d l n c a r k
    assume IH: "\<And>l n c a r. d l n c a = Some r \<Longrightarrow>
        \<forall>k. c = cursor_at L k \<longrightarrow> l = L \<longrightarrow> n = k \<longrightarrow> (\<exists>m. \<not> has_more (answer_at L (k + m)))"
      and eq: "(case l n c of Inl err \<Rightarrow> Some (Inl err)
        | Inr p \<Rightarrow> if snd p = [] then Some (Inr (a @ fst p))
            else d l (Suc n) (snd p) (a @ fst p)) = Some r"
      and h: "c = cursor_at L k" "l = L" "n = k"
    show "\<exists>m. \<not> has_more (answer_at L (k + m))"
    proof (cases "has_more (answer_at L k)")
      case True
      then obtain p where p: "L k (cursor_at L k) = Inr p" "snd p \<noteq> []"
        by (auto simp: has_more_def answer_at_def split: sum.splits)
      with eq h have "d L (Suc k) (snd p) (a @ fst p) = Some r" by simp
      from IH [OF this] p obtain m where "\<not> has_more (answer_at L (Suc k + m))"
        by auto
      then show ?thesis by (intro exI [of _ "Suc m"]) simp
    next
      case False
      then show ?thesis by (intro exI [of _ 0]) simp
    qed
  qed
  from this [OF assms] show ?thesis by blast
qed

text \<open>C34. Discovery exactly: it asks with each cursor it was given, stops at the first error
  or empty cursor and returns that error or the tools of all pages in order; it fails to
  return exactly when every request is answered by a page with another cursor.\<close>

theorem discover_exact:
  "(discoverTools L = None \<longleftrightarrow> (\<forall>n. has_more (answer_at L n))) \<and>
   (\<forall>n. (\<forall>k<n. has_more (answer_at L k)) \<and> \<not> has_more (answer_at L n) \<longrightarrow>
      discoverTools L = Some (case answer_at L n of
          Inl e \<Rightarrow> Inl e
        | Inr p \<Rightarrow> Inr (concat (map (\<lambda>k. page_tools (answer_at L k)) [0..<n]) @ fst p)))"
proof (intro conjI allI impI)
  have upto: "discoverTools L = discover_loop L n (cursor_at L n)
      (concat (map (\<lambda>k. page_tools (answer_at L k)) [0..<n]))"
    if "\<forall>k<n. has_more (answer_at L k)" for n
    using discover_loop_upto [of n L 0 "[]"] that by (simp add: discoverTools_def)
  show res: "discoverTools L = Some (case answer_at L n of
          Inl e \<Rightarrow> Inl e
        | Inr p \<Rightarrow> Inr (concat (map (\<lambda>k. page_tools (answer_at L k)) [0..<n]) @ fst p))"
    if "(\<forall>k<n. has_more (answer_at L k)) \<and> \<not> has_more (answer_at L n)" for n
    using upto [of n] discover_loop_end [of L n] that by simp
  show "discoverTools L = None \<longleftrightarrow> (\<forall>n. has_more (answer_at L n))"
  proof
    assume none: "discoverTools L = None"
    show "\<forall>n. has_more (answer_at L n)"
    proof (rule ccontr)
      assume "\<not> ?thesis"
      then obtain n where "\<not> has_more (answer_at L n)" "\<forall>k<n. has_more (answer_at L k)"
        using exists_least_iff [of "\<lambda>n. \<not> has_more (answer_at L n)"] by auto
      with res [of n] none show False by auto
    qed
  next
    assume "\<forall>n. has_more (answer_at L n)"
    then show "discoverTools L = None"
      using discover_loop_Some [of L 0 "[]"] by (cases "discoverTools L") (auto simp: discoverTools_def)
  qed
qed

definition two_pages :: lister where
  "two_pages n c = (if c = [] then Inr ([sample_tool], ''p2'')
     else if c = ''p2'' then Inr ([sample_tool], []) else Inl ''bad cursor'')"

lemma discover_exact_witness:
  "discoverTools two_pages = Some (Inr [sample_tool, sample_tool])"
proof -
  have a: "answer_at two_pages 0 = Inr ([sample_tool], ''p2'')"
    "answer_at two_pages (Suc 0) = Inr ([sample_tool], [])"
    by (simp_all add: answer_at_def two_pages_def)
  then have "(\<forall>k<Suc 0. has_more (answer_at two_pages k)) \<and> \<not> has_more (answer_at two_pages (Suc 0))"
    by (simp add: has_more_def)
  from mp [OF spec [OF conjunct2 [OF discover_exact [of two_pages]], of "Suc 0"] this]
  show ?thesis by (simp add: a page_tools_def)
qed

section \<open>The environment of the spawned process\<close>

lemma env_entry_eq: "CHR ''='' \<notin> set k \<Longrightarrow> env_entry (k @ CHR ''='' # v) = (k, v)"
  by (auto simp: env_entry_def takeWhile_append dropWhile_append)

lemma map_env_entry:
  "\<forall>(k, v) \<in> set kvs. CHR ''='' \<notin> set k \<Longrightarrow>
     map env_entry (map (\<lambda>(k, v). k @ CHR ''='' # v) kvs) = kvs"
  by (induction kvs) (auto simp: env_entry_eq)

text \<open>The configured environment is merged over the proxy's: a configured name has the
  configured value, every other name the inherited one (names are distinct, as the keys of
  a map are, and hold no \<open>=\<close>).\<close>

theorem child_env_merged:
  assumes "\<forall>(k, v) \<in> set (cfg_Env cfg). CHR ''='' \<notin> set k" and "distinct (map fst (cfg_Env cfg))"
  shows "effective_env (cmd_Env (build_cmd cfg environ)) =
           effective_env environ ++ map_of (cfg_Env cfg)"
proof -
  have "map_of (rev (cfg_Env cfg)) = map_of (cfg_Env cfg)"
    using assms(2) by (subst map_of_inject_set) (simp_all add: rev_map [symmetric])
  then show ?thesis
    by (simp add: effective_env_def build_cmd_def map_env_entry [OF assms(1)] del: map_map)
qed

lemma child_env_merged_witness:
  "effective_env (cmd_Env (build_cmd sample_cfg [''A=0'', ''B=2''])) ''A'' = Some ''1'' \<and>
   effective_env (cmd_Env (build_cmd sample_cfg [''A=0'', ''B=2''])) ''B'' = Some ''2''"
proof -
  have h: "\<forall>(k, v) \<in> set (cfg_Env sample_cfg). CHR ''='' \<notin> set k"
    "distinct (map fst (cfg_Env sample_cfg))"
    by (simp_all add: sample_cfg_def)
  show ?thesis
    unfolding child_env_merged [OF h]
    by (simp add: effective_env_def env_entry_def sample_cfg_def)
qed

section \<open>Liveness\<close>

text \<open>How many moves of its own a \<open>Start\<close> call still makes, at most.\<close>

fun start_rank :: "start_pc \<Rightarrow> nat" where
  "start_rank SIdle = 10" | "start_rank SRefuse = 1" | "start_rank (SRefused _) = 0"
| "start_rank SConnect = 9" | "start_rank (SPublish _) = 8" | "start_rank SDiscover = 7"
| "start_rank (SDisown _) = 6" | "start_rank (SClose _) = 5" | "start_rank (SCommit _) = 6"
| "start_rank (SSpawn _) = 4" | "start_rank (SLeave _) = 2" | "start_rank (SCancel _) = 1"
| "start_rank (SDone _) = 0"

lemma start_move_rank:
  "start_move (starters s i) a i s = Some s' \<Longrightarrow> \<not> panicked s' \<Longrightarrow>
     start_rank (starters s' i) < start_rank (starters s i) \<and>
     (entered (starters s i) \<longrightarrow> entered (starters s' i)) \<and>
     starters s' = (starters s)(i := starters s' i)"
  by (cases "starters s i")
    (auto simp: section_defs split: option.splits answer.splits if_splits)

lemma start_move_enabled:
  assumes "entered (starters s i)" and "start_rank (starters s i) \<noteq> 0"
  shows "\<exists>a s'. start_move (starters s i) a i s = Some s'"
proof (cases "starters s i")
  case SConnect
  then show ?thesis by (intro exI [of _ "Connected 0"]) simp
next
  case SDiscover
  then show ?thesis by (intro exI [of _ "Listed []"]) simp
next
  case (SCommit ts)
  then show ?thesis by (intro exI [of _ "Clock 0"]) (simp split: option.splits)
next
  case (SPublish n)
  then show ?thesis by (simp split: option.splits)
next
  case (SLeave r)
  then show ?thesis by (simp split: option.splits)
qed (use assms in auto)

lemma start_finishes:
  assumes "creach cfg f s" and "entered (starters s i)"
  shows "\<exists>as s'. length as \<le> start_rank (starters s i) \<and> (\<forall>a \<in> set as. \<exists>b. a = AStart i b) \<and>
     child_run as s = Some s' \<and> (\<exists>r. starters s' i = SDone r) \<and> stoppers s' = stoppers s"
  using assms
proof (induction "start_rank (starters s i)" arbitrary: s rule: less_induct)
  case less
  show ?case
  proof (cases "start_rank (starters s i) = 0")
    case True
    with less.prems(2) obtain r where "starters s i = SDone r" by (cases "starters s i") auto
    then show ?thesis by (intro exI [of _ "[]"] exI [of _ s]) auto
  next
    case False
    then obtain a s1 where mv: "start_move (starters s i) a i s = Some s1"
      using start_move_enabled less.prems(2) by blast
    then have st: "child_step (AStart i a) s = Some s1" by simp
    then have r1: "creach cfg f s1" by (rule creach.step [OF less.prems(1)])
    have "\<not> panicked s1" by (rule creach_no_panic [OF r1])
    from start_move_rank [OF mv this] less.prems(2)
    have lt: "start_rank (starters s1 i) < start_rank (starters s i)" and e1: "entered (starters s1 i)"
      by auto
    from less.hyps [OF lt r1 e1] obtain as s' where
      "length as \<le> start_rank (starters s1 i)" "\<forall>a \<in> set as. \<exists>b. a = AStart i b"
      "child_run as s1 = Some s'" "\<exists>r. starters s' i = SDone r" "stoppers s' = stoppers s1" by blast
    with lt st start_move_startDone(1) [OF mv] show ?thesis
      by (intro exI [of _ "AStart i a # as"] exI [of _ s']) auto
  qed
qed

lemma start_rank_le: "entered pc \<Longrightarrow> start_rank pc \<le> 9"
  by (cases pc) auto

text \<open>\<open>Start\<close> returns: from every reachable state a call that has passed the check
  of the status reaches its return by at most nine moves of its own, whatever other threads
  have done; no lock or channel blocks it.\<close>

theorem child_start_returns:
  assumes "creach cfg f s" and "entered (starters s i)"
  shows "\<exists>as s' r. length as \<le> 9 \<and> (\<forall>a \<in> set as. \<exists>b. a = AStart i b) \<and>
     child_run as s = Some s' \<and> starters s' i = SDone r"
  using start_finishes [OF assms] start_rank_le [OF assms(2)] by (meson le_trans)

lemma child_start_returns_witness:
  "\<exists>as s' r. length as \<le> 9 \<and> (\<forall>a \<in> set as. \<exists>b. a = AStart 0 b) \<and>
     child_run as (after race_acts) = Some s' \<and> starters s' 0 = SDone r"
proof -
  have "entered (starters (after race_acts) 0)" by (simp add: run_simps)
  with after_reach [OF runs_exist(4)] show ?thesis by (rule child_start_returns)
qed

lemma child_run_append:
  "child_run (as @ bs) s = (case child_run as s of None \<Rightarrow> None | Some s1 \<Rightarrow> child_run bs s1)"
  by (induction as arbitrary: s) (auto split: option.splits)

fun stop_rank :: "stop_pc \<Rightarrow> nat" where
  "stop_rank PIdle = 5" | "stop_rank (PCancel _) = 4" | "stop_rank (PWait _) = 3"
| "stop_rank PReread = 2" | "stop_rank (PClose _ _) = 1" | "stop_rank (PKilled _) = 1"
| "stop_rank PDone = 0"

lemma stop_move_enabled:
  assumes "startDone (child s) \<noteq> Some False" and "stoppers s j \<noteq> PDone" and "wait_rule s"
  shows "\<exists>s'. stop_move (stoppers s j) False j s = Some s' \<and>
     stop_rank (stoppers s' j) < stop_rank (stoppers s j) \<and>
     startDone (child s') = startDone (child s)"
proof -
  have "waits_for (stoppers s j) (startDone (child s))" using assms(3) by (simp add: wait_rule_def)
  then show ?thesis
    using assms(1,2)
    by (cases "stoppers s j"; cases "startDone (child s)")
      (auto simp: section_defs split: option.splits)
qed

lemma stop_finishes:
  assumes "creach cfg f s" and "startDone (child s) \<noteq> Some False"
  shows "\<exists>as s'. length as \<le> stop_rank (stoppers s j) \<and> set as \<subseteq> {AStop j False} \<and>
     child_run as s = Some s' \<and> stoppers s' j = PDone"
  using assms
proof (induction "stop_rank (stoppers s j)" arbitrary: s rule: less_induct)
  case less
  show ?case
  proof (cases "stoppers s j = PDone")
    case True
    then show ?thesis by (intro exI [of _ "[]"] exI [of _ s]) simp
  next
    case False
    from stop_move_enabled [OF less.prems(2) False creach_wait_rule [OF less.prems(1)]]
    obtain s1 where mv: "stop_move (stoppers s j) False j s = Some s1"
      and lt: "stop_rank (stoppers s1 j) < stop_rank (stoppers s j)"
      and d: "startDone (child s1) = startDone (child s)" by blast
    have st: "child_step (AStop j False) s = Some s1" using mv by simp
    have "creach cfg f s1" by (rule creach.step [OF less.prems(1) st])
    from less.hyps [OF lt this] less.prems(2) d obtain as s' where
      "length as \<le> stop_rank (stoppers s1 j)" "set as \<subseteq> {AStop j False}"
      "child_run as s1 = Some s'" "stoppers s' j = PDone" by auto
    with lt st show ?thesis
      by (intro exI [of _ "AStop j False # as"] exI [of _ s']) auto
  qed
qed

text \<open>\<open>Stop\<close> returns: from every reachable state a call of \<open>Stop\<close> reaches its
  return by at most fourteen moves of its own and of the \<open>Start\<close> it waits for; the
  wait on \<open>startDone\<close> is never a deadlock.\<close>

theorem child_stop_returns:
  assumes "creach cfg f s"
  shows "\<exists>as s'. length as \<le> 14 \<and> (\<forall>a \<in> set as. (\<exists>i b. a = AStart i b) \<or> a = AStop j False) \<and>
     child_run as s = Some s' \<and> stoppers s' j = PDone"
proof -
  have sr: "stop_rank pc \<le> 5" for pc by (cases pc) auto
  show ?thesis
  proof (cases "startDone (child s) = Some False")
    case False
    from stop_finishes [OF assms False, of j] obtain as s' where
      "length as \<le> stop_rank (stoppers s j)" "set as \<subseteq> {AStop j False}"
      "child_run as s = Some s'" "stoppers s' j = PDone" by blast
    moreover from this(1) sr [of "stoppers s j"] have "length as \<le> 14" by simp
    ultimately show ?thesis by (intro exI [of _ as] exI [of _ s']) blast
  next
    case True
    have "\<not> untouched s" using True by (simp add: untouched_def)
    then obtain w where e: "entered (starters s w)"
      using creach_untouched [OF assms] by blast
    from start_finishes [OF assms e] start_rank_le [OF e] obtain as s1 r where
      as: "length as \<le> 9" "\<forall>a \<in> set as. \<exists>b. a = AStart w b" "child_run as s = Some s1"
      "starters s1 w = SDone r" by (meson le_trans)
    have r1: "creach cfg f s1" by (rule creach_run [OF assms as(3)])
    have "startDone (child s1) = Some True"
      using creach_active [OF r1, of w] as(4) by (simp add: active_def)
    then have "startDone (child s1) \<noteq> Some False" by simp
    from stop_finishes [OF r1 this, of j] sr [of "stoppers s1 j"] obtain bs s' where
      "length bs \<le> 5" "set bs \<subseteq> {AStop j False}" "child_run bs s1 = Some s'" "stoppers s' j = PDone"
      by (meson le_trans)
    with as show ?thesis
      by (intro exI [of _ "as @ bs"] exI [of _ s']) (auto simp: child_run_append)
  qed
qed

lemma child_stop_returns_witness:
  "\<exists>as s'. length as \<le> 14 \<and> (\<forall>a \<in> set as. (\<exists>i b. a = AStart i b) \<or> a = AStop 3 False) \<and>
     child_run as (after race_acts) = Some s' \<and> stoppers s' 3 = PDone"
  by (rule child_stop_returns [OF after_reach [OF runs_exist(4)]])

section \<open>The undisturbed Start is a schedule of the threads\<close>

text \<open>The answers a \<open>Start\<close> call that meets \<open>e\<close> receives, branch by branch.\<close>

definition start_answers :: "start_env \<Rightarrow> Child \<Rightarrow> answer list" where
  "start_answers e c =
     (if status c \<noteq> StatusNew then [Go, Go]
      else Go # (case env_connect e of
        Inl err \<Rightarrow> [ConnectFailed err, Go, Go]
      | Inr n \<Rightarrow> Connected n # Go #
          (case the (discoverTools (env_list e)) of
             Inl err \<Rightarrow> [ListFailed err, Go, Go, Go, Go]
           | Inr ts \<Rightarrow> [Listed ts, Clock (env_now e), Go, Go, Go])))"

text \<open>\<open>child_Start\<close>, the code of \<open>Start\<close> and \<open>start\<close> in program order, is one
  schedule of the threads: the moves of one call, with the answers of its environment, end
  in the state and the result \<open>child_Start\<close> computes, and with the session closed if it
  says so.\<close>

theorem child_Start_agrees:
  assumes "child_Start i e (child s) = Some (r, c, closed)"
    and "starters s i = SIdle" and "i \<in> cancelled s \<longleftrightarrow> env_ctx_err e"
  shows "\<exists>s'. child_run (map (AStart i) (start_answers e (child s))) s = Some s' \<and>
     child s' = c \<and>
     (starters s' i = SDone r \<or>
      (\<exists>st. starters s' i = SRefused st \<and> r = Inl (CannotStart (cfg_Name (Config c)) st))) \<and>
     open_sessions s' =
       (if status (child s) = StatusNew \<and> \<not> isl (env_connect e)
        then insert i (open_sessions s) else open_sessions s) - set closed"
proof (cases "status (child s) = StatusNew")
  case False
  with assms show ?thesis
    by (auto simp: child_Start_def start_enter_def start_answers_def)
next
  case True
  show ?thesis
  proof (cases "env_connect e")
    case (Inl err)
    with True assms show ?thesis
      by (auto simp: child_Start_def child_start_def section_defs start_answers_def)
  next
    case (Inr n)
    from assms(1) True Inr obtain d where d: "discoverTools (env_list e) = Some d"
      by (cases "discoverTools (env_list e)")
        (auto simp: child_Start_def child_start_def section_defs)
    show ?thesis
    proof (cases d)
      case (Inl err)
      with True Inr d assms show ?thesis
        by (auto simp: child_Start_def child_start_def section_defs start_answers_def)
    next
      case d': (Inr ts)
      with True Inr d assms show ?thesis
        by (auto simp: child_Start_def child_start_def section_defs start_answers_def)
    qed
  qed
qed

lemma sample_Start:
  "\<exists>c. child_Start 0 sample_env (child fresh_sys) = Some (Inr [sample_tool], c, []) \<and>
     status c = StatusRunning \<and> tools c = [sample_tool] \<and> session c = Some 0"
  by (simp add: child_Start_def child_start_def run_simps sample_env_simps)

lemma child_Start_agrees_witness:
  "\<exists>s'. child_run (map (AStart 0) (start_answers sample_env (child fresh_sys))) fresh_sys = Some s' \<and>
     starters s' 0 = SDone (Inr [sample_tool])"
proof -
  obtain c where c: "child_Start 0 sample_env (child fresh_sys) = Some (Inr [sample_tool], c, [])"
    using sample_Start by blast
  have h: "starters fresh_sys 0 = SIdle" "0 \<in> cancelled fresh_sys \<longleftrightarrow> env_ctx_err sample_env"
    by (simp_all add: run_simps sample_env_simps)
  from child_Start_agrees [OF c h] show ?thesis by (auto simp: run_simps)
qed

end
