(* ===== verification/ProxyLive.thy ===== *)
theory ProxyLive
  imports ProxyReads ChildLive
begin

text \<open>
  Every call of a handler can return: from every reachable state of \<open>ProxyThreads\<close> there
  are moves of the call itself, and of the \<open>Start\<close> call it waits for, that lead to its
  reply. Nothing that other calls have done blocks it.
\<close>

section \<open>The children a call names exist\<close>

fun pc_kids :: "call_pc \<Rightarrow> nat list" where
  "pc_kids (RemRead n i k) = [i]" | "pc_kids (RemDrop ns n i k) = [i]" | "pc_kids (RemStop n i k) = [i]"
| "pc_kids (ShutStop is) = is" | "pc_kids _ = []"

definition kids_lt :: "'r psys \<Rightarrow> bool" where
  "kids_lt s \<longleftrightarrow> (\<forall>t. \<forall>i \<in> set (pc_kids (calls s t)). i < next_kid s)"

lemma kids_lt_upd:
  assumes "kids_lt s" and "calls s' = (calls s)(t := pc)" and "next_kid s \<le> next_kid s'"
    and "\<And>i. i \<in> set (pc_kids pc) \<Longrightarrow> i < next_kid s"
  shows "kids_lt s'"
  unfolding kids_lt_def
proof (intro allI ballI)
  fix u i
  assume "i \<in> set (pc_kids (calls s' u))"
  then have "i < next_kid s"
    using assms(1,2,4) by (auto simp: kids_lt_def split: if_splits)
  with assms(3) show "i < next_kid s'" by simp
qed

lemma kids_lt_move:
  assumes m: "call_move ops (calls s t) t s = Some s'" and k: "kids_lt s" and tb: "table_ok s"
  shows "kids_lt s'"
proof -
  have old: "i \<in> set (pc_kids (calls s t)) \<Longrightarrow> i < next_kid s" for i
    using k by (simp add: kids_lt_def)
  have tbl: "table s n = Some i \<Longrightarrow> i < next_kid s" for n i using tb by (simp add: table_ok_def)
  have "calls s' = (calls s)(t := calls s' t) \<and> next_kid s \<le> next_kid s' \<and>
      (\<forall>i. i \<in> set (pc_kids (calls s' t)) \<longrightarrow> i < next_kid s)"
    using m old tbl by (cases "calls s t")
      (auto simp: Let_def after_remove_def split: option.splits if_splits start_pc.splits sum.splits list.splits)
  then show ?thesis by (intro kids_lt_upd [OF k, of s' t "calls s' t"]) blast+
qed

lemma kids_lt_step:
  assumes "pstep ops a s = Some s'" and k: "kids_lt s" and tb: "table_ok s"
  shows "kids_lt s'"
  using assms(1)
proof (cases rule: pstep_cases)
  case (call t req)
  then show ?thesis
    by (intro kids_lt_upd [OF k, of s' t "enter req"]) (auto simp: enter_def split: request.splits)
next
  case (view t)
  then obtain pc where "calls s' = (calls s)(t := pc)" "viewing pc" "next_kid s' = next_kid s"
    by (auto simp: views_def)
  then show ?thesis by (intro kids_lt_upd [OF k, of s' t pc]) (cases pc; simp)+
next
  case (move t)
  then show ?thesis using k tb by (rule kids_lt_move)
next
  case (shut t order)
  have "i < next_kid s" if "i \<in> set (map (\<lambda>n. the (table s n)) order)" for i
    using shut_move_fields(2) [OF shut] that tb by (auto simp: table_ok_def)
  then show ?thesis
    by (intro kids_lt_upd [OF k, of s' t "ShutStop (map (\<lambda>n. the (table s n)) order)"])
      (simp_all add: shut_move_fields(3) [OF shut])
next
  case (kid b i)
  with k show ?thesis by (simp add: kids_lt_def moves_kid_def)
next
  case (crash i)
  with k show ?thesis by (cases "crashers s i") (auto simp: kids_lt_def Let_def)
qed

section \<open>Moves of a child as moves of the proxy\<close>

lemma kids_same: "s\<lparr>kids := (kids s)(i := kids s i)\<rparr> = s"
  by simp

lemma kid_reach: "starts_ok s \<Longrightarrow> \<exists>f cfg. creach cfg f (kids s i)"
  by (simp add: starts_ok_def)

lemma lift_start:
  "starts (calls s t) = Some i \<Longrightarrow> child_run as (kids s i) = Some k \<Longrightarrow> \<forall>a \<in> set as. \<exists>b. a = AStart i b \<Longrightarrow>
     \<exists>bs. prun ops bs s = Some (put_kid i k s)"
proof (induction as arbitrary: s)
  case Nil
  then show ?case by (intro exI [of _ "[]"]) (auto simp: kids_same)
next
  case (Cons a as)
  then obtain b k1 where a: "a = AStart i b" "child_step a (kids s i) = Some k1" "child_run as k1 = Some k"
    by (auto split: option.splits)
  let ?s1 = "put_kid i k1 s"
  from Cons.IH [of ?s1] Cons.prems a obtain bs where "prun ops bs ?s1 = Some (put_kid i k ?s1)" by auto
  moreover have "pstep ops (PStart t b) s = Some ?s1"
    using Cons.prems(1) a by (simp add: kid_step_def)
  ultimately show ?case by (intro exI [of _ "PStart t b # bs"]) simp
qed

lemma lift_stop:
  "stops (calls s t) = Some i \<Longrightarrow> child_run as (kids s i) = Some k \<Longrightarrow> set as \<subseteq> {AStop t False} \<Longrightarrow>
     \<exists>bs. prun ops bs s = Some (put_kid i k s)"
proof (induction as arbitrary: s)
  case Nil
  then show ?case by (intro exI [of _ "[]"]) (auto simp: kids_same)
next
  case (Cons a as)
  then obtain k1 where a: "a = AStop t False" "child_step a (kids s i) = Some k1" "child_run as k1 = Some k"
    by (auto split: option.splits)
  let ?s1 = "put_kid i k1 s"
  from Cons.IH [of ?s1] Cons.prems a obtain bs where "prun ops bs ?s1 = Some (put_kid i k ?s1)" by auto
  moreover have "pstep ops (PStop t False) s = Some ?s1"
    using Cons.prems(1) a by (simp add: kid_step_def)
  ultimately show ?case by (intro exI [of _ "PStop t False # bs"]) simp
qed

text \<open>A \<open>Start\<close> call can always be run to its end.\<close>

lemma start_runs_out:
  assumes "creach cfg f k"
  shows "\<exists>as k'. (\<forall>a \<in> set as. \<exists>b. a = AStart i b) \<and> child_run as k = Some k' \<and>
     start_over (starters k' i) \<and> stoppers k' = stoppers k"
proof -
  have fin: ?thesis if e: "entered (starters k1 i)" and r: "child_run as1 k = Some k1"
    and a: "\<forall>a \<in> set as1. \<exists>b. a = AStart i b" and s: "stoppers k1 = stoppers k" for k1 as1
  proof -
    from start_finishes [OF creach_run [OF assms r] e] obtain as k' r' where
      "\<forall>a \<in> set as. \<exists>b. a = AStart i b" "child_run as k1 = Some k'" "starters k' i = SDone r'"
      "stoppers k' = stoppers k1" by blast
    with r a s show ?thesis
      by (intro exI [of _ "as1 @ as"] exI [of _ k']) (auto simp: child_run_append)
  qed
  show ?thesis
  proof (cases "starters k i")
    case SIdle
    show ?thesis
    proof (cases "start_enter i (child k)")
      case None
      let ?k1 = "sgoto i SRefuse k"
      have "child_run [AStart i Go, AStart i Go] k = Some (sgoto i (SRefused (status (child k))) ?k1)"
        using SIdle None by simp
      then show ?thesis by (intro exI [of _ "[AStart i Go, AStart i Go]"]) force
    next
      case (Some c)
      then show ?thesis
        by (intro fin [of "sgoto i SConnect (k\<lparr>child := c\<rparr>)" "[AStart i Go]"]) (simp_all add: SIdle)
    qed
  next
    case SRefuse
    then show ?thesis by (intro exI [of _ "[AStart i Go]"]) force
  next
    case (SRefused st)
    then show ?thesis by (intro exI [of _ "[]"]) simp
  next
    case (SDone r)
    then show ?thesis by (intro exI [of _ "[]"]) simp
  qed (intro fin [of k "[]"]; simp)+
qed

context mcp_server
begin

lemma reach_parts:
  assumes "preach ops s"
  shows "starts_ok s" "table_ok s" "pcs_ok s" "kids_lt s"
proof -
  show "starts_ok s" "table_ok s" "pcs_ok s" using threads_inv_reach [OF assms] by (simp_all add: threads_inv_def)
  show "kids_lt s" using assms
  proof (induction rule: preach.induct)
    case init
    show ?case by (simp add: kids_lt_def init_psys_def)
  next
    case (step s a s')
    then show ?case using kids_lt_step threads_inv_reach unfolding threads_inv_def by blast
  qed
qed

lemma start_done:
  assumes "preach ops s" and "starts (calls s t) = Some i"
  shows "\<exists>as k. prun ops as s = Some (put_kid i k s) \<and> start_over (starters k i) \<and> stoppers k = stoppers (kids s i)"
proof -
  obtain f cfg where "creach cfg f (kids s i)"
    using kid_reach [OF reach_parts(1) [OF assms(1)]] by blast
  from start_runs_out [OF this] obtain as k where k: "\<forall>a \<in> set as. \<exists>b. a = AStart i b"
    "child_run as (kids s i) = Some k" "start_over (starters k i)" "stoppers k = stoppers (kids s i)" by blast
  from lift_start [OF assms(2) k(2,1)] k(3,4) show ?thesis by blast
qed

lemma stop_done_free:
  assumes "preach ops s" and "stops (calls s t) = Some i" and "startDone (child (kids s i)) \<noteq> Some False"
  shows "\<exists>as k. prun ops as s = Some (put_kid i k s) \<and> stoppers k t = PDone"
proof -
  obtain f cfg where "creach cfg f (kids s i)"
    using kid_reach [OF reach_parts(1) [OF assms(1)]] by blast
  from stop_finishes [OF this assms(3), of t] obtain as k where
    k: "set as \<subseteq> {AStop t False}" "child_run as (kids s i) = Some k" "stoppers k t = PDone" by blast
  from lift_stop [OF assms(2) k(2,1)] k(3) show ?thesis by blast
qed

lemma stop_done:
  assumes r: "preach ops s" and t: "stops (calls s t) = Some i" and i: "i < next_kid s"
  shows "\<exists>as k. prun ops as s = Some (put_kid i k s) \<and> stoppers k t = PDone"
proof (cases "startDone (child (kids s i)) = Some False")
  case False
  then show ?thesis by (rule stop_done_free [OF r t])
next
  case True
  obtain f cfg where cr: "creach cfg f (kids s i)"
    using kid_reach [OF reach_parts(1) [OF r]] by blast
  have idle: "j \<noteq> i \<Longrightarrow> starters (kids s i) j = SIdle" for j
    using reach_parts(1) [OF r] by (simp add: starts_ok_def)
  have "\<not> untouched (kids s i)" using True by (simp add: untouched_def)
  then obtain w where w: "entered (starters (kids s i) w)" using creach_untouched [OF cr] by blast
  with idle [of w] have e: "entered (starters (kids s i) i)" by (cases "w = i") simp_all
  have "\<not> start_over (starters (kids s i) i)"
  proof
    assume "start_over (starters (kids s i) i)"
    with e obtain x where "starters (kids s i) i = SDone x" by (cases "starters (kids s i) i") auto
    with creach_active [OF cr, of i] True show False by (simp add: active_def)
  qed
  with reach_parts(1) [OF r] i obtain u where u: "starts (calls s u) = Some i" by (auto simp: starts_ok_def)
  from start_finishes [OF cr e] obtain as k x where k: "\<forall>a \<in> set as. \<exists>b. a = AStart i b"
    "child_run as (kids s i) = Some k" "starters k i = SDone x" by blast
  let ?s1 = "put_kid i k s"
  from lift_start [OF u k(2,1)] obtain bs where bs: "prun ops bs s = Some ?s1" by blast
  have r1: "preach ops ?s1" using r bs by (rule preach_run)
  have "startDone (child k) = Some True"
    using creach_active [OF creach_run [OF cr k(2)], of i] k(3) by (simp add: active_def)
  then have "startDone (child (kids ?s1 i)) \<noteq> Some False" by simp
  moreover have "stops (calls ?s1 t) = Some i" using t by simp
  ultimately obtain cs k2 where "prun ops cs ?s1 = Some (put_kid i k2 ?s1)" "stoppers k2 t = PDone"
    using stop_done_free [OF r1] by blast
  with bs show ?thesis
    by (intro exI [of _ "bs @ cs"] exI [of _ k2]) (simp add: prun_append)
qed

end

section \<open>From every counter to the reply\<close>

definition can_reply :: "'r tool_server \<Rightarrow> nat \<Rightarrow> 'r psys \<Rightarrow> bool" where
  "can_reply ops t s \<longleftrightarrow>
     (\<exists>as s' r. prun ops as s = Some s' \<and> (calls s' t = Replied r \<or> (\<exists>x. calls s' t = Forwarded x) \<or> calls s' t = ShutDone))"

lemma can_reply_run:
  "prun ops as s = Some s' \<Longrightarrow> can_reply ops t s' \<Longrightarrow> can_reply ops t s"
  unfolding can_reply_def by (metis option.simps(5) prun_append)

lemma can_reply_move:
  "call_move ops (calls s t) t s = Some s' \<Longrightarrow> can_reply ops t s' \<Longrightarrow> can_reply ops t s"
  by (rule can_reply_run [of _ "[PMove t]"]) simp_all

lemma can_reply_replied: "calls s t = Replied r \<Longrightarrow> can_reply ops t s"
  unfolding can_reply_def by (intro exI [of _ "[]"] exI [of _ s]) simp

lemma reply_next:
  assumes "call_move ops (calls s t) t s = Some (goto t pc s1)" and "can_reply ops t (goto t pc s1)"
  shows "can_reply ops t s"
  using assms by (rule can_reply_move)

lemma reply_now: "call_move ops (calls s t) t s = Some (goto t (Replied r) s1) \<Longrightarrow> can_reply ops t s"
  by (erule reply_next) (simp add: can_reply_replied)

lemma reply_via:
  assumes "preach ops s" and "call_move ops (calls s t) t s = Some s'"
    and "preach ops s' \<Longrightarrow> can_reply ops t s'"
  shows "can_reply ops t s"
proof -
  have "preach ops s'" using preach.step [OF assms(1), of "PMove t"] assms(2) by simp
  with assms(2,3) show ?thesis using can_reply_move by blast
qed

text \<open>One move to a counter that can reply.\<close>

lemma reply_step:
  assumes "preach ops s" and "call_move ops (calls s t) t s = Some (goto t pc s1)"
    and "\<And>s2. preach ops s2 \<Longrightarrow> calls s2 t = pc \<Longrightarrow> can_reply ops t s2"
  shows "can_reply ops t s"
  using assms(1,2) by (rule reply_via) (rule assms(3), simp_all)

text \<open>A section under the write lock: the readers leave first.\<close>

lemma reply_write:
  assumes "preach ops s" and "\<not> listing (calls s t)"
    and "\<And>s'. preach ops s' \<Longrightarrow> readers s' = {} \<Longrightarrow> calls s' t = calls s t \<Longrightarrow> can_reply ops t s'"
  shows "can_reply ops t s"
proof -
  obtain as s' where "prun ops as s = Some s'" "preach ops s'" "readers s' = {}" "calls s' t = calls s t"
    using writers_turn [OF assms(1,2)] by blast
  with assms(3) can_reply_run show ?thesis by blast
qed

lemma reply_fail:
  assumes "preach ops s" and "calls s t = AddFail n err"
  shows "can_reply ops t s"
  using assms(1)
proof (rule reply_write)
  fix s' assume "preach ops s'" "readers s' = {}" "calls s' t = calls s t"
  with assms(2) show "can_reply ops t s'"
    by (intro reply_now [of ops s' t "textResult True (FailedToStart n err)" "s'\<lparr>table := map_delete (table s') n\<rparr>"]) simp
qed (simp add: assms(2))

lemma reply_gone:
  assumes "preach ops s" and "calls s t = AddGone n"
  shows "can_reply ops t s"
  using assms(1)
proof (rule reply_write)
  fix s' assume "preach ops s'" "readers s' = {}" "calls s' t = calls s t"
  with assms(2) show "can_reply ops t s'"
    by (intro reply_now [of ops s' t "textResult True (ExitedImmediately n)" "s'\<lparr>table := map_delete (table s') n\<rparr>"]) simp
qed (simp add: assms(2))

lemma reply_reg: "calls s t = AddReg n ts all \<Longrightarrow> can_reply ops t s"
proof (induction ts arbitrary: s)
  case Nil
  then show ?case
    by (intro reply_now [of ops s t "textResult False (Added n (tool_names n all))" s]) simp
next
  case (Cons x xs)
  let ?s1 = "s\<lparr>registry := addTool ops (export_tool n x) (ProxyTool n (tool_Name x)) (registry s)\<rparr>"
  have "can_reply ops t (goto t (AddReg n xs all) ?s1)" by (rule Cons.IH) simp
  with Cons.prems show ?case by (intro reply_next [of ops s t "AddReg n xs all" ?s1]) simp_all
qed

lemma reply_check:
  assumes "preach ops s" and "calls s t = AddCheck n i ts"
  shows "can_reply ops t s"
proof (cases "status (child (kids s i)) = StatusRunning")
  case True
  with assms(2) have "call_move ops (calls s t) t s = Some (goto t (AddReg n ts ts) s)" by simp
  then show ?thesis by (rule reply_step [OF assms(1)]) (rule reply_reg)
next
  case False
  with assms(2) have "call_move ops (calls s t) t s = Some (goto t (AddGone n) s)" by simp
  then show ?thesis by (rule reply_step [OF assms(1)]) (rule reply_gone)
qed

context mcp_server
begin

lemma reply_start:
  assumes "preach ops s" and c: "calls s t = AddStart n i"
  shows "can_reply ops t s"
proof -
  from start_done [OF assms(1), of t i] c obtain as k where k: "prun ops as s = Some (put_kid i k s)"
    "start_over (starters k i)" by auto
  let ?s1 = "put_kid i k s"
  have r1: "preach ops ?s1" by (rule preach_run [OF assms(1) k(1)])
  have "can_reply ops t ?s1"
  proof (cases "starters k i")
    case (SRefused st)
    with c have "call_move ops (calls ?s1 t) t ?s1 = Some (goto t (AddFail n (CannotStart (kid_name ?s1 i) st)) ?s1)" by simp
    then show ?thesis by (rule reply_step [OF r1]) (rule reply_fail)
  next
    case (SDone r)
    show ?thesis
    proof (cases r)
      case (Inl err)
      with SDone c have "call_move ops (calls ?s1 t) t ?s1 = Some (goto t (AddFail n err) ?s1)" by simp
      then show ?thesis by (rule reply_step [OF r1]) (rule reply_fail)
    next
      case (Inr ts)
      with SDone c have "call_move ops (calls ?s1 t) t ?s1 = Some (goto t (AddCheck n i ts) ?s1)" by simp
      then show ?thesis by (rule reply_step [OF r1]) (rule reply_check)
    qed
  qed (use k(2) in simp_all)
  with k(1) show ?thesis by (rule can_reply_run)
qed

lemma reply_enter:
  assumes "preach ops s" and "calls s t = AddEnter input"
  shows "can_reply ops t s"
  using assms(1)
proof (rule reply_write)
  fix s1 assume r: "preach ops s1" and free: "readers s1 = {}" "calls s1 t = calls s t"
  with assms(2) have c: "calls s1 t = AddEnter input" by simp
  obtain s' where m: "call_move ops (calls s1 t) t s1 = Some s'"
    by (cases "ValidateServerName (in_Name input)"; cases "table s1 (in_Name input)") (simp_all add: c free)
  then have p: "pstep ops (PMove t) s1 = Some s'" by simp
  have "(\<exists>rep. calls s' t = Replied rep) \<or> (\<exists>n i. calls s' t = AddStart n i)"
    using m by (auto simp: c split: option.splits if_splits)
  then have "can_reply ops t s'"
    using can_reply_replied reply_start [OF preach.step [OF r p]] by blast
  with m show "can_reply ops t s1" by (rule can_reply_move)
qed (simp add: assms(2))

lemma reply_stop:
  assumes r: "preach ops s" and c: "calls s t = RemStop n i k"
  shows "can_reply ops t s"
proof -
  have i: "i < next_kid s" using reach_parts(4) [OF r] c unfolding kids_lt_def by (metis list.set_intros(1) pc_kids.simps(3))
  have "stops (calls s t) = Some i" by (simp add: c)
  from stop_done [OF r this i] obtain as x where x: "prun ops as s = Some (put_kid i x s)" "stoppers x t = PDone" by blast
  let ?s1 = "put_kid i x s" and ?s2 = "goto t (after_remove n k) (put_kid i x s)"
  have m: "call_move ops (calls ?s1 t) t ?s1 = Some ?s2" using c x(2) by simp
  have r2: "preach ops ?s2" using preach.step [OF preach_run [OF r x(1)], of "PMove t" ?s2] m by simp
  have "can_reply ops t ?s2"
  proof (cases k)
    case None
    then show ?thesis by (intro can_reply_replied) (simp add: after_remove_def)
  next
    case (Some input)
    then show ?thesis by (intro reply_enter [OF r2]) (simp add: after_remove_def)
  qed
  then show ?thesis using can_reply_run [OF x(1)] can_reply_move [OF m] by blast
qed

lemma reply_drop:
  assumes "preach ops s" and "calls s t = RemDrop ns n i k"
  shows "can_reply ops t s"
proof -
  have "call_move ops (calls s t) t s =
      Some (goto t (RemStop n i k) (s\<lparr>registry := removeTools ops ns (registry s)\<rparr>))"
    using assms(2) by simp
  then show ?thesis by (rule reply_step [OF assms(1)]) (rule reply_stop)
qed

lemma reply_read:
  assumes "preach ops s" and "calls s t = RemRead n i k"
  shows "can_reply ops t s"
proof (cases "tools (child (kids s i)) = []")
  case True
  then have "call_move ops (calls s t) t s = Some (goto t (RemStop n i k) s)"
    using assms(2) by (simp add: tool_names_def)
  then show ?thesis by (rule reply_step [OF assms(1)]) (rule reply_stop)
next
  case False
  then have "call_move ops (calls s t) t s =
      Some (goto t (RemDrop (tool_names n (tools (child (kids s i)))) n i k) s)"
    using assms(2) by (simp add: tool_names_def)
  then show ?thesis by (rule reply_step [OF assms(1)]) (rule reply_drop)
qed

lemma reply_remove:
  assumes "preach ops s" and "calls s t = RemEnter n k"
  shows "can_reply ops t s"
  using assms(1)
proof (rule reply_write)
  fix s1 assume r: "preach ops s1" and free: "readers s1 = {}" "calls s1 t = calls s t"
  with assms(2) have c: "calls s1 t = RemEnter n k" by simp
  show "can_reply ops t s1"
  proof (cases "table s1 n")
    case None
    with c free have "call_move ops (calls s1 t) t s1 = Some (goto t (Replied (textResult True (NotFound n))) s1)"
      by simp
    then show ?thesis by (rule reply_now)
  next
    case (Some i)
    with c free have "call_move ops (calls s1 t) t s1 =
        Some (goto t (RemRead n i k) (s1\<lparr>table := map_delete (table s1) n\<rparr>))" by simp
    then show ?thesis by (rule reply_step [OF r]) (rule reply_read)
  qed
qed (simp add: assms(2))

lemma reply_reload:
  assumes "preach ops s" and "calls s t = RelEnter n"
  shows "can_reply ops t s"
proof (cases "table s n")
  case None
  with assms(2) have "call_move ops (calls s t) t s = Some (goto t (Replied (textResult True (NotFound n))) s)"
    by simp
  then show ?thesis by (rule reply_now)
next
  case (Some i)
  with assms(2) have "call_move ops (calls s t) t s =
      Some (goto t (RemEnter n (Some (input_of (Config (child (kids s i)))))) s)" by simp
  then show ?thesis by (rule reply_step [OF assms(1)]) (rule reply_remove)
qed

lemma reply_shut_done: "calls s t = ShutDone \<Longrightarrow> can_reply ops t s"
  unfolding can_reply_def by (intro exI [of _ "[]"] exI [of _ s]) simp

lemma reply_shut:
  assumes "preach ops s" and "calls s t = ShutStop is"
  shows "can_reply ops t s"
  using assms
proof (induction "is" arbitrary: s)
  case Nil
  then have "call_move ops (calls s t) t s = Some (goto t ShutDone s)" by simp
  then show ?case by (rule reply_next) (simp add: reply_shut_done)
next
  case (Cons i js)
  have i: "i < next_kid s" using reach_parts(4) [OF Cons.prems(1)] Cons.prems(2)
    unfolding kids_lt_def by (metis list.set_intros(1) pc_kids.simps(4))
  have "stops (calls s t) = Some i" by (simp add: Cons.prems)
  from stop_done [OF Cons.prems(1) this i] obtain as x where
    x: "prun ops as s = Some (put_kid i x s)" "stoppers x t = PDone" by blast
  let ?s1 = "put_kid i x s"
  have "call_move ops (calls ?s1 t) t ?s1 = Some (goto t (ShutStop js) ?s1)"
    using Cons.prems(2) x(2) by simp
  then have "can_reply ops t ?s1"
    by (rule reply_step [OF preach_run [OF Cons.prems(1) x(1)]]) (rule Cons.IH)
  with x(1) show ?case by (rule can_reply_run)
qed

lemma reply_shut_enter:
  assumes "preach ops s" and "calls s t = ShutEnter"
  shows "can_reply ops t s"
  using assms(1)
proof (rule reply_write)
  fix s0 assume r: "preach ops s0" and free: "readers s0 = {}" "calls s0 t = calls s t"
  have "finite (dom (table s0))" using reach_parts(2) [OF r] by (simp add: table_ok_def)
  from finite_distinct_list [OF this] obtain order where o: "set order = dom (table s0)" "distinct order"
    by (elim exE conjE)
  let ?s1 = "goto t (ShutStop (map (\<lambda>n. the (table s0 n)) order)) (s0\<lparr>table := Map.empty\<rparr>)"
  have p: "pstep ops (PShut t order) s0 = Some ?s1" using assms(2) free o by (simp add: shut_move_def)
  have "can_reply ops t ?s1" using reply_shut [OF preach.step [OF r p]] by simp
  with p show "can_reply ops t s0" by (intro can_reply_run [of ops "[PShut t order]" s0 ?s1]) simp_all
qed (simp add: assms(2))

lemma reply_listing: "calls s t = Listing lp \<Longrightarrow> can_reply ops t s"
  using lister_finishes [of s t lp ops] unfolding can_reply_def by fastforce

lemma reply_list:
  assumes "preach ops s" and "calls s t = ListEnter"
  shows "can_reply ops t s"
proof -
  have "finite (dom (table s))" using reach_parts(2) [OF assms(1)] by (simp add: table_ok_def)
  from finite_distinct_list [OF this] obtain order where o: "set order = dom (table s)" "distinct order"
    by (elim exE conjE)
  let ?s1 = "goto t (Listing (LNext (map (\<lambda>n. (n, the (table s n))) order) [])) (s\<lparr>readers := insert t (readers s)\<rparr>)"
  have p: "pstep ops (PList t order) s = Some ?s1" using assms(2) o by (simp add: range_move_def)
  have "can_reply ops t ?s1" by (rule reply_listing) simp
  with p show ?thesis by (intro can_reply_run [of ops "[PList t order]" s ?s1]) simp_all
qed

text \<open>A tool's handler, when the environment answers the call with an error.\<close>

lemma handler_go:
  assumes "calls s t = Tooling tp" and "tool_move (Inl []) tp s = Some pc" and "can_reply ops t (goto t pc s)"
  shows "can_reply ops t s"
proof (rule can_reply_run [OF _ assms(3)])
  show "prun ops [PHandle t (Inl [])] s = Some (goto t pc s)" using assms(1,2) by (simp add: handler_move_def)
qed

lemma handler_ends:
  assumes "calls s t = Tooling tp" and "tool_move (Inl []) tp s = Some (Replied r)"
  shows "can_reply ops t s"
  using assms by (rule handler_go) (simp add: can_reply_replied)

lemma reply_send: "calls s t = Tooling (TSend sv tool args i k) \<Longrightarrow> can_reply ops t s"
  by (erule handler_ends) simp

lemma reply_sess:
  assumes "calls s t = Tooling (TSess sv tool args i)"
  shows "can_reply ops t s"
proof (cases "session (child (kids s i))")
  case None
  then show ?thesis by (intro handler_ends [OF assms, of "textResult True (NotRunning sv)"]) simp
next
  case (Some k)
  then have "tool_move (Inl []) (TSess sv tool args i) s = Some (Tooling (TSend sv tool args i k))" by simp
  then show ?thesis by (rule handler_go [OF assms]) (rule reply_send, simp)
qed

lemma reply_look:
  assumes "calls s t = Tooling (TLook sv tool args)"
  shows "can_reply ops t s"
proof (cases "table s sv")
  case None
  then show ?thesis by (intro handler_ends [OF assms, of "textResult True (NotFound sv)"]) simp
next
  case (Some i)
  then have "tool_move (Inl []) (TLook sv tool args) s = Some (Tooling (TSess sv tool args i))" by simp
  then show ?thesis by (rule handler_go [OF assms]) (rule reply_sess, simp)
qed

lemma reply_handler: "calls s t = Tooling tp \<Longrightarrow> can_reply ops t s"
  by (cases tp) (simp_all add: reply_look reply_sess reply_send)

lemma reply_forwarded: "calls s t = Forwarded r \<Longrightarrow> can_reply ops t s"
  unfolding can_reply_def by (intro exI [of _ "[]"] exI [of _ s]) simp

lemma all_reply:
  assumes r: "preach ops s" and c: "calls s t \<noteq> Idle"
  shows "can_reply ops t s"
proof (cases "calls s t")
  case Idle
  with c show ?thesis by simp
next
  case (AddEnter input)
  with r show ?thesis by (rule reply_enter)
next
  case (AddStart n i)
  with r show ?thesis by (rule reply_start)
next
  case (RelEnter n)
  with r show ?thesis by (rule reply_reload)
next
  case (RemEnter n k)
  with r show ?thesis by (rule reply_remove)
next
  case (RemRead n i k)
  with r show ?thesis by (rule reply_read)
next
  case (RemDrop ns n i k)
  with r show ?thesis by (rule reply_drop)
next
  case (RemStop n i k)
  with r show ?thesis by (rule reply_stop)
next
  case (AddFail n err)
  with r show ?thesis by (rule reply_fail)
next
  case (AddCheck n i ts)
  with r show ?thesis by (rule reply_check)
next
  case (AddGone n)
  with r show ?thesis by (rule reply_gone)
next
  case ListEnter
  with r show ?thesis by (rule reply_list)
next
  case ShutEnter
  with r show ?thesis by (rule reply_shut_enter)
next
  case (ShutStop js)
  with r show ?thesis by (rule reply_shut)
qed (rule reply_reg reply_listing reply_handler can_reply_replied reply_forwarded reply_shut_done, assumption)+

end

end
