(* ===== verification/ProxyRaces.thy ===== *)
theory ProxyRaces
  imports ProxyLive
begin

text \<open>
  The properties of the proxy under concurrent calls (\<open>proxy.go\<close>): what every schedule
  keeps, that every call returns, and two races.
\<close>

section \<open>Sample runs\<close>

definition race_input :: addServerInput where
  "race_input = \<lparr>in_Name = ''srv'', in_Command = ''echoserver'', in_Args = [], in_Env = [], in_Cwd = []\<rparr>"

lemma race_name: "ValidateServerName ''srv'' = None"
  by (simp add: ValidateServerName_None sublist_code)

text \<open>A call \<open>t\<close> adds a server, up to the check of its status; and its registration.\<close>

definition add_to_check :: "nat \<Rightarrow> paction list" where
  "add_to_check t = [PCall t (ReqAdd race_input), PMove t] @
     map (PStart t) [Go, Connected 7, Go, Listed [sample_tool], Clock 5, Go, Go, Go] @ [PMove t, PMove t]"

definition register_acts :: "nat \<Rightarrow> paction list" where
  "register_acts t = [PMove t, PMove t]"

text \<open>An addition that has reserved the name and not yet called \<open>Start\<close> is overtaken by a
  removal and by a second addition.\<close>

definition overtaken_acts :: "paction list" where
  "overtaken_acts =
     [PCall 1 (ReqAdd race_input), PMove 1,
      PCall 2 (ReqRemove ''srv''), PMove 2, PMove 2,
      PStop 2 False, PStop 2 False, PStop 2 False, PStop 2 False, PMove 2,
      PStart 1 Go, PStart 1 Go] @
     add_to_check 3 @ register_acts 3 @ [PMove 1, PMove 1]"

text \<open>A child that dies after the check of its status and before its tools are registered.\<close>

definition late_crash_acts :: "paction list" where
  "late_crash_acts =
     add_to_check 1 @ [PMon 0, PDie 0, PMon 0, PMon 0, PMon 0, PCrash 0, PCrash 0, PCrash 0] @ register_acts 1"

definition pafter :: "paction list \<Rightarrow> (gostring \<rightharpoonup> entry) psys" where
  "pafter as = the (prun map_server as (init_psys map_server))"

lemmas psys_simps =
  pafter_def init_psys_def init_sys_def NewChild_def section_defs add_to_check_def register_acts_def
  overtaken_acts_def late_crash_acts_def enter_def race_input_def race_name kid_step_def mon_step_def
  cfg_of_def kid_name_def tool_names_def after_remove_def

lemma overtaken_run: "prun map_server overtaken_acts (init_psys map_server) \<noteq> None"
  by (simp add: psys_simps sample_tool_def)

lemma late_crash_run: "prun map_server late_crash_acts (init_psys map_server) \<noteq> None"
  by (simp add: psys_simps sample_tool_def)

lemma overtaken_end:
  "calls (pafter overtaken_acts) 1 = Replied (textResult True (FailedToStart ''srv'' (CannotStart ''srv'' StatusStopped)))"
  "calls (pafter overtaken_acts) 2 = Replied (textResult False (Removed ''srv''))"
  "calls (pafter overtaken_acts) 3 = Replied (textResult False (Added ''srv'' [''srv__echo'']))"
  "t \<notin> {1, 2, 3} \<Longrightarrow> calls (pafter overtaken_acts) t = Idle"
  "table (pafter overtaken_acts) = Map.empty"
  "status (child (kids (pafter overtaken_acts) 1)) = StatusRunning"
  "open_sessions (kids (pafter overtaken_acts) 1) = {1}"
  by (auto simp: psys_simps sample_tool_def PrefixTool_def namespaceSep_def)

lemma overtaken_tool:
  "lookupTool map_server (registry (pafter overtaken_acts)) ''srv__echo'' =
     Some (export_tool ''srv'' sample_tool, ProxyTool ''srv'' ''echo'')"
  by (simp add: psys_simps sample_tool_def PrefixTool_def namespaceSep_def map_server_def export_tool_def)

lemma late_crash_end:
  "calls (pafter late_crash_acts) 1 = Replied (textResult False (Added ''srv'' [''srv__echo'']))"
  "t \<noteq> 1 \<Longrightarrow> calls (pafter late_crash_acts) t = Idle"
  "crashers (pafter late_crash_acts) 0 = KDone"
  "status (child (kids (pafter late_crash_acts) 0)) = StatusCrashed"
  by (simp_all add: psys_simps sample_tool_def PrefixTool_def namespaceSep_def)

lemma late_crash_tool:
  "lookupTool map_server (registry (pafter late_crash_acts)) ''srv__echo'' =
     Some (export_tool ''srv'' sample_tool, ProxyTool ''srv'' ''echo'')"
  by (simp add: psys_simps sample_tool_def PrefixTool_def namespaceSep_def map_server_def export_tool_def)

lemma pafter_reach:
  assumes "prun map_server as (init_psys map_server) \<noteq> None"
  shows "preach map_server (pafter as)"
  using assms preach_run [OF preach.init, of map_server as] by (auto simp: pafter_def)

section \<open>Every schedule\<close>

text \<open>C8. The registry is well typed under every schedule of concurrent calls, children and
  crash callbacks: a name without separator is one of the four management tools with its own
  handler, always there; any other registered name is the export of a tool under a valid server
  name, its handler forwards to that server and that tool, and the tool carries that name.\<close>

theorem registry_typed:
  assumes "mcp_server ops" and "preach ops s"
  shows "(\<not> strings_Contains n namespaceSep \<longrightarrow> lookupTool ops (registry s) n = mgmt_entries n) \<and>
     (strings_Contains n namespaceSep \<and> lookupTool ops (registry s) n = Some (x, h) \<longrightarrow>
        (\<exists>srv t. ValidateServerName srv = None \<and> SplitTool n = (srv, t, True) \<and>
           h = ProxyTool srv t \<and> tool_Name x = n))"
proof -
  have "registry_ok (lookupTool ops (registry s))"
    using mcp_server.threads_inv_reach [OF assms] by (simp add: threads_inv_def)
  note reg = this [unfolded registry_ok_def has_sep_def]
  have "\<exists>srv t. ValidateServerName srv = None \<and> SplitTool n = (srv, t, True) \<and>
      h = ProxyTool srv t \<and> tool_Name x = n"
    if "sublist ''__'' n" "lookupTool ops (registry s) n = Some (x, h)"
  proof -
    from reg that have "typed_entry n (x, h)" by blast
    then obtain srv y where "valid_name srv" "n = PrefixTool srv (tool_Name y)"
      "x = export_tool srv y" "h = ProxyTool srv (tool_Name y)" by (auto simp: typed_entry_def)
    then show ?thesis
      by (intro exI [of _ srv] exI [of _ "tool_Name y"]) (simp add: ns.dec_enc export_tool_def)
  qed
  with reg show ?thesis by (simp add: strings_Contains_sublist namespaceSep_def)
qed

lemma registry_typed_witness:
  "lookupTool map_server (registry (pafter overtaken_acts)) ''add_server'' = mgmt_entries ''add_server''"
proof -
  have "\<not> strings_Contains ''add_server'' namespaceSep"
    by (simp add: strings_Contains_sublist namespaceSep_def sublist_code)
  then show ?thesis
    using registry_typed [OF ms.mcp_server_axioms pafter_reach [OF overtaken_run]] by blast
qed

text \<open>Every concurrent call returns: from every reachable state, a call that has begun, of
  any handler, of a tool or of \<open>Shutdown\<close>, can be run to its reply, whatever the other calls,
  the children and the crash callbacks have done; no call waits for ever for another one, nor
  for the lock that \<open>list_servers\<close> holds over its loop.\<close>

theorem proxy_call_returns:
  assumes "mcp_server ops" and "preach ops s" and "calls s t \<noteq> Idle"
  shows "\<exists>as s'. prun ops as s = Some s' \<and> ((\<exists>r. calls s' t = Replied r) \<or> (\<exists>x. calls s' t = Forwarded x) \<or> calls s' t = ShutDone)"
  using mcp_server.all_reply [OF assms] by (auto simp: can_reply_def)

lemma proxy_call_returns_witness:
  "\<exists>as s'. prun map_server as (pafter (take 6 overtaken_acts)) = Some s' \<and>
     ((\<exists>r. calls s' 2 = Replied r) \<or> (\<exists>x. calls s' 2 = Forwarded x) \<or> calls s' 2 = ShutDone)"
proof -
  have r: "prun map_server (take 6 overtaken_acts) (init_psys map_server) \<noteq> None"
    and c: "calls (pafter (take 6 overtaken_acts)) 2 \<noteq> Idle"
    by (simp_all add: psys_simps)
  show ?thesis by (rule proxy_call_returns [OF ms.mcp_server_axioms pafter_reach [OF r] c])
qed



section \<open>Races\<close>

text \<open>C26. A failed addition may drop another call's server: the table entry is deleted by name,
  so there is a schedule after which all calls have replied, the last addition with success,
  and its child is running with an open session and registered tools, but is not in the
  table, where \<open>remove_server\<close> and \<open>Shutdown\<close> would look for it.\<close>

theorem failed_add_drops_other:
  "\<exists>s. preach map_server s \<and> table s = Map.empty \<and>
     (\<forall>t. calls s t = Idle \<or> (\<exists>r. calls s t = Replied r)) \<and>
     calls s 3 = Replied (textResult False (Added ''srv'' [''srv__echo''])) \<and>
     status (child (kids s 1)) = StatusRunning \<and> open_sessions (kids s 1) \<noteq> {} \<and>
     lookupTool map_server (registry s) ''srv__echo'' \<noteq> None"
proof (intro exI [of _ "pafter overtaken_acts"] conjI allI)
  show "calls (pafter overtaken_acts) t = Idle \<or> (\<exists>r. calls (pafter overtaken_acts) t = Replied r)" for t
    using overtaken_end(1-4) by (cases "t \<in> {1, 2, 3}") auto
qed (simp_all add: pafter_reach overtaken_run overtaken_end overtaken_tool del: One_nat_def)

text \<open>C27. The status check of \<open>add_server\<close> does not hold until the tools are registered: there
  is a schedule after which every call and every crash callback is over, the server has
  crashed, and its tool is registered all the same.\<close>

theorem crash_leaves_stale_tools:
  "\<exists>s. preach map_server s \<and> (\<forall>t. calls s t = Idle \<or> (\<exists>r. calls s t = Replied r)) \<and>
     status (child (kids s 0)) = StatusCrashed \<and> crashers s 0 = KDone \<and>
     lookupTool map_server (registry s) ''srv__echo'' \<noteq> None"
proof (intro exI [of _ "pafter late_crash_acts"] conjI allI)
  show "calls (pafter late_crash_acts) t = Idle \<or> (\<exists>r. calls (pafter late_crash_acts) t = Replied r)" for t
    using late_crash_end(1,2) by (cases "t = 1") auto
qed (simp_all add: pafter_reach late_crash_run late_crash_end late_crash_tool)

text \<open>An addition that is in flight when \<open>main\<close> calls \<open>Shutdown\<close>.\<close>

definition late_add_acts :: "paction list" where
  "late_add_acts = [PCall 2 ReqShutdown, PShut 2 [], PMove 2] @ add_to_check 1 @ register_acts 1"

lemma late_add_run: "prun map_server late_add_acts (init_psys map_server) \<noteq> None"
  by (simp add: psys_simps late_add_acts_def shut_move_def sample_tool_def)

lemma late_add_end:
  "calls (pafter late_add_acts) 2 = ShutDone"
  "calls (pafter late_add_acts) 1 = Replied (textResult False (Added ''srv'' [''srv__echo'']))"
  "status (child (kids (pafter late_add_acts) 0)) = StatusRunning"
  "open_sessions (kids (pafter late_add_acts) 0) \<noteq> {}"
  by (simp_all add: psys_simps late_add_acts_def shut_move_def sample_tool_def PrefixTool_def namespaceSep_def)

text \<open>\<open>Shutdown\<close> does not refuse what comes after it: there is a schedule after which it has
  returned, and a server added later is running with an open session.\<close>

theorem add_outlives_shutdown:
  "\<exists>s. preach map_server s \<and> calls s 2 = ShutDone \<and>
     calls s 1 = Replied (textResult False (Added ''srv'' [''srv__echo''])) \<and>
     status (child (kids s 0)) = StatusRunning \<and> open_sessions (kids s 0) \<noteq> {}"
  using late_add_end pafter_reach [OF late_add_run] by blast

end
