(* ===== verification/ProxyRefine.thy ===== *)
theory ProxyRefine
  imports ProxySpec
begin

text \<open>
  Every handler of the proxy (\<open>proxy.go\<close>) keeps \<open>proxy_inv\<close> and refines the abstract
  operation of \<open>ProxySpec\<close>.
\<close>

section \<open>Frame\<close>

lemma inv_child: "proxy_inv ops p \<Longrightarrow> children p name = Some i \<Longrightarrow> child_ok p name i"
  by (simp add: proxy_inv_def)

lemma inv_fresh:
  assumes "proxy_inv ops p" and "next_child p \<le> i"
  shows "children p n \<noteq> Some i" and "i \<notin> live p"
proof -
  show "children p n \<noteq> Some i"
    using inv_child [OF assms(1), of n i] assms(2) by (auto simp: child_ok_def)
  have "\<forall>j \<in> live p. j < next_child p" using assms(1) by (simp add: proxy_inv_def)
  then show "i \<notin> live p" using assms(2) by auto
qed

lemma inv_unique:
  assumes "proxy_inv ops p" and "children p n = Some i" and "children p m = Some i"
  shows "n = m"
  using inv_child [OF assms(1,2)] inv_child [OF assms(1,3)] by (simp add: child_ok_def)

lemma abs_heap_upd:
  assumes "\<And>n. children p n \<noteq> Some i"
  shows "abs_proxy (p\<lparr>heap := (heap p)(i := c)\<rparr>) = abs_proxy p"
  using assms by (auto simp: abs_proxy_def fun_eq_iff intro!: option.map_cong0)

section \<open>A child exits\<close>

context mcp_server
begin

lemma child_exits_not_running:
  "status (heap p i) \<noteq> StatusRunning \<Longrightarrow> child_exits ops name i p = p"
  by (simp add: child_exits_def monitor_exit_def Let_def)

lemma child_exits_running:
  assumes inv: "proxy_inv ops p" and run: "status (heap p i) = StatusRunning"
    and name: "name = cfg_Name (Config (heap p i))"
  defines "p' \<equiv> child_exits ops name i p"
  shows "proxy_inv ops p' \<and> abs_proxy p' = spec_crash name (abs_proxy p)"
proof -
  have ch: "children p name = Some i" using inv run name by (simp add: proxy_inv_def)
  then have ok: "child_ok p name i" by (rule inv_child [OF inv])
  define c where "c = (heap p i)\<lparr>status := StatusCrashed\<rparr>"
  have p': "p' = p\<lparr>heap := (heap p)(i := c),
      server := removeToolsForChild ops c name (server p)\<rparr>"
    using ok ch run by (simp add: p'_def child_exits_def monitor_exit_def handleCrash_def c_def child_ok_def Let_def)
  have other: "children p n = Some j \<Longrightarrow> n \<noteq> name \<Longrightarrow> j \<noteq> i" for n j
    using inv_unique [OF inv ch] by auto
  have a: "abs_proxy p name = Some (abs_child (heap p i))" using ch by (simp add: abs_proxy_def)
  have abs: "abs_proxy p' = (abs_proxy p)(name := Some ((abs_child (heap p i))\<lparr>a_running := False\<rparr>))"
  proof (rule abs_proxy_eqI)
    show "map_option (\<lambda>i. abs_child (heap p' i)) (children p' n) = abs_proxy p n" if "n \<noteq> name" for n
      using other that by (auto simp: p' abs_proxy_def intro!: option.map_cong0)
    show "map_option (\<lambda>i. abs_child (heap p' i)) (children p' name) =
        Some ((abs_child (heap p i))\<lparr>a_running := False\<rparr>)"
      using ch by (simp add: p' c_def abs_child_def)
  qed
  have "valid_name name" using ok by (simp add: child_ok_def)
  then have "visible (abs_proxy p') = visible (abs_proxy p) |` (- PrefixTool name ` tool_Name ` set (tools c))"
    unfolding abs by (subst visible_hide [where a = "abs_proxy p" and s = name, OF _ a]) (simp_all add: abs_child_def c_def)
  then have "lookupTool ops (server p') = visible (abs_proxy p')"
    using inv by (simp add: p' lookup_removeToolsForChild proxy_inv_def)
  moreover have "child_ok p' n j" if "children p' n = Some j" for n j
    using inv_child [OF inv, of n j] that by (auto simp: p' child_ok_def c_def)
  moreover have "children p' (cfg_Name (Config (heap p' j))) = Some j"
    if "status (heap p' j) = StatusRunning" for j
    using inv that by (auto simp: p' proxy_inv_def c_def split: if_splits)
  moreover have "j < next_child p' \<and> (children p' (cfg_Name (Config (heap p' j))) = Some j \<or>
      status (heap p' j) = StatusCrashed)" if "j \<in> live p'" for j
    using inv that by (auto simp: p' proxy_inv_def c_def)
  ultimately have "proxy_inv ops p'" by (simp add: proxy_inv_def)
  with abs a show ?thesis by (simp add: spec_crash_def)
qed

end

section \<open>remove_server\<close>

context mcp_server
begin

lemma handleRemoveServer_eq:
  assumes "children p name = Some i" and "child_ok p name i"
  shows "handleRemoveServer ops name p =
     (textResult False (Removed name),
      p\<lparr>server := removeToolsForChild ops (heap p i) name (server p),
        children := (children p)(name := None),
        heap := (heap p)(i := stop_enter (heap p i)), live := live p - {i}\<rparr>)"
  using assms by (simp add: handleRemoveServer_def forget_def stop_child_def Let_def child_ok_def
      child_Stop_running)

lemma handleRemoveServer_refines:
  assumes inv: "proxy_inv ops p" and ch: "children p name = Some i"
  defines "p' \<equiv> snd (handleRemoveServer ops name p)"
  shows "proxy_inv ops p' \<and> abs_proxy p' = spec_remove name (abs_proxy p)"
proof -
  have ok: "child_ok p name i" by (rule inv_child [OF inv ch])
  note p' = p'_def [unfolded handleRemoveServer_eq [OF ch ok], simplified]
  have other: "children p n = Some j \<Longrightarrow> n \<noteq> name \<Longrightarrow> j \<noteq> i" for n j
    using inv_unique [OF inv ch] by auto
  have a: "abs_proxy p name = Some (abs_child (heap p i))" using ch by (simp add: abs_proxy_def)
  have abs: "abs_proxy p' = (abs_proxy p)(name := None)"
  proof (rule abs_proxy_eqI)
    show "map_option (\<lambda>i. abs_child (heap p' i)) (children p' n) = abs_proxy p n" if "n \<noteq> name" for n
      using other that by (auto simp: p' abs_proxy_def intro!: option.map_cong0)
    show "map_option (\<lambda>i. abs_child (heap p' i)) (children p' name) = None" by (simp add: p')
  qed
  have "valid_name name" using ok by (simp add: child_ok_def)
  then have "visible (abs_proxy p') = visible (abs_proxy p) |` (- PrefixTool name ` tool_Name ` set (tools (heap p i)))"
    unfolding abs by (subst visible_hide [where a = "abs_proxy p" and s = name, OF _ a]) (simp_all add: abs_child_def)
  then have "lookupTool ops (server p') = visible (abs_proxy p')"
    using inv by (simp add: p' lookup_removeToolsForChild proxy_inv_def)
  moreover have "child_ok p' n j" if "children p' n = Some j" for n j
    using inv_child [OF inv, of n j] other [of n j] that by (auto simp: p' child_ok_def split: if_splits)
  moreover have "children p' (cfg_Name (Config (heap p' j))) = Some j"
    if "status (heap p' j) = StatusRunning" for j
  proof -
    have j: "j \<noteq> i" using that by (auto simp: p' stop_enter_def split: if_splits)
    with that have "children p (cfg_Name (Config (heap p j))) = Some j"
      using inv by (simp add: p' proxy_inv_def)
    with j ch show ?thesis by (auto simp: p')
  qed
  moreover have "j < next_child p' \<and> (children p' (cfg_Name (Config (heap p' j))) = Some j \<or>
      status (heap p' j) = StatusCrashed)" if "j \<in> live p'" for j
    using inv ch that by (auto simp: p' proxy_inv_def)
  ultimately have "proxy_inv ops p'" by (simp add: proxy_inv_def)
  with abs show ?thesis by (simp add: spec_remove_def)
qed

end

section \<open>add_server\<close>

text \<open>A child that was allocated and given up again changes nothing a client can see.\<close>

lemma inv_given_up:
  assumes inv: "proxy_inv ops p" and c: "status c \<noteq> StatusRunning"
    and L: "L = live p \<or> L = insert (next_child p) (live p) \<and> status c = StatusCrashed"
    and r: "lookupTool ops r = lookupTool ops (server p)"
  defines "p' \<equiv> p\<lparr>server := r, heap := (heap p)(next_child p := c), next_child := Suc (next_child p), live := L\<rparr>"
  shows "proxy_inv ops p' \<and> abs_proxy p' = abs_proxy p"
proof -
  have fresh: "children p n \<noteq> Some (next_child p)" for n
    by (rule inv_fresh [OF inv]) simp
  have new: "next_child p \<notin> live p" by (rule inv_fresh [OF inv]) simp
  have abs: "abs_proxy p' = abs_proxy p"
    using fresh by (auto simp: p'_def abs_proxy_def fun_eq_iff intro!: option.map_cong0)
  have "child_ok p' n j" if "children p' n = Some j" for n j
    using inv_child [OF inv, of n j] that fresh [of n] L by (auto simp: p'_def child_ok_def)
  moreover have "children p' (cfg_Name (Config (heap p' j))) = Some j"
    if "status (heap p' j) = StatusRunning" for j
  proof -
    have "j \<noteq> next_child p" using that c by (auto simp: p'_def)
    with that show ?thesis using inv by (simp add: p'_def proxy_inv_def)
  qed
  moreover have "j < next_child p' \<and> (children p' (cfg_Name (Config (heap p' j))) = Some j \<or>
      status (heap p' j) = StatusCrashed)" if "j \<in> live p'" for j
  proof (cases "j = next_child p")
    case True
    with that L new show ?thesis by (auto simp: p'_def)
  next
    case False
    with that L have "j \<in> live p" by (auto simp: p'_def)
    with False inv show ?thesis by (auto simp: p'_def proxy_inv_def less_Suc_eq)
  qed
  moreover have "lookupTool ops (server p') = visible (abs_proxy p')"
    using inv by (simp add: abs) (simp add: p'_def proxy_inv_def r)
  ultimately show ?thesis using abs by (simp add: proxy_inv_def)
qed

context mcp_server
begin

lemma inv_added:
  assumes inv: "proxy_inv ops p" and v: "valid_name name" and free: "children p name = None"
    and c: "status c = StatusRunning" "session c = Some (next_child p)" "onCrash c" "cfg_Name (Config c) = name"
  defines "p' \<equiv> p\<lparr>server := registerTools ops name (tools c) (server p),
      children := (children p)(name \<mapsto> next_child p), heap := (heap p)(next_child p := c),
      next_child := Suc (next_child p), live := insert (next_child p) (live p)\<rparr>"
  shows "proxy_inv ops p' \<and> abs_proxy p' = (abs_proxy p)(name \<mapsto> abs_child c)"
proof -
  have fresh: "children p n \<noteq> Some (next_child p)" for n
    by (rule inv_fresh [OF inv]) simp
  have abs: "abs_proxy p' = (abs_proxy p)(name \<mapsto> abs_child c)"
    using fresh by (auto simp: p'_def abs_proxy_def fun_eq_iff intro!: option.map_cong0)
  have a: "abs_proxy p name = None" using free by (simp add: abs_proxy_def)
  have "visible (abs_proxy p') = visible (abs_proxy p) ++ exported name (tools c)"
    using visible_add [where a = "abs_proxy p", OF v a] c(1) by (simp add: abs abs_child_def)
  then have "lookupTool ops (server p') = visible (abs_proxy p')"
    using inv by (simp add: p'_def lookup_registerTools proxy_inv_def)
  moreover have "child_ok p' n j" if "children p' n = Some j" for n j
  proof (cases "n = name")
    case True
    with that c v show ?thesis by (simp add: p'_def child_ok_def)
  next
    case False
    with that have j: "children p n = Some j" by (simp add: p'_def)
    with fresh [of n] inv_child [OF inv j] show ?thesis by (auto simp: p'_def child_ok_def)
  qed
  moreover have "children p' (cfg_Name (Config (heap p' j))) = Some j"
    if "status (heap p' j) = StatusRunning" for j
  proof (cases "j = next_child p")
    case True
    then show ?thesis using c by (simp add: p'_def)
  next
    case False
    with that have "children p (cfg_Name (Config (heap p j))) = Some j"
      using inv by (simp add: p'_def proxy_inv_def)
    with False free show ?thesis by (auto simp: p'_def)
  qed
  moreover have "j < next_child p' \<and> (children p' (cfg_Name (Config (heap p' j))) = Some j \<or>
      status (heap p' j) = StatusCrashed)" if "j \<in> live p'" for j
  proof (cases "j = next_child p")
    case True
    then show ?thesis using c by (simp add: p'_def)
  next
    case False
    with that have "j \<in> live p" by (simp add: p'_def)
    then have "j < next_child p" "children p (cfg_Name (Config (heap p j))) = Some j \<or> status (heap p j) = StatusCrashed"
      using inv by (auto simp: proxy_inv_def)
    with False free show ?thesis by (auto simp: p'_def)
  qed
  ultimately show ?thesis using abs by (simp add: proxy_inv_def)
qed

end

lemma add_reserve_ok:
  "valid_name (in_Name input) \<Longrightarrow> children p (in_Name input) = None \<Longrightarrow>
     add_reserve input p =
       Inr (next_child p, p\<lparr>children := (children p)(in_Name input \<mapsto> next_child p),
         heap := (heap p)(next_child p := NewChild (config_of input) True),
         next_child := Suc (next_child p)\<rparr>)"
  by (simp add: add_reserve_def config_of_def Let_def)

text \<open>The three ways an \<open>add_server\<close> call goes once the name is reserved.\<close>

datatype add_outcome = Failed child_error | Died | Registered "Tool list"

definition outcome_reply :: "addServerInput \<Rightarrow> add_outcome \<Rightarrow> reply" where
  "outcome_reply input x =
     (case x of
        Failed err \<Rightarrow> textResult True (FailedToStart (in_Name input) err)
      | Died \<Rightarrow> textResult True (ExitedImmediately (in_Name input))
      | Registered ts \<Rightarrow>
          textResult False (Added (in_Name input) (map (\<lambda>t. PrefixTool (in_Name input) (tool_Name t)) ts)))"

definition outcome_ok :: "add_env \<Rightarrow> add_outcome \<Rightarrow> bool" where
  "outcome_ok e x =
     (case start_result (ae_start e) of
        None \<Rightarrow> (\<exists>err. x = Failed err)
      | Some ts \<Rightarrow> x = (if ae_dies e then Died else Registered ts))"

context mcp_server
begin

lemma handleAddServer_ok:
  assumes inv: "proxy_inv ops p" and v: "valid_name (in_Name input)"
    and free: "children p (in_Name input) = None"
    and h: "handleAddServer ops e input p = Some (r, p')"
  shows "\<exists>x. outcome_ok e x \<and> r = outcome_reply input x \<and> proxy_inv ops p' \<and>
     abs_proxy p' = spec_add e input (abs_proxy p) \<and>
     live p' = (if \<exists>err. x = Failed err then live p else insert (next_child p) (live p)) \<and>
     next_child p' = Suc (next_child p) \<and>
     children p' = (if \<exists>ts. x = Registered ts then (children p)(in_Name input \<mapsto> next_child p) else children p)"
proof -
  let ?n = "in_Name input" and ?i = "next_child p" and ?e = "ae_start e"
  have a: "abs_proxy p ?n = None" using free by (simp add: abs_proxy_def)
  have new: "?i \<notin> live p" by (rule inv_fresh [OF inv]) simp
  have undo: "(children p)(?n := None) = children p" using free by auto
  obtain res c closed where st: "child_Start ?i ?e (NewChild (config_of input) True) = Some (res, c, closed)"
    using h by (cases "child_Start ?i ?e (NewChild (config_of input) True)")
      (auto simp: handleAddServer_def add_reserve_ok v free)
  note sn = child_Start_new [OF st]
  show ?thesis
  proof (cases "start_result ?e")
    case None
    with sn obtain err where res: "res = Inl err" and c: "status c \<noteq> StatusRunning"
      and L: "closed = (if isl (env_connect ?e) then [] else [?i])"
      by (cases res) auto
    have p': "r = outcome_reply input (Failed err)"
      "p' = p\<lparr>server := server p, heap := (heap p)(?i := c), next_child := Suc ?i, live := live p\<rparr>"
      using h L new by (cases "isl (env_connect ?e)"; auto simp: handleAddServer_def add_reserve_ok
          v free st res after_start_def forget_def undo Let_def outcome_reply_def)+
    have "proxy_inv ops p' \<and> abs_proxy p' = abs_proxy p"
      unfolding p'(2) by (rule inv_given_up [OF inv c]) simp_all
    then show ?thesis
      using p' None by (intro exI [of _ "Failed err"]) (simp add: outcome_ok_def spec_add_def)
  next
    case (Some ts)
    with sn have res: "res = Inr ts" "closed = []" "\<not> isl (env_connect ?e)"
      and c: "status c = StatusRunning" "tools c = ts" "session c = Some ?i" "onCrash c"
        "Config c = config_of input"
      by auto
    show ?thesis
    proof (cases "ae_dies e")
      case True
      define c' where "c' = c\<lparr>status := StatusCrashed\<rparr>"
      have p': "r = outcome_reply input Died"
        "p' = p\<lparr>server := removeToolsForChild ops c' ?n (server p), heap := (heap p)(?i := c'),
           next_child := Suc ?i, live := insert ?i (live p)\<rparr>"
        using h True by (auto simp: handleAddServer_def add_reserve_ok v free st res after_start_def
            child_exits_def monitor_exit_def c c'_def handleCrash_def add_finish_def
            forget_def undo Let_def outcome_reply_def)
      have "visible (abs_proxy p) (PrefixTool ?n t) = None" for t
        using v a by (simp add: visible_PrefixTool visible_of_def)
      then have "lookupTool ops (removeToolsForChild ops c' ?n (server p)) = lookupTool ops (server p)"
        using inv by (auto simp: lookup_removeToolsForChild proxy_inv_def restrict_map_def fun_eq_iff)
      then have "proxy_inv ops p' \<and> abs_proxy p' = abs_proxy p"
        unfolding p'(2) by (intro inv_given_up [OF inv]) (simp_all add: c'_def)
      then show ?thesis
        using p' Some True by (intro exI [of _ Died]) (simp add: outcome_ok_def spec_add_def)
    next
      case False
      have p': "r = outcome_reply input (Registered ts)"
        "p' = p\<lparr>server := registerTools ops ?n (tools c) (server p),
           children := (children p)(?n \<mapsto> ?i), heap := (heap p)(?i := c),
           next_child := Suc ?i, live := insert ?i (live p)\<rparr>"
        using h False by (auto simp: handleAddServer_def add_reserve_ok v free st res after_start_def
            c add_finish_def Let_def outcome_reply_def)
      have "proxy_inv ops p' \<and> abs_proxy p' = (abs_proxy p)(?n \<mapsto> abs_child c)"
        unfolding p'(2) by (rule inv_added [OF inv v free]) (simp_all add: c config_of_def)
      moreover have "abs_child c = \<lparr>a_config = config_of input, a_running = True, a_tools = ts\<rparr>"
        by (simp add: abs_child_def c)
      ultimately show ?thesis
        using p' Some False v a by (intro exI [of _ "Registered ts"]) (simp add: outcome_ok_def spec_add_def)
    qed
  qed
qed

lemma handleAddServer_refused:
  assumes "\<not> valid_name (in_Name input) \<or> children p (in_Name input) \<noteq> None"
  shows "\<exists>t. handleAddServer ops e input p = Some (textResult True t, p) \<and>
     spec_add e input (abs_proxy p) = abs_proxy p"
  using assms
  by (auto simp: handleAddServer_def add_reserve_def spec_add_def abs_proxy_def split: option.splits)

lemma handleAddServer_inv:
  assumes "proxy_inv ops p" and "handleAddServer ops e input p = Some (r, p')"
  shows "proxy_inv ops p' \<and> abs_proxy p' = spec_add e input (abs_proxy p)"
proof (cases "valid_name (in_Name input) \<and> children p (in_Name input) = None")
  case True
  then show ?thesis using handleAddServer_ok [OF assms(1) _ _ assms(2)] by blast
next
  case False
  then show ?thesis using handleAddServer_refused [of input p e] assms by auto
qed

end

section \<open>reload_server, NewProxy, the other operations\<close>

context mcp_server
begin

lemma NewProxy_inv: "proxy_inv ops (NewProxy ops) \<and> abs_proxy (NewProxy ops) = Map.empty"
proof -
  have abs: "abs_proxy (NewProxy ops) = Map.empty"
    by (simp add: abs_proxy_def NewProxy_def fun_eq_iff)
  have sep: "\<not> sublist ''__'' n" if "n \<in> dom mgmt_entries" for n
    using that by (auto simp: mgmt_entries_def sublist_code split: if_splits)
  have "visible Map.empty n = mgmt_entries n" for n
  proof (cases "SplitTool n")
    case (fields s t ok)
    show ?thesis
    proof (cases ok)
      case True
      with fields have "sublist ''__'' n" by (simp add: SplitTool_True) (auto simp: sublist_def)
      with sep [of n] have "mgmt_entries n = None" by (meson domIff)
      with fields True show ?thesis by (simp add: visible_def visible_of_def)
    next
      case False
      with fields show ?thesis by (simp add: visible_def)
    qed
  qed
  then have "lookupTool ops (server (NewProxy ops)) = visible (abs_proxy (NewProxy ops))"
    by (simp add: abs) (simp add: NewProxy_def lookup_mgmt fun_eq_iff)
  then show ?thesis
    using abs by (simp add: proxy_inv_def) (simp add: NewProxy_def NewChild_def)
qed

lemma handleReloadServer_refines:
  assumes inv: "proxy_inv ops p" and h: "handleReloadServer ops e name p = Some (r, p')"
  shows "proxy_inv ops p' \<and> abs_proxy p' = spec_reload e name (abs_proxy p)"
proof (cases "children p name")
  case None
  with inv h show ?thesis
    by (simp add: handleReloadServer_def spec_reload_def abs_proxy_def)
next
  case (Some i)
  have ok: "child_ok p name i" by (rule inv_child [OF inv Some])
  obtain q where q: "handleRemoveServer ops name p = (textResult False (Removed name), q)"
    unfolding handleRemoveServer_eq [OF Some ok] by blast
  have add: "handleAddServer ops e (input_of (Config (heap p i))) q = Some (r, p')"
    using h Some by (simp add: handleReloadServer_def Let_def) (simp add: q textResult_def)
  have rem: "proxy_inv ops q" "abs_proxy q = spec_remove name (abs_proxy p)"
    using handleRemoveServer_refines [OF inv Some] by (simp_all add: q)
  have "abs_proxy p name = Some (abs_child (heap p i))" using Some by (simp add: abs_proxy_def)
  then show ?thesis
    using handleAddServer_inv [OF rem(1) add] by (simp add: spec_reload_def abs_child_def rem(2))
qed

end

lemma stop_all_live: "live (stop_all is p) = live p - {k. \<exists>i \<in> set is. session (heap p i) = Some k}"
  if "distinct is"
  using that
proof (induction "is" arbitrary: p)
  case (Cons i js)
  have l: "live (stop_child i p) = live p - {k. session (heap p i) = Some k}"
    by (auto simp: stop_child_def child_Stop_def section_defs)
  have "session (heap (stop_child i p) j) = session (heap p j)" if "j \<in> set js" for j
    using that Cons.prems by (auto simp: stop_child_def split: prod.splits)
  with Cons.IH [of "stop_child i p"] Cons.prems l show ?case by auto
qed simp

section \<open>Sequences of requests and exits\<close>

text \<open>What happens to a proxy: calls of its management tools, and the end of the
  session of the child that is registered under a name.\<close>

datatype event =
    Add add_env addServerInput
  | Remove gostring
  | Reload add_env gostring
  | ChildExit gostring

fun proxy_step :: "'r tool_server \<Rightarrow> event \<Rightarrow> 'r proxy \<Rightarrow> 'r proxy option" where
  "proxy_step ops (Add e input) p = map_option snd (handleAddServer ops e input p)"
| "proxy_step ops (Remove name) p = Some (snd (handleRemoveServer ops name p))"
| "proxy_step ops (Reload e name) p = map_option snd (handleReloadServer ops e name p)"
| "proxy_step ops (ChildExit name) p =
     Some (case children p name of None \<Rightarrow> p | Some i \<Rightarrow> child_exits ops name i p)"

fun proxy_run :: "'r tool_server \<Rightarrow> event list \<Rightarrow> 'r proxy \<Rightarrow> 'r proxy option" where
  "proxy_run ops [] p = Some p"
| "proxy_run ops (ev # evs) p =
     (case proxy_step ops ev p of None \<Rightarrow> None | Some p' \<Rightarrow> proxy_run ops evs p')"

fun spec_step :: "event \<Rightarrow> aproxy \<Rightarrow> aproxy" where
  "spec_step (Add e input) a = spec_add e input a"
| "spec_step (Remove name) a = spec_remove name a"
| "spec_step (Reload e name) a = spec_reload e name a"
| "spec_step (ChildExit name) a = spec_crash name a"

definition spec_run :: "event list \<Rightarrow> aproxy \<Rightarrow> aproxy" where
  "spec_run evs a = fold spec_step evs a"

lemma spec_crash_id:
  "(\<And>s. a name = Some s \<Longrightarrow> \<not> a_running s) \<Longrightarrow> spec_crash name a = a"
  by (cases "a name") (auto simp: spec_crash_def fun_eq_iff)

context mcp_server
begin

lemma proxy_step_refines:
  assumes inv: "proxy_inv ops p" and h: "proxy_step ops ev p = Some p'"
  shows "proxy_inv ops p' \<and> abs_proxy p' = spec_step ev (abs_proxy p)"
proof (cases ev)
  case (Add e input)
  with h handleAddServer_inv [OF inv] show ?thesis by auto
next
  case (Remove name)
  show ?thesis
  proof (cases "children p name")
    case None
    then have "abs_proxy p name = None" by (simp add: abs_proxy_def)
    then have "(abs_proxy p)(name := None) = abs_proxy p" by auto
    with None h Remove inv show ?thesis by (simp add: handleRemoveServer_def spec_remove_def)
  next
    case (Some i)
    with h Remove handleRemoveServer_refines [OF inv Some] show ?thesis by simp
  qed
next
  case (Reload e name)
  with h handleReloadServer_refines [OF inv] show ?thesis by auto
next
  case (ChildExit name)
  show ?thesis
  proof (cases "children p name")
    case None
    then have "abs_proxy p name = None" by (simp add: abs_proxy_def)
    then have "spec_crash name (abs_proxy p) = abs_proxy p" by (intro spec_crash_id) simp
    with None h ChildExit inv show ?thesis by simp
  next
    case (Some i)
    then have a: "abs_proxy p name = Some (abs_child (heap p i))" by (simp add: abs_proxy_def)
    have n: "name = cfg_Name (Config (heap p i))"
      using inv_child [OF inv Some] by (simp add: child_ok_def)
    show ?thesis
    proof (cases "status (heap p i) = StatusRunning")
      case True
      with h ChildExit Some child_exits_running [OF inv True n] show ?thesis by auto
    next
      case False
      then have "spec_crash name (abs_proxy p) = abs_proxy p"
        by (intro spec_crash_id) (auto simp: a abs_child_def)
      with False h ChildExit Some inv show ?thesis by (simp add: child_exits_not_running)
    qed
  qed
qed

lemma proxy_run_inv:
  assumes "proxy_inv ops p" and "proxy_run ops evs p = Some p'"
  shows "proxy_inv ops p' \<and> abs_proxy p' = spec_run evs (abs_proxy p)"
  using assms
proof (induction evs arbitrary: p)
  case Nil
  then show ?case by (simp add: spec_run_def)
next
  case (Cons ev evs)
  from Cons.prems(2) obtain q where q: "proxy_step ops ev p = Some q" "proxy_run ops evs q = Some p'"
    by (auto split: option.splits)
  from proxy_step_refines [OF Cons.prems(1) q(1)] Cons.IH [OF _ q(2)]
  show ?case by (simp add: spec_run_def)
qed

lemma run_new_inv:
  assumes "proxy_run ops evs (NewProxy ops) = Some p"
  shows "proxy_inv ops p" and "abs_proxy p = spec_run evs Map.empty"
  using proxy_run_inv [OF _ assms] NewProxy_inv by auto

end

section \<open>Sessions no table entry owns\<close>

definition orphan :: "nat \<Rightarrow> 'r proxy \<Rightarrow> bool" where
  "orphan k p \<longleftrightarrow> k < next_child p \<and> k \<in> live p \<and> (\<forall>n. children p n \<noteq> Some k)"

lemma child_exits_fields [simp]:
  "children (child_exits ops name i p) = children p" "live (child_exits ops name i p) = live p"
  "next_child (child_exits ops name i p) = next_child p"
  by (simp_all add: child_exits_def handleCrash_def Let_def split: prod.split)

context mcp_server
begin

lemma orphan_add:
  assumes inv: "proxy_inv ops p" and h: "handleAddServer ops e input p = Some (r, p')" and o: "orphan k p"
  shows "orphan k p'"
proof (cases "valid_name (in_Name input) \<and> children p (in_Name input) = None")
  case True
  then have "valid_name (in_Name input)" "children p (in_Name input) = None" by simp_all
  from handleAddServer_ok [OF inv this h] obtain x where
    "live p' = (if \<exists>err. x = Failed err then live p else insert (next_child p) (live p))"
    "next_child p' = Suc (next_child p)"
    "children p' = (if \<exists>ts. x = Registered ts then (children p)(in_Name input \<mapsto> next_child p) else children p)"
    by metis
  with o show ?thesis by (auto simp: orphan_def)
next
  case False
  with handleAddServer_refused [of input p e] h o show ?thesis by auto
qed

lemma orphan_remove:
  assumes "proxy_inv ops p" and "orphan k p"
  shows "orphan k (snd (handleRemoveServer ops name p))"
proof (cases "children p name")
  case None
  with assms(2) show ?thesis by (simp add: handleRemoveServer_def)
next
  case (Some i)
  with assms(2) show ?thesis
    by (auto simp: handleRemoveServer_eq [OF Some inv_child [OF assms(1) Some]] orphan_def)
qed

lemma orphan_step:
  assumes inv: "proxy_inv ops p" and h: "proxy_step ops ev p = Some p'" and o: "orphan k p"
  shows "orphan k p'"
proof (cases ev)
  case (Add e input)
  with h o show ?thesis by (auto intro: orphan_add [OF inv])
next
  case (Remove name)
  with h o show ?thesis by (auto intro: orphan_remove [OF inv])
next
  case (Reload e name)
  show ?thesis
  proof (cases "children p name")
    case None
    with h Reload o show ?thesis by (simp add: handleReloadServer_def)
  next
    case (Some i)
    obtain q where q: "handleRemoveServer ops name p = (textResult False (Removed name), q)"
      unfolding handleRemoveServer_eq [OF Some inv_child [OF inv Some]] by blast
    with h Reload Some obtain r where "handleAddServer ops e (input_of (Config (heap p i))) q = Some (r, p')"
      by (auto simp: handleReloadServer_def textResult_def)
    moreover have "proxy_inv ops q" using handleRemoveServer_refines [OF inv Some] by (simp add: q)
    moreover have "orphan k q" using orphan_remove [OF inv o, of name] by (simp add: q)
    ultimately show ?thesis using orphan_add by blast
  qed
next
  case (ChildExit name)
  with h o show ?thesis
    by (auto simp: orphan_def split: option.splits)
qed

lemma orphan_run:
  "proxy_inv ops p \<Longrightarrow> proxy_run ops evs p = Some p' \<Longrightarrow> orphan k p \<Longrightarrow> orphan k p'"
proof (induction evs arbitrary: p)
  case (Cons ev evs)
  then show ?case
    using proxy_step_refines [of p ev] orphan_step [of p ev]
    by (auto split: option.splits)
qed simp

end

section \<open>Shutdown\<close>

lemma stop_child_other: "j \<noteq> i \<Longrightarrow> heap (stop_child i p) j = heap p j"
  by (simp add: stop_child_def split: prod.split)

lemma stop_all_status:
  "i \<in> set is \<Longrightarrow> distinct is \<Longrightarrow> status (heap (stop_all is p) i) \<noteq> StatusRunning"
proof (induction "is" arbitrary: p)
  case (Cons j js)
  have keep: "status (heap (stop_all js q) j) = status (heap q j)" if "j \<notin> set js" for q :: "'a proxy"
    using that by (induction js arbitrary: q) (simp_all add: stop_child_other)
  show ?case
  proof (cases "i = j")
    case True
    have "status (heap (stop_child j p) j) \<noteq> StatusRunning"
      by (simp add: stop_child_def child_Stop_def section_defs split: prod.split)
    with True Cons.prems keep show ?thesis by simp
  next
    case False
    with Cons show ?thesis by simp
  qed
qed simp

lemma stop_all_status_other: "i \<notin> set is \<Longrightarrow> heap (stop_all is p) i = heap p i"
  by (induction "is" arbitrary: p) (simp_all add: stop_child_other)

lemma order_distinct:
  assumes "proxy_inv ops p" and "distinct order" and "set order \<subseteq> dom (children p)"
  shows "distinct (map (\<lambda>n. the (children p n)) order)"
  unfolding distinct_map
proof (intro conjI inj_onI)
  show "distinct order" by (rule assms(2))
  fix n m
  assume nm: "n \<in> set order" "m \<in> set order" "the (children p n) = the (children p m)"
  then obtain i where "children p n = Some i" "children p m = Some i"
    using assms(3) by (metis domD option.sel subset_iff)
  then show "n = m" by (rule inv_unique [OF assms(1)])
qed

lemma Shutdown_inv:
  assumes inv: "proxy_inv ops p" and o: "distinct order" "set order = dom (children p)"
  shows "live (Shutdown order p) = {k \<in> live p. \<forall>n. children p n \<noteq> Some k}"
    and "status (heap (Shutdown order p) i) \<noteq> StatusRunning"
proof -
  let ?is = "map (\<lambda>n. the (children p n)) order"
  have d: "distinct ?is" using order_distinct [OF inv o(1)] o(2) by simp
  have ran: "set ?is = {i. \<exists>n. children p n = Some i}"
    using o(2) by (auto simp: image_iff) (metis domI option.sel)
  have sess: "session (heap p i) = Some i" if "i \<in> set ?is" for i
    using that inv_child [OF inv] unfolding ran by (auto simp: child_ok_def)
  show "live (Shutdown order p) = {k \<in> live p. \<forall>n. children p n \<noteq> Some k}"
    unfolding Shutdown_def stop_all_live [OF d] using sess ran by auto
  show "status (heap (Shutdown order p) i) \<noteq> StatusRunning"
  proof (cases "i \<in> set ?is")
    case True
    then show ?thesis unfolding Shutdown_def by (rule stop_all_status [OF _ d])
  next
    case False
    then have "children p n \<noteq> Some i" for n using ran by auto
    then have "status (heap p i) \<noteq> StatusRunning" using inv by (auto simp: proxy_inv_def)
    with False show ?thesis unfolding Shutdown_def by (simp add: stop_all_status_other)
  qed
qed

end
