(* ===== verification/ProxyProps.thy ===== *)
theory ProxyProps
  imports ProxyRefine ChildSamples
begin

text \<open>
  The properties of the proxy (\<open>proxy.go\<close>), each from the refinement of
  \<open>ProxyRefine\<close>: they hold for every tool table that satisfies \<open>mcp_server\<close>, after
  every sequence of requests and exits that starts with \<open>NewProxy\<close>.
\<close>

section \<open>Sample runs\<close>

definition sample_input :: addServerInput where
  "sample_input = \<lparr>in_Name = ''srv'', in_Command = ''echoserver'', in_Args = [], in_Env = [], in_Cwd = []\<rparr>"

definition good_start :: add_env where
  "good_start = \<lparr>ae_start = sample_env, ae_dies = False\<rparr>"

definition bad_start :: add_env where
  "bad_start = \<lparr>ae_start = sample_env\<lparr>env_connect := Inl ''no such file''\<rparr>, ae_dies = False\<rparr>"

definition short_start :: add_env where
  "short_start = \<lparr>ae_start = sample_env, ae_dies = True\<rparr>"

lemma sample_starts:
  "discoverTools (env_list (ae_start good_start)) = Some (Inr [sample_tool])"
  "discoverTools (env_list (ae_start short_start)) = Some (Inr [sample_tool])"
  "env_connect (ae_start good_start) = Inr 7" "env_connect (ae_start short_start) = Inr 7"
  "env_connect (ae_start bad_start) = Inl ''no such file''"
  "\<not> env_ctx_err (ae_start good_start)" "\<not> env_ctx_err (ae_start bad_start)" "\<not> env_ctx_err (ae_start short_start)"
  "\<not> ae_dies good_start" "ae_dies short_start" "\<not> ae_dies bad_start"
  by (simp_all add: good_start_def short_start_def bad_start_def sample_env_simps)

lemma sample_name: "valid_name ''srv''" "in_Name sample_input = ''srv''"
  by (simp_all add: ValidateServerName_None sublist_code sample_input_def)

definition one_server :: "(gostring \<rightharpoonup> entry) proxy" where
  "one_server = the (proxy_run map_server [Add good_start sample_input] (NewProxy map_server))"

lemma one_server:
  "proxy_run map_server [Add good_start sample_input] (NewProxy map_server) = Some one_server"
  "children one_server ''srv'' = Some 0" "status (heap one_server 0) = StatusRunning"
  "tools (heap one_server 0) = [sample_tool]" "live one_server = {0}" "next_child one_server = 1"
  "children one_server = [''srv'' \<mapsto> 0]"
  by (simp_all add: one_server_def handleAddServer_def add_reserve_ok NewProxy_def sample_name
      child_Start_def child_start_def section_defs NewChild_def sample_starts after_start_def
      add_finish_def)

section \<open>The registry\<close>

text \<open>C1. The proxy refines its specification: after any sequence of requests and exits the
  table of servers is the one the abstract operations compute, and the MCP server's tools
  are exactly the four management tools and the tools of the running servers, each under
  its prefixed name.\<close>

theorem proxy_refines:
  assumes "mcp_server ops" and "proxy_run ops evs (NewProxy ops) = Some p"
  shows "abs_proxy p = spec_run evs Map.empty \<and>
         lookupTool ops (server p) = visible (spec_run evs Map.empty)"
  using mcp_server.run_new_inv [OF assms] by (simp add: proxy_inv_def)

lemma proxy_refines_witness:
  "\<exists>a. lookupTool map_server (server one_server) = visible a \<and> abs_proxy one_server = a \<and>
     a ''srv'' = Some \<lparr>a_config = config_of sample_input, a_running = True, a_tools = [sample_tool]\<rparr>"
proof -
  have "a ''srv'' = Some \<lparr>a_config = config_of sample_input, a_running = True, a_tools = [sample_tool]\<rparr>"
    if "a = spec_run [Add good_start sample_input] Map.empty" for a
    using that by (simp add: spec_run_def spec_add_def start_result_def sample_starts sample_name)
  with proxy_refines [OF ms.mcp_server_axioms one_server(1)] show ?thesis by blast
qed



text \<open>The management tools are never shadowed or removed: whatever servers were added,
  removed, reloaded or crashed, a name without the separator is registered exactly if it is
  one of the four, with its own handler.\<close>

theorem management_tools_fixed:
  assumes "mcp_server ops" and "proxy_run ops evs (NewProxy ops) = Some p"
    and "\<not> strings_Contains n namespaceSep"
  shows "lookupTool ops (server p) n = mgmt_entries n"
proof -
  have "SplitTool n = ([], n, False)"
    using assms(3) by (simp add: SplitTool_False strings_Contains_sublist namespaceSep_def)
  then show ?thesis
    using mcp_server.run_new_inv(1) [OF assms(1,2)] by (simp add: proxy_inv_def visible_def)
qed

lemma management_tools_fixed_witness:
  "map_option snd (lookupTool map_server (server one_server) ''remove_server'') = Some RemoveServer"
proof -
  have "\<not> strings_Contains ''remove_server'' namespaceSep"
    by (simp add: strings_Contains_sublist namespaceSep_def sublist_code)
  from management_tools_fixed [OF ms.mcp_server_axioms one_server(1) this]
  show ?thesis by (simp add: mgmt_entries_def)
qed

section \<open>The management tools\<close>

text \<open>C21. \<open>add_server\<close> on every branch: an invalid or used name is refused and nothing
  changes; a child that cannot start, or dies before the check of its status, is reported and
  the visible state is unchanged; otherwise the server is in the table with the given
  configuration and the discovered tools, and the reply lists their registered names.\<close>

theorem add_server_outcomes:
  assumes "mcp_server ops" and "proxy_run ops evs (NewProxy ops) = Some p"
    and "handleAddServer ops e input p = Some (r, p')"
  shows "isError r = (\<not> valid_name (in_Name input) \<or> children p (in_Name input) \<noteq> None \<or>
            start_result (ae_start e) = None \<or> ae_dies e) \<and>
     (if isError r
      then abs_proxy p' = abs_proxy p \<and> lookupTool ops (server p') = lookupTool ops (server p)
      else \<exists>ts. start_result (ae_start e) = Some ts \<and>
             content r = Added (in_Name input) (map (\<lambda>t. PrefixTool (in_Name input) (tool_Name t)) ts) \<and>
             abs_proxy p' = (abs_proxy p)(in_Name input \<mapsto>
                \<lparr>a_config = config_of input, a_running = True, a_tools = ts\<rparr>))"
proof -
  have inv: "proxy_inv ops p" by (rule mcp_server.run_new_inv(1) [OF assms(1,2)])
  have inv': "proxy_inv ops p'" and abs: "abs_proxy p' = spec_add e input (abs_proxy p)"
    using mcp_server.handleAddServer_inv [OF assms(1) inv assms(3)] by simp_all
  have reg: "abs_proxy p' = abs_proxy p \<Longrightarrow> lookupTool ops (server p') = lookupTool ops (server p)"
    using inv inv' by (simp add: proxy_inv_def)
  show ?thesis
  proof (cases "valid_name (in_Name input) \<and> children p (in_Name input) = None")
    case False
    then have "isError r \<and> p' = p"
      using mcp_server.handleAddServer_refused [OF assms(1), of input p e] assms(3)
      by (auto simp: textResult_def)
    with False show ?thesis by auto
  next
    case True
    then have free: "abs_proxy p (in_Name input) = None" by (simp add: abs_proxy_def)
    from True mcp_server.handleAddServer_ok [OF assms(1) inv _ _ assms(3)]
    obtain x where "outcome_ok e x" "r = outcome_reply input x" by blast
    then show ?thesis
      using True reg abs free
      by (cases "start_result (ae_start e)"; cases "ae_dies e")
        (auto simp: outcome_ok_def outcome_reply_def textResult_def spec_add_def)
  qed
qed

lemma add_server_outcomes_witness:
  "\<exists>r. handleAddServer map_server good_start sample_input one_server = Some (r, one_server) \<and> isError r"
proof -
  obtain r where r: "handleAddServer map_server good_start sample_input one_server = Some (r, one_server)"
    by (simp add: handleAddServer_def add_reserve_def sample_name one_server)
  from add_server_outcomes [OF ms.mcp_server_axioms one_server(1) r] r
  show ?thesis by (auto simp: sample_name one_server)
qed

text \<open>\<open>remove_server\<close> removes one server exactly: an unknown name is an error that
  changes nothing; otherwise the server leaves the table, every tool name that splits to it
  is unregistered, all other names keep their entries, its session is closed and no other
  session is.\<close>

theorem remove_server_exact:
  assumes "mcp_server ops" and "proxy_run ops evs (NewProxy ops) = Some p"
    and "handleRemoveServer ops name p = (r, p')"
  shows "(case children p name of
       None \<Rightarrow> r = textResult True (NotFound name) \<and> p' = p
     | Some i \<Rightarrow>
         r = textResult False (Removed name) \<and> children p' = (children p)(name := None) \<and>
         i \<in> live p \<and> live p' = live p - {i} \<and>
         (\<forall>n. lookupTool ops (server p') n =
            (case SplitTool n of (s, t, ok) \<Rightarrow>
               if ok \<and> s = name then None else lookupTool ops (server p) n)))"
proof (cases "children p name")
  case None
  with assms(3) show ?thesis by (simp add: handleRemoveServer_def)
next
  case (Some i)
  have inv: "proxy_inv ops p" by (rule mcp_server.run_new_inv(1) [OF assms(1,2)])
  have ok: "child_ok p name i" by (rule inv_child [OF inv Some])
  have p': "p' = snd (handleRemoveServer ops name p)" by (simp add: assms(3))
  have inv': "proxy_inv ops p'" and abs: "abs_proxy p' = (abs_proxy p)(name := None)"
    using mcp_server.handleRemoveServer_refines [OF assms(1) inv Some] by (simp_all add: p' spec_remove_def)
  have "lookupTool ops (server p') n = (case SplitTool n of (s, t, ok) \<Rightarrow>
      if ok \<and> s = name then None else lookupTool ops (server p) n)" for n
    using inv inv' by (simp add: proxy_inv_def abs)
      (auto simp: visible_def visible_of_def split: prod.splits)
  then show ?thesis
    using assms(3) ok Some by (auto simp: mcp_server.handleRemoveServer_eq [OF assms(1) Some ok] child_ok_def)
qed

lemma remove_server_exact_witness:
  "children (snd (handleRemoveServer map_server ''srv'' one_server)) = Map.empty \<and>
   live (snd (handleRemoveServer map_server ''srv'' one_server)) = {}"
proof -
  obtain r p' where h: "handleRemoveServer map_server ''srv'' one_server = (r, p')"
    by (cases "handleRemoveServer map_server ''srv'' one_server")
  from remove_server_exact [OF ms.mcp_server_axioms one_server(1) h] show ?thesis
    by (simp add: h one_server)
qed

text \<open>C22. \<open>reload_server\<close> is a removal and an addition with the configuration the server
  had: the old session is closed; if the new child starts, the server runs with the same
  configuration and the newly discovered tools; if it does not, the reply is the error of
  the addition and the server with its configuration is gone.\<close>

theorem reload_server_outcomes:
  assumes "mcp_server ops" and "proxy_run ops evs (NewProxy ops) = Some p"
    and "handleReloadServer ops e name p = Some (r, p')" and "children p name = Some i"
  shows "i \<notin> live p' \<and>
     isError r = (start_result (ae_start e) = None \<or> ae_dies e) \<and>
     abs_proxy p' = (abs_proxy p)(name :=
       (if isError r then None
        else Some \<lparr>a_config = Config (heap p i), a_running = True, a_tools = the (start_result (ae_start e))\<rparr>))"
proof -
  have inv: "proxy_inv ops p" by (rule mcp_server.run_new_inv(1) [OF assms(1,2)])
  have ok: "child_ok p name i" by (rule inv_child [OF inv assms(4)])
  let ?input = "input_of (Config (heap p i))"
  obtain q where q: "handleRemoveServer ops name p = (textResult False (Removed name), q)"
    and ch: "children q = (children p)(name := None)" and lv: "live q = live p - {i}"
    and nx: "next_child q = next_child p"
    using mcp_server.handleRemoveServer_eq [OF assms(1,4) ok] by auto
  have rem: "proxy_inv ops q" "abs_proxy q = (abs_proxy p)(name := None)"
    using mcp_server.handleRemoveServer_refines [OF assms(1) inv assms(4)]
    by (simp_all add: q spec_remove_def)
  have add: "handleAddServer ops e ?input q = Some (r, p')"
    using assms(3,4) by (simp add: handleReloadServer_def Let_def) (simp add: q textResult_def)
  have n: "in_Name ?input = name" "valid_name name" "i < next_child p" "config_of ?input = Config (heap p i)"
    using ok by (simp_all add: child_ok_def input_of_def config_of_def)
  from mcp_server.handleAddServer_ok [OF assms(1) rem(1) _ _ add] obtain x where
    x: "outcome_ok e x" "r = outcome_reply ?input x" "abs_proxy p' = spec_add e ?input (abs_proxy q)"
    "live p' = (if \<exists>err. x = Failed err then live q else insert (next_child q) (live q))"
    by (auto simp: n ch)
  have "i \<notin> live p'" using x(4) n(3) by (auto simp: lv nx split: if_splits)
  moreover have "isError r = (start_result (ae_start e) = None \<or> ae_dies e)"
    using x(1,2) by (cases "start_result (ae_start e)"; cases "ae_dies e")
      (auto simp: outcome_ok_def outcome_reply_def textResult_def)
  ultimately show ?thesis
    using x(3) n by (auto simp: spec_add_def rem(2) split: option.splits)
qed

lemma reload_server_outcomes_witness:
  "\<exists>r p'. handleReloadServer map_server bad_start ''srv'' one_server = Some (r, p') \<and>
     isError r \<and> abs_proxy p' = (abs_proxy one_server)(''srv'' := None)"
proof -
  have "start_result (ae_start bad_start) = None" by (simp add: start_result_def sample_starts)
  moreover have never: "handleAddServer map_server bad_start input p \<noteq> None" for input and p :: "(gostring \<rightharpoonup> entry) proxy"
    by (auto simp: handleAddServer_def add_reserve_def child_Start_def child_start_def section_defs
        NewChild_def sample_starts split: option.splits)
  have "handleReloadServer map_server bad_start ''srv'' one_server \<noteq> None"
    using never by (simp add: handleReloadServer_def one_server split: prod.split)
  then obtain r p' where h: "handleReloadServer map_server bad_start ''srv'' one_server = Some (r, p')"
    by auto
  ultimately show ?thesis
    using reload_server_outcomes [OF ms.mcp_server_axioms one_server(1) h one_server(2)] h by auto
qed




section \<open>Sessions\<close>

text \<open>The sessions of a reachable proxy: every server in the table holds its own open
  session; an open session that no table entry holds belongs to a child that died, and no
  child outside the table is running.\<close>

theorem proxy_sessions:
  assumes "mcp_server ops" and "proxy_run ops evs (NewProxy ops) = Some p"
  shows "(\<forall>name i. children p name = Some i \<longrightarrow> session (heap p i) = Some i \<and> i \<in> live p \<and>
            cfg_Name (Config (heap p i)) = name \<and> valid_name name \<and>
            status (heap p i) \<in> {StatusRunning, StatusCrashed}) \<and>
         (\<forall>i. (\<forall>name. children p name \<noteq> Some i) \<longrightarrow>
            status (heap p i) \<noteq> StatusRunning \<and> (i \<in> live p \<longrightarrow> status (heap p i) = StatusCrashed))"
  using mcp_server.run_new_inv(1) [OF assms] by (auto simp: proxy_inv_def child_ok_def)

lemma proxy_sessions_witness:
  "session (heap one_server 0) = Some 0 \<and> 0 \<in> live one_server"
  using proxy_sessions [OF ms.mcp_server_axioms one_server(1)] one_server(2) by blast

text \<open>\<open>Shutdown\<close>, in whatever order it visits the table, closes the session of every
  server in it and leaves no child running; the sessions it leaves open are those of
  children that are in the table no more.\<close>

theorem shutdown_closes:
  assumes "mcp_server ops" and "proxy_run ops evs (NewProxy ops) = Some p"
    and "distinct order" and "set order = dom (children p)"
  shows "live (Shutdown order p) = {k \<in> live p. \<forall>name. children p name \<noteq> Some k} \<and>
         (\<forall>i. status (heap (Shutdown order p) i) \<noteq> StatusRunning)"
  using Shutdown_inv [OF mcp_server.run_new_inv(1) [OF assms(1,2)] assms(3,4)] by blast

lemma shutdown_closes_witness: "live (Shutdown [''srv''] one_server) = {}"
proof -
  have "distinct [''srv'']" "set [''srv''] = dom (children one_server)" by (simp_all add: one_server)
  from shutdown_closes [OF ms.mcp_server_axioms one_server(1) this] one_server(2,5) show ?thesis by auto
qed

text \<open>C23. A child that dies between the return of \<open>Start\<close> and the check of its status
  leaks its session: \<open>add_server\<close> drops it without \<open>Stop\<close>, and neither any later
  sequence of requests nor \<open>Shutdown\<close> ever closes the session.\<close>

theorem exited_immediately_leaks:
  assumes "mcp_server ops" and "proxy_run ops evs (NewProxy ops) = Some p"
    and "valid_name (in_Name input)" and "children p (in_Name input) = None"
    and "start_result (ae_start e) \<noteq> None" and "ae_dies e"
    and "handleAddServer ops e input p = Some (r, p')"
    and "proxy_run ops evs' p' = Some q"
    and "distinct order" and "set order = dom (children q)"
  shows "r = textResult True (ExitedImmediately (in_Name input)) \<and>
         next_child p \<in> live q \<and> next_child p \<in> live (Shutdown order q)"
proof -
  have inv: "proxy_inv ops p" by (rule mcp_server.run_new_inv(1) [OF assms(1,2)])
  obtain x where x: "outcome_ok e x" "r = outcome_reply input x"
    "live p' = (if \<exists>err. x = Failed err then live p else insert (next_child p) (live p))"
    "next_child p' = Suc (next_child p)"
    "children p' = (if \<exists>ts. x = Registered ts then (children p)(in_Name input \<mapsto> next_child p) else children p)"
    using mcp_server.handleAddServer_ok [OF assms(1) inv assms(3,4,7)] by metis
  have died: "x = Died" using x(1) assms(5,6) by (auto simp: outcome_ok_def)
  have "orphan (next_child p) p'"
    using x(3-5) inv_fresh(1) [OF inv, of "next_child p"] by (simp add: died orphan_def)
  moreover have inv': "proxy_inv ops p'"
    using mcp_server.handleAddServer_inv [OF assms(1) inv assms(7)] by simp
  ultimately have "orphan (next_child p) q"
    using mcp_server.orphan_run [OF assms(1) _ assms(8)] by blast
  moreover have "proxy_inv ops q" using mcp_server.proxy_run_inv [OF assms(1) inv' assms(8)] by simp
  ultimately show ?thesis
    using x(2) Shutdown_inv(1) [OF _ assms(9,10)] by (simp add: died orphan_def outcome_reply_def)
qed

lemma exited_immediately_leaks_witness:
  "\<exists>r q. handleAddServer map_server short_start sample_input (NewProxy map_server) = Some (r, q) \<and>
     0 \<in> live (Shutdown [] q)"
proof -
  have p: "proxy_run map_server [] (NewProxy map_server) = Some (NewProxy map_server)" by simp
  have free: "children (NewProxy map_server) (in_Name sample_input) = None" by (simp add: NewProxy_def)
  have v: "valid_name (in_Name sample_input)" by (simp add: sample_name)
  have s: "start_result (ae_start short_start) \<noteq> None" by (simp add: start_result_def sample_starts)
  obtain r q where h: "handleAddServer map_server short_start sample_input (NewProxy map_server) = Some (r, q)"
    and q: "children q = Map.empty"
    by (simp add: handleAddServer_def add_reserve_ok NewProxy_def sample_name child_Start_def
        child_start_def section_defs NewChild_def sample_starts after_start_def add_finish_def
        child_exits_def handleCrash_def forget_def)
  have q': "proxy_run map_server [] q = Some q" by simp
  have o: "distinct []" "set [] = dom (children q)" by (simp_all add: q)
  from exited_immediately_leaks [OF ms.mcp_server_axioms p v free s sample_starts(10) h q' o] h
  show ?thesis by (auto simp: NewProxy_def)
qed

end
