(* ===== verification/ProxySchedules.thy ===== *)
theory ProxySchedules
  imports ProxyRaces ProxyProps
begin

text \<open>
  The proxy one call at a time (\<open>ProxyModel\<close>) is the proxy under concurrent calls
  (\<open>ProxyThreads\<close>) when the calls do not overlap: for every sequence of requests and exits, and
  for \<open>Shutdown\<close> after it, there is a schedule that gives the same replies and ends in the same
  registry, table, children and open sessions. So what holds of every schedule holds of the
  handlers, and what the handlers do one by one can happen.
\<close>

section \<open>The undisturbed moves of a child\<close>

text \<open>The end of a \<open>Start\<close> call on a new child.\<close>

definition started :: "nat \<Rightarrow> start_env \<Rightarrow> child_error + Tool list \<Rightarrow> Child \<Rightarrow> nat list \<Rightarrow> child_sys \<Rightarrow> bool" where
  "started i e r c closed k \<longleftrightarrow>
     child k = c \<and> starters k i = SDone r \<and> stoppers k = (\<lambda>_. PIdle) \<and>
     startDone c = Some True \<and> dead k = {} \<and>
     open_sessions k = (if isl (env_connect e) then {} else {i}) - set closed \<and>
     (\<not> isl r \<longrightarrow> monitors k i = MRead)"

definition cancels :: "nat \<Rightarrow> start_env \<Rightarrow> action list" where
  "cancels i e = (if env_ctx_err e then [ACancel i] else [])"

lemma new_start_schedule:
  assumes "child_Start i e (NewChild cfg f) = Some (r, c, closed)"
  shows "\<exists>as k. child_run (cancels i e @ map (AStart i) as) (init_sys (NewChild cfg f)) = Some k \<and>
     started i e r c closed k"
proof (cases "env_connect e")
  case (Inl err)
  with assms show ?thesis
    by (intro exI [of _ "[Go, ConnectFailed err, Go, Go]"])
      (auto simp: child_Start_def child_start_def section_defs NewChild_def init_sys_def cancels_def started_def)
next
  case (Inr n)
  from assms Inr obtain d where d: "discoverTools (env_list e) = Some d"
    by (cases "discoverTools (env_list e)")
      (auto simp: child_Start_def child_start_def section_defs NewChild_def)
  show ?thesis
  proof (cases d)
    case (Inl err)
    with Inr d assms show ?thesis
      by (intro exI [of _ "[Go, Connected n, Go, ListFailed err, Go, Go, Go, Go]"])
        (auto simp: child_Start_def child_start_def section_defs NewChild_def init_sys_def cancels_def started_def)
  next
    case d': (Inr ts)
    with Inr d assms show ?thesis
      by (intro exI [of _ "[Go, Connected n, Go, Listed ts, Clock (env_now e), Go, Go, Go]"])
        (auto simp: child_Start_def child_start_def section_defs NewChild_def init_sys_def cancels_def started_def)
  qed
qed

text \<open>A \<open>Stop\<close> call on a child with a session and no \<open>Start\<close> under way.\<close>

lemma stop_schedule:
  assumes "session (child k) = Some j" and "startDone (child k) \<noteq> Some False" and "stoppers k t = PIdle"
  shows "\<exists>k'. child_run (replicate 4 (AStop t False)) k = Some k' \<and> child k' = stop_enter (child k) \<and>
     starters k' = starters k \<and> stoppers k' = (stoppers k)(t := PDone) \<and>
     open_sessions k' = open_sessions k - {j} \<and> monitors k' = monitors k"
  using assms by (cases "startDone (child k)") (auto simp: numeral_eq_Suc stop_frame_of_def stop_enter_def)

text \<open>A monitor that has not moved yet sees the session of a running child end.\<close>

lemma exit_schedule:
  assumes "session (child k) = Some i" and "monitors k i = MRead" and "i \<in> open_sessions k"
    and "status (child k) = StatusRunning" and "onCrash (child k)"
  shows "\<exists>k'. child_run [AMon i, ADie i, AMon i, AMon i] k = Some k' \<and>
     child k' = (child k)\<lparr>status := StatusCrashed\<rparr> \<and> monitors k' i = MNotify \<and>
     starters k' = starters k \<and> stoppers k' = stoppers k \<and> open_sessions k' = open_sessions k"
  using assms by (simp add: monitor_exit_def)

section \<open>Schedules of the whole proxy\<close>

definition goes :: "'r tool_server \<Rightarrow> 'r psys \<Rightarrow> 'r psys \<Rightarrow> bool" where
  "goes ops s s' \<longleftrightarrow> (\<exists>as. prun ops as s = Some s')"

lemma goes_refl [intro, simp]: "goes ops s s"
  unfolding goes_def by (rule exI [of _ "[]"]) simp

lemma goes_trans [trans]: "goes ops s s1 \<Longrightarrow> goes ops s1 s2 \<Longrightarrow> goes ops s s2"
  unfolding goes_def by (metis option.simps(5) prun_append)

lemma goes_step: "pstep ops a s = Some s' \<Longrightarrow> goes ops s s'"
  unfolding goes_def by (rule exI [of _ "[a]"]) simp

lemma goes_move: "call_move ops (calls s t) t s = Some s' \<Longrightarrow> goes ops s s'"
  by (rule goes_step [of _ "PMove t"]) simp

lemma goes_call: "calls s t = Idle \<Longrightarrow> goes ops s (goto t (enter req) s)"
  by (rule goes_step [of _ "PCall t req"]) simp

text \<open>The moves of a child, each one a move \<open>g a\<close> of the proxy.\<close>

lemma goes_kid:
  assumes "child_run as (kids s i) = Some k"
    and "\<And>a x. a \<in> set as \<Longrightarrow> pstep ops (g a) (put_kid i x s) = kid_step i a (put_kid i x s)"
  shows "goes ops s (put_kid i k s)"
  using assms
proof (induction as arbitrary: s)
  case Nil
  then have "put_kid i k s = s" by auto
  then show ?case by simp
next
  case (Cons a as)
  then obtain k1 where k1: "child_step a (kids s i) = Some k1" "child_run as k1 = Some k"
    by (auto split: option.splits)
  let ?s1 = "put_kid i k1 s"
  have "put_kid i (kids s i) s = s" by auto
  with Cons.prems(2) [of a "kids s i"] k1(1) have "pstep ops (g a) s = Some ?s1"
    by (simp add: kid_step_def)
  then have "goes ops s ?s1" by (rule goes_step)
  also have "goes ops ?s1 (put_kid i k ?s1)"
    using Cons.prems(2) k1(2) by (intro Cons.IH) simp_all
  finally show ?case by simp
qed

fun start_act :: "nat \<Rightarrow> action \<Rightarrow> paction" where
  "start_act t (AStart i a) = PStart t a" | "start_act t _ = PCancel t"

lemma goes_start:
  assumes "starts (calls s t) = Some i" and "child_run (cancels i e @ map (AStart i) as) (kids s i) = Some k"
  shows "goes ops s (put_kid i k s)"
  using assms(1) by (intro goes_kid [OF assms(2), of ops "start_act t"])
    (auto simp: cancels_def split: if_splits)

lemma goes_stop:
  assumes "stops (calls s t) = Some i" and "child_run (replicate n (AStop t False)) (kids s i) = Some k"
  shows "goes ops s (put_kid i k s)"
  using assms(1) by (intro goes_kid [OF assms(2), of ops "\<lambda>a. PStop t False"]) auto

section \<open>The two states agree\<close>

definition settled :: "nat \<Rightarrow> child_sys \<Rightarrow> Child \<Rightarrow> bool \<Rightarrow> bool" where
  "settled i k c l \<longleftrightarrow>
     child k = c \<and> startDone c = Some True \<and> open_sessions k = (if l then {i} else {}) \<and>
     (status c = StatusRunning \<longrightarrow> monitors k i = MRead)"

text \<open>The calls from number \<open>n\<close> on have not been made.\<close>

definition matches :: "nat \<Rightarrow> 'r psys \<Rightarrow> 'r proxy \<Rightarrow> bool" where
  "matches n s p \<longleftrightarrow>
     registry s = server p \<and> table s = children p \<and> next_kid s = next_child p \<and> readers s = {} \<and>
     (\<forall>t \<ge> n. calls s t = Idle \<and> (\<forall>i. stoppers (kids s i) t = PIdle)) \<and>
     (\<forall>i < next_child p. settled i (kids s i) (heap p i) (i \<in> live p))"

lemma matches_goto: "matches m s p \<Longrightarrow> n < m \<Longrightarrow> matches m (goto n pc s) p"
  by (auto simp: matches_def)

lemma matches_more: "matches n s p \<Longrightarrow> n \<le> m \<Longrightarrow> matches m s p"
  by (auto simp: matches_def)

lemma matches_forget: "matches m s p \<Longrightarrow> matches m (s\<lparr>table := map_delete (table s) name\<rparr>) (forget name p)"
  by (auto simp: matches_def forget_def)

lemma matches_server: "matches m s p \<Longrightarrow> matches m (s\<lparr>registry := r\<rparr>) (p\<lparr>server := r\<rparr>)"
  by (auto simp: matches_def)

lemma matches_crashers [simp]: "matches m (s\<lparr>crashers := f\<rparr>) p \<longleftrightarrow> matches m s p"
  by (auto simp: matches_def)

lemma matches_kid:
  assumes "matches m s p" and "i < next_child p" and "settled i k c (i \<in> L)" and "\<And>t. m \<le> t \<Longrightarrow> stoppers k t = PIdle"
    and "\<And>j. j \<noteq> i \<Longrightarrow> j \<in> L \<longleftrightarrow> j \<in> live p"
  shows "matches m (put_kid i k s) (p\<lparr>heap := (heap p)(i := c), live := L\<rparr>)"
  using assms by (auto simp: matches_def)

lemma init_matches: "matches 0 (init_psys ops) (NewProxy ops)"
  by (simp add: matches_def init_psys_def NewProxy_def init_sys_def)

section \<open>The exit of a child\<close>

text \<open>The monitor up to its callback, and the callback.\<close>

lemma goes_notify:
  assumes "i < next_kid s" and "session (child (kids s i)) = Some i" and "monitors (kids s i) i = MRead"
    and "i \<in> open_sessions (kids s i)" and "status (child (kids s i)) = StatusRunning" and "onCrash (child (kids s i))"
  shows "\<exists>k. goes ops s ((put_kid i k s)\<lparr>crashers := (crashers s)(i := KLook)\<rparr>) \<and>
     child k = (child (kids s i))\<lparr>status := StatusCrashed\<rparr> \<and> stoppers k = stoppers (kids s i) \<and>
     open_sessions k = open_sessions (kids s i) \<and> starters k = starters (kids s i)"
proof -
  let ?k = "(kids s i)\<lparr>dead := insert i (dead (kids s i)), child := (child (kids s i))\<lparr>status := StatusCrashed\<rparr>,
    crash_calls := Suc (crash_calls (kids s i)), monitors := (monitors (kids s i))(i := MDone)\<rparr>"
  have "prun ops [PMon i, PDie i, PMon i, PMon i, PMon i] s =
      Some ((put_kid i ?k s)\<lparr>crashers := (crashers s)(i := KLook)\<rparr>)"
    using assms by (simp add: mon_step_def kid_step_def monitor_exit_def)
  then have "goes ops s ((put_kid i ?k s)\<lparr>crashers := (crashers s)(i := KLook)\<rparr>)"
    unfolding goes_def by (rule exI)
  then show ?thesis by (intro exI [of _ ?k]) simp
qed

lemma goes_callback:
  assumes "crashers s i = KLook" and "table s (kid_name s i) = Some i"
  shows "\<exists>f. goes ops s (s\<lparr>registry := removeToolsForChild ops (child (kids s i)) (kid_name s i) (registry s), crashers := f\<rparr>)"
proof (cases "tools (child (kids s i)) = []")
  case True
  have "prun ops [PCrash i, PCrash i] s = Some (s\<lparr>registry := removeToolsForChild ops (child (kids s i)) (kid_name s i) (registry s),
      crashers := (crashers s)(i := KDone)\<rparr>)"
    using assms True by (simp add: removeToolsForChild_def tool_names_def)
  then show ?thesis unfolding goes_def by blast
next
  case False
  have "prun ops [PCrash i, PCrash i, PCrash i] s = Some (s\<lparr>registry := removeToolsForChild ops (child (kids s i)) (kid_name s i) (registry s),
      crashers := (crashers s)(i := KDone)\<rparr>)"
    using assms False by (simp add: removeToolsForChild_def tool_names_def kid_name_def Let_def)
  then show ?thesis unfolding goes_def by blast
qed

lemma goes_exit:
  assumes m: "matches m s p" and c: "children p name = Some i" "i < next_child p" "i \<in> live p"
    and h: "session (heap p i) = Some i" "onCrash (heap p i)" "cfg_Name (Config (heap p i)) = name"
    and run: "status (heap p i) = StatusRunning"
  shows "\<exists>s'. goes ops s s' \<and> matches m s' (child_exits ops name i p) \<and> calls s' = calls s \<and>
     (\<forall>j. starters (kids s' j) = starters (kids s j))"
proof -
  have st: "settled i (kids s i) (heap p i) True" "next_kid s = next_child p" "table s = children p" "registry s = server p"
    and idle: "\<And>t. m \<le> t \<Longrightarrow> stoppers (kids s i) t = PIdle"
    using m c by (auto simp: matches_def)
  then have k: "child (kids s i) = heap p i" "monitors (kids s i) i = MRead" "i \<in> open_sessions (kids s i)"
    using run by (simp_all add: settled_def)
  have lt: "i < next_kid s" using c(2) st(2) by simp
  obtain k' where g: "goes ops s ((put_kid i k' s)\<lparr>crashers := (crashers s)(i := KLook)\<rparr>)"
    and k': "child k' = (heap p i)\<lparr>status := StatusCrashed\<rparr>" "stoppers k' = stoppers (kids s i)"
      "open_sessions k' = open_sessions (kids s i)" "starters k' = starters (kids s i)"
    using goes_notify [of i s ops, unfolded k] lt h run k(2,3) by blast
  let ?s1 = "(put_kid i k' s)\<lparr>crashers := (crashers s)(i := KLook)\<rparr>"
  have nm: "kid_name ?s1 i = name" using h(3) k'(1) by (simp add: kid_name_def)
  obtain f where g2: "goes ops ?s1 (?s1\<lparr>registry := removeToolsForChild ops (child k') name (registry s), crashers := f\<rparr>)"
    using goes_callback [of ?s1 i ops] c(1) st(3) nm by auto
  let ?p = "p\<lparr>heap := (heap p)(i := child k'), live := live p\<rparr>"
  have "settled i k' (child k') (i \<in> live p)" using st(1) c(3) k' by (simp add: settled_def)
  then have "matches m (put_kid i k' s) ?p"
    by (intro matches_kid [OF m c(2)]) (simp_all add: idle k'(2))
  then have "matches m (?s1\<lparr>registry := removeToolsForChild ops (child k') name (registry s), crashers := f\<rparr>)
      (?p\<lparr>server := removeToolsForChild ops (child k') name (server p)\<rparr>)"
    using matches_server st(4) by fastforce
  moreover have "child_exits ops name i p = ?p\<lparr>server := removeToolsForChild ops (child k') name (server p)\<rparr>"
    using c(1) h(2) run k'(1) by (simp add: child_exits_def monitor_exit_def handleCrash_def Let_def)
  ultimately show ?thesis
    using goes_trans [OF g g2] k'(4)
    by (intro exI [of _ "?s1\<lparr>registry := removeToolsForChild ops (child k') name (registry s), crashers := f\<rparr>"]) simp
qed

section \<open>add_server\<close>

lemma goes_register:
  assumes "calls s t = AddReg name ts all"
  shows "goes ops s (goto t (Replied (textResult False (Added name (tool_names name all))))
    (s\<lparr>registry := registerTools ops name ts (registry s)\<rparr>))"
  using assms
proof (induction ts arbitrary: s)
  case Nil
  then show ?case by (intro goes_move [of ops s t]) simp
next
  case (Cons x xs)
  let ?s1 = "goto t (AddReg name xs all) (s\<lparr>registry := addTool ops (export_tool name x) (ProxyTool name (tool_Name x)) (registry s)\<rparr>)"
  have "goes ops s ?s1" using Cons.prems by (intro goes_move [of ops s t]) simp
  also have "goes ops ?s1 (goto t (Replied (textResult False (Added name (tool_names name all))))
    (?s1\<lparr>registry := registerTools ops name xs (registry ?s1)\<rparr>))" by (rule Cons.IH) simp
  finally show ?case by simp
qed

lemma cfg_of_config: "cfg_of input = config_of input"
  by (simp add: cfg_of_def config_of_def)

lemma child_Start_closed: "child_Start i e (NewChild cfg f) = Some (r, c, closed) \<Longrightarrow> set closed \<subseteq> {i}"
  by (auto simp: child_Start_def child_start_def section_defs NewChild_def split: option.splits sum.splits if_splits)

text \<open>The reservation and the \<open>Start\<close> call.\<close>

lemma goes_reserve:
  assumes m: "matches (Suc n) s p" and pc: "calls s n = AddEnter input" and new: "next_child p \<notin> live p"
    and v: "valid_name (in_Name input)" and free: "children p (in_Name input) = None"
    and st: "child_Start (next_child p) e (NewChild (config_of input) True) = Some (res, c, closed)"
    and p1: "add_reserve input p = Inr (next_child p, p1)"
  shows "\<exists>s'. goes ops s s' \<and> matches (Suc n) s' (after_start (next_child p) e c closed p1) \<and>
     calls s' = (calls s)(n := AddStart (in_Name input) (next_child p)) \<and>
     starters (kids s' (next_child p)) (next_child p) = SDone res"
proof -
  let ?i = "next_child p" and ?n = "in_Name input"
  have s: "registry s = server p" "table s = children p" "next_kid s = next_child p" "readers s = {}"
    using m by (simp_all add: matches_def)
  let ?s1 = "goto n (AddStart ?n ?i) (s\<lparr>table := (table s)(?n \<mapsto> ?i),
      kids := (kids s)(?i := init_sys (NewChild (config_of input) True)), next_kid := Suc ?i\<rparr>)"
  have "ValidateServerName ?n = None" using v by (simp add: ValidateServerName_None)
  then have g1: "goes ops s ?s1"
    using pc free s by (intro goes_move [of ops s n]) (simp add: cfg_of_config)
  from new_start_schedule [OF st] obtain as k where
    k: "child_run (cancels ?i e @ map (AStart ?i) as) (init_sys (NewChild (config_of input) True)) = Some k"
    "started ?i e res c closed k" by blast
  have g2: "goes ops ?s1 (put_kid ?i k ?s1)"
    by (rule goes_start [of _ n]) (use k(1) in simp_all)
  have live: "j \<in> live (after_start ?i e c closed p1) \<longleftrightarrow> (if j = ?i then \<not> isl (env_connect e) \<and> ?i \<notin> set closed else j \<in> live p)" for j
    using child_Start_closed [OF st] new p1 v free by (auto simp: after_start_def add_reserve_ok)
  have "status c = StatusRunning \<Longrightarrow> \<not> isl res"
    using child_Start_new [OF st] by (auto split: option.splits)
  then have "settled ?i k c (\<not> isl (env_connect e) \<and> ?i \<notin> set closed)"
    using k(2) child_Start_closed [OF st] by (auto simp: settled_def started_def)
  then have "matches (Suc n) (put_kid ?i k ?s1) (after_start ?i e c closed p1)"
    using m live p1 k(2) v free
    by (auto simp: matches_def add_reserve_ok after_start_def started_def less_Suc_eq)
  with goes_trans [OF g1 g2] k(2) show ?thesis
    by (intro exI [of _ "put_kid ?i k ?s1"]) (simp add: started_def)
qed

lemma goes_fail:
  assumes m: "matches (Suc n) s p" and pc: "calls s n = AddStart name i" and d: "starters (kids s i) i = SDone (Inl err)"
  shows "\<exists>s'. goes ops s s' \<and> matches (Suc n) s' (forget name p) \<and>
     calls s' = (calls s)(n := Replied (textResult True (FailedToStart name err)))"
proof -
  have free: "readers s = {}" using m by (simp add: matches_def)
  let ?s1 = "goto n (AddFail name err) s"
  let ?s2 = "goto n (Replied (textResult True (FailedToStart name err))) (?s1\<lparr>table := map_delete (table ?s1) name\<rparr>)"
  have "goes ops s ?s1" using pc d by (intro goes_move [of ops s n]) simp
  also have "goes ops ?s1 ?s2" using free by (intro goes_move [of ops ?s1 n]) simp
  finally have "goes ops s ?s2" .
  moreover have "matches (Suc n) ?s2 (forget name p)"
    by (intro matches_goto matches_forget) (use m in simp_all)
  ultimately show ?thesis by (intro exI [of _ ?s2]) simp
qed

lemma goes_check:
  assumes "calls s n = AddStart name i" and "starters (kids s i) i = SDone (Inr ts)"
  shows "goes ops s (goto n (AddCheck name i ts) s)"
  using assms by (intro goes_move [of ops s n]) simp

lemma goes_finish:
  assumes m: "matches (Suc n) s p" and pc: "calls s n = AddCheck name i ts" and i: "i < next_child p"
    and f: "add_finish ops name i ts p = (r, p')"
  shows "\<exists>s'. goes ops s s' \<and> matches (Suc n) s' p' \<and> calls s' = (calls s)(n := Replied r)"
proof -
  have c: "child (kids s i) = heap p i" and reg: "registry s = server p" and free: "readers s = {}"
    using m i by (simp_all add: matches_def settled_def)
  show ?thesis
  proof (cases "status (heap p i) = StatusRunning")
    case True
    let ?s1 = "goto n (AddReg name ts ts) s"
    let ?s2 = "goto n (Replied (textResult False (Added name (tool_names name ts))))
      (?s1\<lparr>registry := registerTools ops name ts (registry ?s1)\<rparr>)"
    have "goes ops s ?s1" using pc True c by (intro goes_move [of ops s n]) simp
    also have "goes ops ?s1 ?s2" by (rule goes_register) simp
    finally have g: "goes ops s ?s2" .
    have "r = textResult False (Added name (tool_names name ts))"
      "p' = p\<lparr>server := registerTools ops name ts (server p)\<rparr>"
      using f True by (auto simp: add_finish_def tool_names_def)
    moreover have "matches (Suc n) ?s2 (p\<lparr>server := registerTools ops name ts (server p)\<rparr>)"
      using reg by (intro matches_goto) (use matches_server [OF matches_goto [OF m]] in auto)
    ultimately show ?thesis using g by (intro exI [of _ ?s2]) simp
  next
    case False
    let ?s1 = "goto n (AddGone name) s"
    let ?s2 = "goto n (Replied (textResult True (ExitedImmediately name))) (?s1\<lparr>table := map_delete (table ?s1) name\<rparr>)"
    have "goes ops s ?s1" using pc False c by (intro goes_move [of ops s n]) simp
    also have "goes ops ?s1 ?s2" using free by (intro goes_move [of ops ?s1 n]) simp
    finally have g: "goes ops s ?s2" .
    have "r = textResult True (ExitedImmediately name)" "p' = forget name p"
      using f False by (auto simp: add_finish_def)
    moreover have "matches (Suc n) ?s2 (forget name p)"
      by (intro matches_goto matches_forget) (use m in simp_all)
    ultimately show ?thesis using g by (intro exI [of _ ?s2]) simp
  qed
qed

lemma goes_refused:
  assumes m: "matches (Suc n) s p" and pc: "calls s n = AddEnter input" and r: "add_reserve input p = Inl r"
  shows "\<exists>s'. goes ops s s' \<and> matches (Suc n) s' p \<and> calls s' = (calls s)(n := Replied r)"
proof -
  have t: "table s = children p" using m by (simp add: matches_def)
  have "goes ops s (goto n (Replied r) s)"
    using pc r t by (intro goes_move [of ops s n]) (auto simp: add_reserve_def Let_def split: option.splits if_splits)
  then show ?thesis using matches_goto [OF m, of n "Replied r"] by (intro exI [of _ "goto n (Replied r) s"]) simp
qed

context mcp_server
begin

lemma goes_add:
  assumes inv: "proxy_inv ops p" and m: "matches (Suc n) s p" and pc: "calls s n = AddEnter input"
    and h: "handleAddServer ops e input p = Some (r, p')"
  shows "\<exists>s'. goes ops s s' \<and> matches (Suc n) s' p' \<and> calls s' = (calls s)(n := Replied r)"
proof (cases "add_reserve input p")
  case (Inl r')
  with h have "r' = r" "p' = p" by (simp_all add: handleAddServer_def)
  with goes_refused [OF m pc Inl, of ops] show ?thesis by simp
next
  case (Inr x)
  then have ok: "valid_name (in_Name input)" "children p (in_Name input) = None"
    by (auto simp: add_reserve_def ValidateServerName_None [symmetric] split: option.splits if_splits)
  let ?i = "next_child p" and ?n = "in_Name input" and ?e = "ae_start e"
  obtain p1 where p1: "add_reserve input p = Inr (?i, p1)" using add_reserve_ok [OF ok] by blast
  have new: "?i \<notin> live p" by (rule inv_fresh [OF inv]) simp
  have hp: "heap p1 ?i = NewChild (config_of input) True" and ch: "children p1 ?n = Some ?i" "next_child p1 = Suc ?i"
    using p1 add_reserve_ok [OF ok] by auto
  obtain res c closed where st: "child_Start ?i ?e (NewChild (config_of input) True) = Some (res, c, closed)"
    using h p1 hp by (cases "child_Start ?i ?e (NewChild (config_of input) True)") (auto simp: handleAddServer_def)
  let ?p2 = "after_start ?i ?e c closed p1"
  from goes_reserve [OF m pc new ok st p1] obtain s1 where
    g1: "goes ops s s1" and m1: "matches (Suc n) s1 ?p2" and c1: "calls s1 = (calls s)(n := AddStart ?n ?i)"
    and d1: "starters (kids s1 ?i) ?i = SDone res" by blast
  have pc1: "calls s1 n = AddStart ?n ?i" by (simp add: c1)
  show ?thesis
  proof (cases res)
    case (Inl err)
    with h p1 hp st have "r = textResult True (FailedToStart ?n err)" "p' = forget ?n ?p2"
      by (auto simp: handleAddServer_def Let_def)
    with goes_fail [OF m1 pc1 d1 [unfolded Inl], of ops] g1 c1 goes_trans show ?thesis
      by (metis fun_upd_upd)
  next
    case (Inr ts)
    let ?p3 = "if ae_dies e then child_exits ops ?n ?i ?p2 else ?p2"
    have f: "add_finish ops ?n ?i ts ?p3 = (r, p')"
      using h p1 hp st Inr by (auto simp: handleAddServer_def Let_def)
    let ?s2 = "goto n (AddCheck ?n ?i ts) s1"
    have g2: "goes ops s1 ?s2" using goes_check [OF pc1] d1 Inr by simp
    have m2: "matches (Suc n) ?s2 ?p2" by (rule matches_goto [OF m1]) simp
    have cc: "status c = StatusRunning" "session c = Some ?i" "onCrash c" "Config c = config_of input"
      "\<not> isl (env_connect ?e)" "closed = []"
      using child_Start_new [OF st] Inr by (auto split: option.splits)
    have h2: "heap ?p2 ?i = c" "children ?p2 ?n = Some ?i" "?i < next_child ?p2" "?i \<in> live ?p2"
      using ch cc by (simp_all add: after_start_def)
    have "\<exists>s3. goes ops ?s2 s3 \<and> matches (Suc n) s3 ?p3 \<and> calls s3 = calls ?s2"
    proof (cases "ae_dies e")
      case True
      with goes_exit [OF m2 h2(2-4), of ops] h2(1) cc show ?thesis by (simp add: config_of_def) blast
    next
      case False
      with m2 show ?thesis by auto
    qed
    then obtain s3 where s3: "goes ops ?s2 s3" "matches (Suc n) s3 ?p3" "calls s3 = calls ?s2" by blast
    have pc3: "calls s3 n = AddCheck ?n ?i ts" by (simp add: s3(3))
    have "?i < next_child ?p3" using h2(3) by simp
    from goes_finish [OF s3(2) pc3 this f] obtain s4 where
      s4: "goes ops s3 s4" "matches (Suc n) s4 p'" "calls s4 = (calls s3)(n := Replied r)" by blast
    have "goes ops s s4" using g1 g2 s3(1) s4(1) goes_trans by metis
    with s4 show ?thesis by (intro exI [of _ s4]) (simp add: s3(3) c1)
  qed
qed

end

section \<open>remove_server and reload_server\<close>

lemma goes_drop:
  assumes pc: "calls s n = RemEnter name k" and t: "table s name = Some i" and free: "readers s = {}"
  shows "goes ops s (goto n (RemStop name i k) (s\<lparr>table := map_delete (table s) name,
    registry := removeToolsForChild ops (child (kids s i)) name (registry s)\<rparr>))"
proof -
  let ?s1 = "goto n (RemRead name i k) (s\<lparr>table := map_delete (table s) name\<rparr>)"
  let ?ns = "tool_names name (tools (child (kids s i)))"
  have g1: "goes ops s ?s1" using pc t free by (intro goes_move [of ops s n]) simp
  show ?thesis
  proof (cases "?ns = []")
    case True
    have "goes ops ?s1 (goto n (RemStop name i k) ?s1)" using True by (intro goes_move [of ops ?s1 n]) simp
    with goes_trans [OF g1] have "goes ops s (goto n (RemStop name i k) ?s1)" .
    with True show ?thesis by (simp add: removeToolsForChild_def tool_names_def)
  next
    case False
    let ?s2 = "goto n (RemDrop ?ns name i k) ?s1"
    have "goes ops ?s1 ?s2" using False by (intro goes_move [of ops ?s1 n]) simp
    also have "goes ops ?s2 (goto n (RemStop name i k) (?s2\<lparr>registry := removeTools ops ?ns (registry ?s2)\<rparr>))"
      by (intro goes_move [of ops ?s2 n]) simp
    finally show ?thesis using goes_trans [OF g1] False
      by (simp add: removeToolsForChild_def tool_names_def Let_def)
  qed
qed

context mcp_server
begin

lemma goes_remove:
  assumes inv: "proxy_inv ops p" and m: "matches (Suc n) s p" and pc: "calls s n = RemEnter name k"
    and idle: "\<And>i. stoppers (kids s i) n = PIdle"
    and h: "handleRemoveServer ops name p = (r, p')"
  shows "\<exists>s'. goes ops s s' \<and> matches (Suc n) s' p' \<and>
     calls s' = (calls s)(n := if isError r then Replied r else after_remove name k) \<and>
     (isError r \<longleftrightarrow> children p name = None) \<and> (\<not> isError r \<longrightarrow> r = textResult False (Removed name))"
proof -
  have t: "table s = children p" "registry s = server p" and free: "readers s = {}" using m by (simp_all add: matches_def)
  show ?thesis
  proof (cases "children p name")
    case None
    with h have r: "r = textResult True (NotFound name)" "p' = p" by (auto simp: handleRemoveServer_def)
    have "goes ops s (goto n (Replied r) s)" using pc None t r free by (intro goes_move [of ops s n]) simp
    moreover have "matches (Suc n) (goto n (Replied r) s) p'" using matches_goto [OF m] r(2) by simp
    ultimately show ?thesis using r None by (intro exI [of _ "goto n (Replied r) s"]) (simp add: textResult_def)
  next
    case (Some i)
    note ok = inv_child [OF inv Some]
    have r: "r = textResult False (Removed name)" and p': "p' = p\<lparr>server := removeToolsForChild ops (heap p i) name (server p),
        children := (children p)(name := None),
        heap := (heap p)(i := stop_enter (heap p i)), live := live p - {i}\<rparr>"
      using h handleRemoveServer_eq [OF Some ok] by auto
    have i: "i < next_child p" "session (heap p i) = Some i" using ok by (simp_all add: child_ok_def)
    have st: "settled i (kids s i) (heap p i) (i \<in> live p)" using m i by (simp add: matches_def)
    then have c: "child (kids s i) = heap p i" "startDone (heap p i) = Some True" by (simp_all add: settled_def)
    let ?s1 = "goto n (RemStop name i k) (s\<lparr>table := map_delete (table s) name,
      registry := removeToolsForChild ops (heap p i) name (registry s)\<rparr>)"
    have g1: "goes ops s ?s1" using goes_drop [OF pc, of i ops] Some t(1) c(1) free by simp
    from stop_schedule [of "kids s i" i n] c i(2) idle [of i] obtain x where
      x: "child_run (replicate 4 (AStop n False)) (kids s i) = Some x" "child x = stop_enter (heap p i)"
      "stoppers x = (stoppers (kids s i))(n := PDone)" "open_sessions x = open_sessions (kids s i) - {i}" by auto
    let ?s2 = "put_kid i x ?s1"
    have g2: "goes ops ?s1 ?s2" by (rule goes_stop [of _ n]) (use x(1) in simp_all)
    let ?s3 = "goto n (after_remove name k) ?s2"
    have g3: "goes ops ?s2 ?s3" using x(3) by (intro goes_move [of ops ?s2 n]) simp
    have "settled i x (stop_enter (heap p i)) False"
      using st x c by (simp add: settled_def stop_enter_def)
    then have "matches (Suc n) ?s3 p'"
      using m x(3) t by (auto simp: matches_def p' less_Suc_eq)
    with goes_trans [OF goes_trans [OF g1 g2] g3] Some r show ?thesis
      by (intro exI [of _ ?s3]) (simp add: textResult_def)
  qed
qed

lemma goes_reload:
  assumes inv: "proxy_inv ops p" and m: "matches (Suc n) s p" and pc: "calls s n = RelEnter name"
    and idle: "\<And>i. stoppers (kids s i) n = PIdle"
    and h: "handleReloadServer ops e name p = Some (r, p')"
  shows "\<exists>s'. goes ops s s' \<and> matches (Suc n) s' p' \<and> calls s' = (calls s)(n := Replied r)"
proof -
  have t: "table s = children p" using m by (simp add: matches_def)
  show ?thesis
  proof (cases "children p name")
    case None
    with h have r: "r = textResult True (NotFound name)" "p' = p" by (auto simp: handleReloadServer_def)
    have "goes ops s (goto n (Replied r) s)" using pc None t r by (intro goes_move [of ops s n]) simp
    moreover have "matches (Suc n) (goto n (Replied r) s) p'" using matches_goto [OF m] r(2) by simp
    ultimately show ?thesis by (intro exI [of _ "goto n (Replied r) s"]) simp
  next
    case (Some i)
    let ?in = "input_of (Config (heap p i))"
    have c: "child (kids s i) = heap p i"
      using m inv_child [OF inv Some] by (simp add: matches_def settled_def child_ok_def)
    let ?s1 = "goto n (RemEnter name (Some ?in)) s"
    have g1: "goes ops s ?s1" using pc Some t c by (intro goes_move [of ops s n]) simp
    obtain r0 p0 where p0: "handleRemoveServer ops name p = (r0, p0)" by (cases "handleRemoveServer ops name p") auto
    have m1: "matches (Suc n) ?s1 p" by (rule matches_goto [OF m]) simp
    have pc1: "calls ?s1 n = RemEnter name (Some ?in)" and idle1: "\<And>i. stoppers (kids ?s1 i) n = PIdle"
      using idle by simp_all
    from goes_remove [OF inv m1 pc1 idle1 p0] Some obtain s2 where
      s2: "goes ops ?s1 s2" "matches (Suc n) s2 p0" "calls s2 = (calls ?s1)(n := after_remove name (Some ?in))" "\<not> isError r0"
      by auto
    have pc2: "calls s2 n = AddEnter ?in" by (simp add: s2(3) after_remove_def)
    have inv0: "proxy_inv ops p0" using handleRemoveServer_refines [OF inv Some] p0 by simp
    have h0: "handleAddServer ops e ?in p0 = Some (r, p')"
      using h Some p0 s2(4) by (simp add: handleReloadServer_def)
    from goes_add [OF inv0 s2(2) pc2 h0] obtain s3 where
      s3: "goes ops s2 s3" "matches (Suc n) s3 p'" "calls s3 = (calls s2)(n := Replied r)" by blast
    have "goes ops s s3" using g1 s2(1) s3(1) goes_trans by metis
    with s3 s2(3) show ?thesis by (intro exI [of _ s3]) simp
  qed
qed

end

section \<open>Runs\<close>

text \<open>The reply to a request; the exit of a child has none.\<close>

fun proxy_answer :: "'r tool_server \<Rightarrow> event \<Rightarrow> 'r proxy \<Rightarrow> reply option" where
  "proxy_answer ops (Add e input) p = map_option fst (handleAddServer ops e input p)"
| "proxy_answer ops (Remove name) p = Some (fst (handleRemoveServer ops name p))"
| "proxy_answer ops (Reload e name) p = map_option fst (handleReloadServer ops e name p)"
| "proxy_answer ops (ChildExit name) p = None"

fun run_answers :: "'r tool_server \<Rightarrow> event list \<Rightarrow> 'r proxy \<Rightarrow> reply option list" where
  "run_answers ops [] p = []"
| "run_answers ops (ev # evs) p =
     proxy_answer ops ev p # (case proxy_step ops ev p of None \<Rightarrow> [] | Some p' \<Rightarrow> run_answers ops evs p')"

text \<open>Where the call of a request is at the end.\<close>

definition call_end :: "reply option \<Rightarrow> call_pc" where
  "call_end a = (case a of None \<Rightarrow> Idle | Some r \<Rightarrow> Replied r)"

context mcp_server
begin

lemma goes_event:
  assumes inv: "proxy_inv ops p" and m: "matches n s p" and h: "proxy_step ops ev p = Some p'"
  shows "\<exists>s'. goes ops s s' \<and> matches (Suc n) s' p' \<and> calls s' = (calls s)(n := call_end (proxy_answer ops ev p))"
proof -
  have free: "calls s n = Idle" and idle: "stoppers (kids s i) n = PIdle" for i using m by (simp_all add: matches_def)
  have m1: "matches (Suc n) (goto n pc s) p" for pc by (rule matches_goto [OF matches_more [OF m]]) simp_all
  have g1: "goes ops s (goto n (enter req) s)" for req using free by (rule goes_call)
  show ?thesis
  proof (cases ev)
    case (Add e input)
    with h obtain r where r: "handleAddServer ops e input p = Some (r, p')" by auto
    have "calls (goto n (enter (ReqAdd input)) s) n = AddEnter input" by (simp add: enter_def)
    from goes_add [OF inv m1 this r] goes_trans [OF g1] show ?thesis
      by (fastforce simp: Add r call_end_def)
  next
    case (Remove name)
    then obtain r where r: "handleRemoveServer ops name p = (r, p')" using h by (cases "handleRemoveServer ops name p") auto
    have pc: "calls (goto n (enter (ReqRemove name)) s) n = RemEnter name None" by (simp add: enter_def)
    have "stoppers (kids (goto n (enter (ReqRemove name)) s) i) n = PIdle" for i using idle by simp
    from goes_remove [OF inv m1 pc this r] obtain s' where
      s': "goes ops (goto n (enter (ReqRemove name)) s) s'" "matches (Suc n) s' p'"
      "calls s' = (calls s)(n := if isError r then Replied r else after_remove name None)"
      "\<not> isError r \<longrightarrow> r = textResult False (Removed name)" by auto
    have "calls s' = (calls s)(n := Replied r)" using s'(3,4) by (auto simp: after_remove_def)
    with s'(1,2) goes_trans [OF g1] show ?thesis by (intro exI [of _ s']) (auto simp: Remove r call_end_def)
  next
    case (Reload e name)
    with h obtain r where r: "handleReloadServer ops e name p = Some (r, p')" by auto
    have pc: "calls (goto n (enter (ReqReload name)) s) n = RelEnter name" by (simp add: enter_def)
    have "stoppers (kids (goto n (enter (ReqReload name)) s) i) n = PIdle" for i using idle by simp
    from goes_reload [OF inv m1 pc this r] goes_trans [OF g1] show ?thesis
      by (fastforce simp: Reload r call_end_def)
  next
    case (ChildExit name)
    have "\<exists>s'. goes ops s s' \<and> matches n s' p' \<and> calls s' = calls s"
    proof (cases "children p name")
      case None
      with h ChildExit m show ?thesis by auto
    next
      case (Some i)
      note ok = inv_child [OF inv Some, unfolded child_ok_def]
      show ?thesis
      proof (cases "status (heap p i) = StatusRunning")
        case True
        with goes_exit [OF m Some, of ops] ok h ChildExit Some show ?thesis by auto
      next
        case False
        with h ChildExit Some m show ?thesis by (auto simp: child_exits_not_running)
      qed
    qed
    then obtain s' where s': "goes ops s s'" "matches n s' p'" "calls s' = calls s" by blast
    have "(calls s)(n := Idle) = calls s" using free by auto
    with s' matches_more [OF s'(2), of "Suc n"] show ?thesis
      by (intro exI [of _ s']) (simp add: ChildExit call_end_def)
  qed
qed

lemma goes_run:
  assumes "proxy_inv ops p" and "matches n s p" and "proxy_run ops evs p = Some p'"
  shows "\<exists>s'. goes ops s s' \<and> matches (n + length evs) s' p' \<and> (\<forall>t < n. calls s' t = calls s t) \<and>
     length (run_answers ops evs p) = length evs \<and>
     (\<forall>k < length evs. calls s' (n + k) = call_end (run_answers ops evs p ! k))"
  using assms
proof (induction evs arbitrary: n s p)
  case Nil
  then show ?case by (intro exI [of _ s]) simp
next
  case (Cons ev evs)
  from Cons.prems(3) obtain q where q: "proxy_step ops ev p = Some q" "proxy_run ops evs q = Some p'"
    by (auto split: option.splits)
  from goes_event [OF Cons.prems(1,2) q(1)] obtain s1 where s1: "goes ops s s1" "matches (Suc n) s1 q"
    "calls s1 = (calls s)(n := call_end (proxy_answer ops ev p))" by blast
  have "proxy_inv ops q" using proxy_step_refines [OF Cons.prems(1) q(1)] by blast
  from Cons.IH [OF this s1(2) q(2)] obtain s2 where s2: "goes ops s1 s2" "matches (Suc n + length evs) s2 p'"
    "\<forall>t < Suc n. calls s2 t = calls s1 t" "length (run_answers ops evs q) = length evs"
    "\<forall>k < length evs. calls s2 (Suc n + k) = call_end (run_answers ops evs q ! k)" by blast
  have "calls s2 (n + k) = call_end (run_answers ops (ev # evs) p ! k)" if "k < length (ev # evs)" for k
    using that s2(3,5) s1(3) q(1) by (cases k) auto
  moreover have "calls s2 t = calls s t" if "t < n" for t using that s2(3) s1(3) by simp
  ultimately show ?case
    using goes_trans [OF s1(1) s2(1)] s2(2,4) q(1) by (intro exI [of _ s2]) simp
qed

end

section \<open>Shutdown\<close>

lemma goes_stop_all:
  assumes "matches (Suc n) s p" and "calls s n = ShutStop is" and "distinct is"
    and "\<forall>i \<in> set is. i < next_child p \<and> session (heap p i) = Some i \<and> stoppers (kids s i) n = PIdle"
  shows "\<exists>s'. goes ops s s' \<and> matches (Suc n) s' (stop_all is p) \<and> calls s' = (calls s)(n := ShutDone)"
  using assms
proof (induction "is" arbitrary: s p)
  case Nil
  have "goes ops s (goto n ShutDone s)" using Nil.prems(2) by (intro goes_move [of ops s n]) simp
  with matches_goto [OF Nil.prems(1), of n ShutDone] show ?case by (intro exI [of _ "goto n ShutDone s"]) simp
next
  case (Cons i js)
  have i: "i < next_child p" "session (heap p i) = Some i" "stoppers (kids s i) n = PIdle" using Cons.prems(4) by simp_all
  have st: "settled i (kids s i) (heap p i) (i \<in> live p)" using Cons.prems(1) i by (simp add: matches_def)
  then have c: "child (kids s i) = heap p i" "startDone (heap p i) = Some True" by (simp_all add: settled_def)
  from stop_schedule [of "kids s i" i n] c i obtain x where
    x: "child_run (replicate 4 (AStop n False)) (kids s i) = Some x" "child x = stop_enter (heap p i)"
    "stoppers x = (stoppers (kids s i))(n := PDone)" "open_sessions x = open_sessions (kids s i) - {i}" by auto
  let ?s1 = "put_kid i x s" and ?p1 = "stop_child i p"
  have g1: "goes ops s ?s1" by (rule goes_stop [of _ n]) (use x(1) Cons.prems(2) in simp_all)
  let ?s2 = "goto n (ShutStop js) ?s1"
  have g2: "goes ops ?s1 ?s2" using x(3) Cons.prems(2) by (intro goes_move [of ops ?s1 n]) simp
  have p1: "?p1 = p\<lparr>heap := (heap p)(i := stop_enter (heap p i)), live := live p - {i}\<rparr>"
    using i(2) by (simp add: stop_child_def child_Stop_running)
  have "settled i x (stop_enter (heap p i)) (i \<in> live p - {i})"
    using st x c by (simp add: settled_def stop_enter_def)
  then have "matches (Suc n) ?s1 ?p1"
    unfolding p1 using Cons.prems(1) x(3) by (intro matches_kid [OF Cons.prems(1) i(1)]) (auto simp: matches_def)
  then have m2: "matches (Suc n) ?s2 ?p1" by (rule matches_goto) simp
  have rest: "\<forall>j \<in> set js. j < next_child ?p1 \<and> session (heap ?p1 j) = Some j \<and> stoppers (kids ?s2 j) n = PIdle"
    using Cons.prems(3,4) by (auto simp: p1)
  have "calls ?s2 n = ShutStop js" "distinct js" using Cons.prems(3) by simp_all
  from Cons.IH [OF m2 this rest] obtain s' where s': "goes ops ?s2 s'" "matches (Suc n) s' (stop_all js ?p1)"
    "calls s' = (calls ?s2)(n := ShutDone)" by blast
  have "goes ops s s'" using g1 g2 s'(1) goes_trans by metis
  with s' show ?case by (intro exI [of _ s']) simp
qed

lemma goes_shutdown:
  assumes inv: "proxy_inv ops p" and m: "matches n s p" and o: "distinct order" "set order = dom (children p)"
  shows "\<exists>s'. goes ops s s' \<and> matches (Suc n) s' (Shutdown order p) \<and> calls s' = (calls s)(n := ShutDone)"
proof -
  let ?is = "map (\<lambda>k. the (children p k)) order"
  have free: "calls s n = Idle" and idle: "stoppers (kids s i) n = PIdle" for i using m by (simp_all add: matches_def)
  let ?s1 = "goto n (enter ReqShutdown) s"
  have g1: "goes ops s ?s1" using free by (rule goes_call)
  let ?s2 = "goto n (ShutStop ?is) (?s1\<lparr>table := Map.empty\<rparr>)"
  have t: "table s = children p" "readers s = {}" using m by (simp_all add: matches_def)
  have g2: "goes ops ?s1 ?s2"
    using o t by (intro goes_step [of _ "PShut n order"]) (simp add: shut_move_def enter_def)
  have m2: "matches (Suc n) ?s2 (p\<lparr>children := Map.empty\<rparr>)" using m by (auto simp: matches_def)
  have "i < next_child p \<and> session (heap p i) = Some i" if "i \<in> set ?is" for i
  proof -
    from that o(2) obtain k where "children p k = Some i" by (auto simp: dom_def)
    from inv_child [OF inv this] show ?thesis by (simp add: child_ok_def)
  qed
  then have "\<forall>i \<in> set ?is. i < next_child (p\<lparr>children := Map.empty\<rparr>) \<and>
      session (heap (p\<lparr>children := Map.empty\<rparr>) i) = Some i \<and> stoppers (kids ?s2 i) n = PIdle"
    using idle by simp
  moreover have "distinct ?is" using order_distinct [OF inv o(1)] o(2) by simp
  ultimately obtain s' where "goes ops ?s2 s'" "matches (Suc n) s' (stop_all ?is (p\<lparr>children := Map.empty\<rparr>))"
    "calls s' = (calls ?s2)(n := ShutDone)"
    using goes_stop_all [OF m2, of ?is ops] by auto
  with goes_trans [OF g1 g2] show ?thesis
    by (intro exI [of _ s']) (auto simp: Shutdown_def intro: goes_trans)
qed

section \<open>The sequential proxy is a schedule\<close>

text \<open>C7. The handlers one call at a time are schedules of the concurrent proxy: for every
  sequence of requests and exits that the sequential model runs, and then \<open>Shutdown\<close> in any
  order, some schedule of sections, child moves and callbacks gives each request the same reply
  and ends with the same registry, table, children and open sessions.\<close>

theorem sequential_is_schedule:
  assumes "mcp_server ops" and "proxy_run ops evs (NewProxy ops) = Some p"
    and "distinct order" and "set order = dom (children p)"
  shows "\<exists>as bs s s'. prun ops as (init_psys ops) = Some s \<and> prun ops bs s = Some s' \<and>
     (\<forall>k < length evs. calls s k = call_end (run_answers ops evs (NewProxy ops) ! k)) \<and>
     calls s' (length evs) = ShutDone \<and>
     (\<forall>(x, q) \<in> {(s, p), (s', Shutdown order p)}.
        registry x = server q \<and> table x = children q \<and> next_kid x = next_child q \<and>
        (\<forall>i < next_child q. child (kids x i) = heap q i \<and>
           open_sessions (kids x i) = (if i \<in> live q then {i} else {})))"
proof -
  note inv = mcp_server.NewProxy_inv [OF assms(1), THEN conjunct1]
  from mcp_server.goes_run [OF assms(1) inv init_matches assms(2)] obtain s where
    s: "goes ops (init_psys ops) s" "matches (length evs) s p"
    "\<forall>k < length evs. calls s k = call_end (run_answers ops evs (NewProxy ops) ! k)" by auto
  from goes_shutdown [OF mcp_server.run_new_inv(1) [OF assms(1,2)] s(2) assms(3,4)] obtain s' where
    s': "goes ops s s'" "matches (Suc (length evs)) s' (Shutdown order p)" "calls s' = (calls s)(length evs := ShutDone)"
    by blast
  from s(1) s'(1) obtain as bs where "prun ops as (init_psys ops) = Some s" "prun ops bs s = Some s'"
    unfolding goes_def by blast
  moreover have same: "registry x = server q \<and> table x = children q \<and> next_kid x = next_child q \<and>
        (\<forall>i < next_child q. child (kids x i) = heap q i \<and>
           open_sessions (kids x i) = (if i \<in> live q then {i} else {}))" if "matches m x q" for m x q
    using that by (simp add: matches_def settled_def)
  have "\<forall>(x, q) \<in> {(s, p), (s', Shutdown order p)}.
      registry x = server q \<and> table x = children q \<and> next_kid x = next_child q \<and>
      (\<forall>i < next_child q. child (kids x i) = heap q i \<and>
         open_sessions (kids x i) = (if i \<in> live q then {i} else {}))"
    using same [OF s(2)] same [OF s'(2)] by blast
  moreover have "calls s' (length evs) = ShutDone" by (simp add: s'(3))
  ultimately show ?thesis using s(3) by blast
qed

lemma sequential_is_schedule_witness:
  "\<exists>as s. prun map_server as (init_psys map_server) = Some s \<and> calls s 1 = ShutDone \<and>
     open_sessions (kids s 0) = {} \<and> table s = Map.empty"
proof -
  have o: "distinct [''srv'']" "set [''srv''] = dom (children one_server)" by (simp_all add: one_server)
  have q: "children (Shutdown [''srv''] one_server) = Map.empty" "next_child (Shutdown [''srv''] one_server) = 1"
    by (simp_all add: Shutdown_def stop_child_def one_server(6) split: prod.split)
  have l: "live (Shutdown [''srv''] one_server) = {}"
    using Shutdown_inv(1) [OF mcp_server.run_new_inv(1) [OF ms.mcp_server_axioms one_server(1)] o]
    by (auto simp: one_server(5) intro: one_server(2))
  from sequential_is_schedule [OF ms.mcp_server_axioms one_server(1) o] obtain as bs s s' where
    s: "prun map_server as (init_psys map_server) = Some s" "prun map_server bs s = Some s'"
    "calls s' 1 = ShutDone" "table s' = Map.empty" "open_sessions (kids s' 0) = {}"
    using q l by auto
  then have "prun map_server (as @ bs) (init_psys map_server) = Some s'" by (simp add: prun_append)
  with s show ?thesis by blast
qed

end
