(* ===== verification/ProxyTable.thy ===== *)
theory ProxyTable
  imports ProxyRaces
begin

text \<open>
  The servers in the table of the proxy (\<open>proxy.go\<close>) under every schedule: a child that some
  call stops has left the table before, so what a client sees is never a stopped server.
\<close>

section \<open>Who stops a child\<close>

text \<open>Only \<open>Stop\<close> makes a child stopped.\<close>

definition stopped_rule :: "child_sys \<Rightarrow> bool" where
  "stopped_rule k \<longleftrightarrow> (status (child k) = StatusStopped \<longrightarrow> (\<exists>j. stoppers k j \<noteq> PIdle))"

lemma start_move_stopped:
  "start_move pc a i k = Some k' \<Longrightarrow> stoppers k' = stoppers k \<and>
     (status (child k') = StatusStopped \<longrightarrow> status (child k) = StatusStopped)"
  by (elim start_moveE) (auto simp: section_defs split: option.splits if_splits answer.splits)

lemma mon_move_stopped:
  "mon_move pc i k = Some k' \<Longrightarrow> stoppers k' = stoppers k \<and>
     (status (child k') = StatusStopped \<longrightarrow> status (child k) = StatusStopped)"
  by (elim mon_moveE) (auto simp: section_defs split: option.splits if_splits)

lemma stop_move_stopped: "stop_move (stoppers k j) t j k = Some k' \<Longrightarrow> stoppers k' j \<noteq> PIdle"
  by (elim stop_moveE) (auto split: option.splits if_splits)

lemma stopped_rule_step:
  assumes "child_step a k = Some k'" and "stopped_rule k"
  shows "stopped_rule k'"
  using assms(1)
proof (cases rule: child_step_cases)
  case (start i b)
  with start_move_stopped [OF start] assms(2) show ?thesis by (auto simp: stopped_rule_def)
next
  case (stop j t)
  then show ?thesis using stop_move_stopped unfolding stopped_rule_def by blast
next
  case (mon i)
  with mon_move_stopped [OF mon] assms(2) show ?thesis by (auto simp: stopped_rule_def)
qed (use assms(2) in \<open>simp_all add: stopped_rule_def\<close>)

lemma creach_stopped_rule: "creach cfg f k \<Longrightarrow> stopped_rule k"
proof (induction rule: creach.induct)
  case init
  show ?case by (simp add: stopped_rule_def init_sys_def NewChild_def)
next
  case (step k a k')
  then show ?case using stopped_rule_step by blast
qed

section \<open>The invariant\<close>

lemma step_stoppers:
  assumes "pstep ops a s = Some s'"
  shows "stoppers (kids s' i) = stoppers (kids s i) \<or> (\<exists>t. stops (calls s t) = Some i) \<or>
     i = next_kid s \<and> (\<forall>t. stoppers (kids s' i) t = PIdle)"
proof (cases a)
  case (PMove t)
  with assms show ?thesis
    by (cases "calls s t")
      (auto simp: Let_def init_sys_def split: option.splits if_splits start_pc.splits sum.splits list.splits)
next
  case (PCrash j)
  with assms show ?thesis by (cases "crashers s j") (auto simp: Let_def)
next
  case (PRead t now)
  with assms show ?thesis by (auto simp: read_move_def split: call_pc.splits list_pc.splits list.splits)
next
  case (PStop t b)
  with assms show ?thesis by (cases "stops (calls s t)"; cases "stops (calls s t) = Some i") (auto simp: kid_step_def)
qed (use assms in \<open>auto simp: arrive_move_def range_move_def shut_move_def handler_move_def kid_step_def mon_step_def
  split: option.splits if_splits prod.splits handler.splits call_pc.splits dest!: start_move_stopped mon_move_stopped\<close>)

lemma stops_kids: "stops pc = Some i \<Longrightarrow> i \<in> set (pc_kids pc)"
  by (cases pc rule: stops.cases) auto

definition table_free :: "'r psys \<Rightarrow> bool" where
  "table_free s \<longleftrightarrow>
     (\<forall>n i. table s n = Some i \<longrightarrow> (\<forall>t. i \<notin> set (pc_kids (calls s t)) \<and> stoppers (kids s i) t = PIdle))"

text \<open>A step puts a child in the table only if it is new, and gives a call one only if it takes it out.\<close>

lemma step_table:
  assumes "pstep ops a s = Some s'" and "table_ok s" and "kids_lt s" and "table s' n = Some i"
  shows "i = next_kid s \<and> (\<forall>t. i \<notin> set (pc_kids (calls s' t)) \<and> stoppers (kids s' i) t = PIdle) \<or>
     table s n = Some i \<and> (\<forall>t. i \<in> set (pc_kids (calls s' t)) \<longrightarrow> i \<in> set (pc_kids (calls s t)))"
  using assms(1)
proof (cases rule: pstep_cases)
  case (call t req)
  with assms(4) show ?thesis by (auto simp: enter_def split: request.splits)
next
  case (view t)
  then obtain pc R where v: "s' = s\<lparr>calls := (calls s)(t := pc), readers := R\<rparr>" "viewing pc" by (auto simp: views_def)
  have "pc_kids pc = []" using v(2) by (cases pc) simp_all
  with v(1) assms(4) show ?thesis by auto
next
  case (move t)
  have new: "next_kid s \<notin> set (pc_kids (calls s u))" for u using assms(3) unfolding kids_lt_def by blast
  have "i = next_kid s \<and> i \<notin> set (pc_kids (calls s' t)) \<and> (\<forall>u. stoppers (kids s' i) u = PIdle) \<or>
      table s n = Some i \<and> (i \<in> set (pc_kids (calls s' t)) \<longrightarrow> i \<in> set (pc_kids (calls s t)))"
  proof (cases "calls s t")
    case (RemEnter m k)
    have "j \<noteq> i" if "table s m = Some j" "m \<noteq> n" "table s n = Some i" for j
      using that assms(2) by (auto simp: table_ok_def)
    with RemEnter move assms(4) show ?thesis by (auto split: if_splits option.splits)
  next
    case (AddEnter input)
    with move assms(4) show ?thesis by (auto simp: init_sys_def split: if_splits option.splits)
  qed (use move assms(4) in \<open>auto simp: after_remove_def Let_def
    split: option.splits if_splits start_pc.splits sum.splits list.splits\<close>)
  moreover have "calls s' u = calls s u" if "u \<noteq> t" for u
    using call_move_readers [OF move] that by (metis fun_upd_apply)
  ultimately show ?thesis using new by metis
next
  case (shut t order)
  with assms(4) show ?thesis by (auto simp: shut_move_def split: if_splits)
next
  case (kid b j)
  with assms(4) show ?thesis by (simp add: moves_kid_def)
next
  case (crash j)
  with assms(4) show ?thesis by (cases "crashers s j") (auto simp: Let_def)
qed

lemma table_free_step:
  assumes "pstep ops a s = Some s'" and tb: "table_ok s" and k: "kids_lt s" and f: "table_free s"
  shows "table_free s'"
  unfolding table_free_def
proof (intro allI impI)
  fix n i t
  assume n: "table s' n = Some i"
  show "i \<notin> set (pc_kids (calls s' t)) \<and> stoppers (kids s' i) t = PIdle"
  proof (cases "table s n = Some i")
    case True
    then have old: "i \<notin> set (pc_kids (calls s u))" "stoppers (kids s i) u = PIdle" for u
      using f by (simp_all add: table_free_def)
    moreover have "i \<noteq> next_kid s" using True tb by (auto simp: table_ok_def)
    ultimately show ?thesis
      using step_table [OF assms(1) tb k n] step_stoppers [OF assms(1), of i] stops_kids by metis
  next
    case False
    with step_table [OF assms(1) tb k n] show ?thesis by blast
  qed
qed

lemma table_free_reach: "preach ops s \<Longrightarrow> mcp_server ops \<Longrightarrow> table_free s"
proof (induction rule: preach.induct)
  case init
  show ?case by (simp add: table_free_def init_psys_def)
next
  case (step s a s')
  have "kids_lt s" using mcp_server.reach_parts [OF step.prems step.hyps(1)] by blast
  with step show ?case
    using table_free_step mcp_server.threads_inv_reach unfolding threads_inv_def by blast
qed

lemma table_status:
  assumes "mcp_server ops" and "preach ops s" and "table s n = Some i"
  shows "status (child (kids s i)) \<noteq> StatusStopped"
proof
  assume st: "status (child (kids s i)) = StatusStopped"
  obtain f cfg where "creach cfg f (kids s i)"
    using kid_reach mcp_server.reach_parts(1) [OF assms(1,2)] by blast
  with st obtain j where "stoppers (kids s i) j \<noteq> PIdle"
    using creach_stopped_rule unfolding stopped_rule_def by blast
  then show False using table_free_reach [OF assms(2,1)] assms(3) by (simp add: table_free_def)
qed

text \<open>C13. What a client can see is not being stopped, under every schedule: the child of a table entry
  was configured under the name it is found by, no other entry has it, no call is stopping
  it or has stopped it, and its status is new, starting, running or crashed.\<close>

theorem table_never_stopped:
  assumes "mcp_server ops" and "preach ops s" and "table s n = Some i"
  shows "kid_name s i = n \<and> (\<forall>m. table s m = Some i \<longrightarrow> m = n) \<and>
     (\<forall>t. stops (calls s t) \<noteq> Some i \<and> stoppers (kids s i) t = PIdle) \<and>
     status (child (kids s i)) \<in> {StatusNew, StatusStarting, StatusRunning, StatusCrashed}"
proof (intro conjI allI impI)
  have tb: "table_ok s" using mcp_server.threads_inv_reach [OF assms(1,2)] by (simp add: threads_inv_def)
  then show "kid_name s i = n" using assms(3) by (simp add: table_ok_def)
  show "m = n" if "table s m = Some i" for m using tb that assms(3) by (auto simp: table_ok_def)
  note f = table_free_reach [OF assms(2,1), unfolded table_free_def, rule_format, OF assms(3)]
  show "stops (calls s t) \<noteq> Some i" "stoppers (kids s i) t = PIdle" for t using f [of t] stops_kids by blast+
  show "status (child (kids s i)) \<in> {StatusNew, StatusStarting, StatusRunning, StatusCrashed}"
    using table_status [OF assms] by (cases "status (child (kids s i))") simp_all
qed

text \<open>A removal is stopping its child while the name is in use again.\<close>

definition reused_acts :: "paction list" where
  "reused_acts =
     [PCall 1 (ReqAdd race_input), PMove 1, PCall 2 (ReqRemove ''srv''), PMove 2, PMove 2, PStop 2 False,
      PCall 3 (ReqAdd race_input), PMove 3]"

lemma reused_run:
  "prun map_server reused_acts (init_psys map_server) \<noteq> None"
  "table (pafter reused_acts) ''srv'' = Some 1" "stops (calls (pafter reused_acts) 2) = Some 0"
  by (simp_all add: psys_simps reused_acts_def)

lemma table_never_stopped_witness:
  "stops (calls (pafter reused_acts) 2) = Some 0 \<and> table (pafter reused_acts) ''srv'' = Some 1 \<and>
   stoppers (kids (pafter reused_acts) 1) 2 = PIdle"
  using table_never_stopped [OF ms.mcp_server_axioms pafter_reach [OF reused_run(1)] reused_run(2)] reused_run(2,3)
  by blast

end
