(* ===== verification/ProxyCalls.thy ===== *)
theory ProxyCalls
  imports ProxySchedules ProxyTable
begin

text \<open>
  What the reading calls of the proxy (\<open>proxy.go\<close>) show and reach while everything else goes
  on: the entries of \<open>list_servers\<close>, and the child a tool's handler calls.
\<close>

section \<open>A child that has left its start\<close>

definition past_start :: "Child \<Rightarrow> bool" where
  "past_start c \<longleftrightarrow> status c \<noteq> StatusNew \<and> status c \<noteq> StatusStarting"

definition kid_later :: "child_sys \<Rightarrow> child_sys \<Rightarrow> bool" where
  "kid_later k k' \<longleftrightarrow>
     Config (child k') = Config (child k) \<and>
     (past_start (child k) \<longrightarrow> past_start (child k') \<and> tools (child k') = tools (child k))"

lemma kid_later_refl [simp]: "kid_later k k"
  by (simp add: kid_later_def)

lemma start_move_past_start:
  "start_move pc a i s = Some s' \<Longrightarrow> past_start (child s) \<Longrightarrow> past_start (child s') \<and> tools (child s') = tools (child s)"
  by (elim start_moveE) (auto simp: past_start_def section_defs split: option.splits if_splits answer.splits)

lemma stop_move_past_start:
  "stop_move pc a j s = Some s' \<Longrightarrow> past_start (child s) \<Longrightarrow> past_start (child s') \<and> tools (child s') = tools (child s)"
  by (elim stop_moveE) (auto simp: past_start_def section_defs split: option.splits if_splits)

lemma mon_move_past_start:
  "mon_move pc i s = Some s' \<Longrightarrow> past_start (child s) \<Longrightarrow> past_start (child s') \<and> tools (child s') = tools (child s)"
  by (elim mon_moveE) (auto simp: past_start_def section_defs split: option.splits if_splits)

lemma child_step_later: "child_step a k = Some k' \<Longrightarrow> kid_later k k'"
  unfolding kid_later_def
  by (rule conjI, rule child_step_Config, assumption, elim child_step_cases)
    (auto dest: start_move_past_start stop_move_past_start mon_move_past_start)

section \<open>Where the table and the children stand still\<close>

text \<open>While some call holds the read lock.\<close>

definition stands :: "'r psys \<Rightarrow> 'r psys \<Rightarrow> bool" where
  "stands s s' \<longleftrightarrow> table s' = table s \<and> next_kid s' = next_kid s \<and> (\<forall>i. kid_later (kids s i) (kids s' i))"

lemma call_move_stands:
  "call_move ops (calls s t) t s = Some s' \<Longrightarrow> readers s \<noteq> {} \<Longrightarrow> stands s s'"
  by (cases "calls s t")
    (auto simp: stands_def Let_def split: option.splits if_splits start_pc.splits sum.splits list.splits)

lemma view_stands: "views t s s' \<Longrightarrow> stands s s'"
  by (auto simp: views_def stands_def)

lemma kid_stands: "moves_kid b i s s' \<Longrightarrow> stands s s'"
  unfolding stands_def moves_kid_def by (metis child_step_later kid_later_refl)

lemma step_stands:
  assumes "pstep ops a s = Some s'" and "readers s \<noteq> {}"
  shows "stands s s'"
  using assms(1)
proof (cases rule: pstep_cases)
  case (call t req)
  then show ?thesis by (simp add: stands_def)
next
  case (view t)
  then show ?thesis by (rule view_stands)
next
  case (move t)
  then show ?thesis using assms(2) by (rule call_move_stands)
next
  case (shut order t)
  with assms(2) show ?thesis by (simp add: shut_move_def)
next
  case (kid b i)
  then show ?thesis by (rule kid_stands)
next
  case (crash i)
  then show ?thesis by (cases "crashers s i") (auto simp: stands_def Let_def)
qed

section \<open>The entries of list_servers\<close>

fun list_todo :: "list_pc \<Rightarrow> (gostring \<times> nat) list" where
  "list_todo (LNext todo acc) = todo" | "list_todo (LTools n i todo acc) = todo"
| "list_todo (LTime n i ns todo acc) = todo" | "list_todo (LStat n i ns u todo acc) = todo"
| "list_todo (LPid n i ns u st todo acc) = todo"

fun list_acc :: "list_pc \<Rightarrow> serverInfo list" where
  "list_acc (LNext todo acc) = acc" | "list_acc (LTools n i todo acc) = acc"
| "list_acc (LTime n i ns todo acc) = acc" | "list_acc (LStat n i ns u todo acc) = acc"
| "list_acc (LPid n i ns u st todo acc) = acc"

fun list_cur :: "list_pc \<Rightarrow> (gostring \<times> nat) list" where
  "list_cur (LNext todo acc) = []" | "list_cur (LTools n i todo acc) = [(n, i)]"
| "list_cur (LTime n i ns todo acc) = [(n, i)]" | "list_cur (LStat n i ns u todo acc) = [(n, i)]"
| "list_cur (LPid n i ns u st todo acc) = [(n, i)]"

text \<open>The tool names read for a server are none, or all of a child past its start.\<close>

definition names_ok :: "gostring \<Rightarrow> Child \<Rightarrow> gostring list \<Rightarrow> bool" where
  "names_ok n c ns \<longleftrightarrow> ns = [] \<or> (past_start c \<and> ns = tool_names n (tools c))"

text \<open>A status that is read of a child that is not stopped, after its tools were.\<close>

definition late_status :: "gostring list \<Rightarrow> gostring \<Rightarrow> bool" where
  "late_status ns st \<longleftrightarrow>
     st \<in> {''new'', ''starting'', ''running'', ''crashed''} \<and> (ns = [] \<or> st \<in> {''running'', ''crashed''})"

fun cur_ok :: "list_pc \<Rightarrow> (nat \<Rightarrow> Child) \<Rightarrow> bool" where
  "cur_ok (LNext todo acc) h = True" | "cur_ok (LTools n i todo acc) h = past_start (h i)"
| "cur_ok (LTime n i ns todo acc) h = names_ok n (h i) ns"
| "cur_ok (LStat n i ns u todo acc) h = names_ok n (h i) ns"
| "cur_ok (LPid n i ns u st todo acc) h = (names_ok n (h i) ns \<and> late_status ns st)"

definition info_ok :: "(gostring \<rightharpoonup> nat) \<Rightarrow> (nat \<Rightarrow> Child) \<Rightarrow> serverInfo \<Rightarrow> bool" where
  "info_ok m h e \<longleftrightarrow>
     (\<exists>i. m (si_Name e) = Some i \<and> si_Command e = cfg_Command (Config (h i)) \<and>
        si_Args e = cfg_Args (Config (h i)) \<and> names_ok (si_Name e) (h i) (si_Tools e) \<and> late_status (si_Tools e) (si_Status e))"

definition list_ok :: "(gostring \<rightharpoonup> nat) \<Rightarrow> (nat \<Rightarrow> Child) \<Rightarrow> list_pc \<Rightarrow> bool" where
  "list_ok m h lp \<longleftrightarrow>
     distinct (map si_Name (list_acc lp) @ map fst (list_cur lp @ list_todo lp)) \<and>
     set (map si_Name (list_acc lp) @ map fst (list_cur lp @ list_todo lp)) = dom m \<and>
     (\<forall>x \<in> set (list_cur lp @ list_todo lp). m (fst x) = Some (snd x)) \<and>
     cur_ok lp h \<and> (\<forall>e \<in> set (list_acc lp). info_ok m h e)"

definition later :: "(nat \<Rightarrow> Child) \<Rightarrow> (nat \<Rightarrow> Child) \<Rightarrow> bool" where
  "later h h' \<longleftrightarrow>
     (\<forall>i. Config (h' i) = Config (h i) \<and> (past_start (h i) \<longrightarrow> past_start (h' i) \<and> tools (h' i) = tools (h i)))"

lemma late_status_now:
  "names_ok n c ns \<Longrightarrow> status c \<noteq> StatusStopped \<Longrightarrow> late_status ns (status_String (status c))"
  by (cases "status c") (auto simp: names_ok_def late_status_def past_start_def)

lemma names_later: "later h h' \<Longrightarrow> names_ok n (h i) ns \<Longrightarrow> names_ok n (h' i) ns"
  by (auto simp: names_ok_def later_def)

lemma list_later:
  assumes "later h h'" and "list_ok m h lp"
  shows "list_ok m h' lp"
proof -
  have "cur_ok lp h'"
  proof (cases lp)
    case (LTools n i todo acc)
    with assms show ?thesis by (simp add: list_ok_def later_def)
  qed (use assms names_later [OF assms(1)] in \<open>auto simp: list_ok_def\<close>)
  moreover have "info_ok m h' e" if "info_ok m h e" for e
    using that assms(1) unfolding info_ok_def by (metis later_def names_later)
  ultimately show ?thesis using assms(2) by (auto simp: list_ok_def)
qed

lemma list_ok_move:
  "list_ok m h lp \<Longrightarrow> (\<And>n i. m n = Some i \<Longrightarrow> status (h i) \<noteq> StatusStopped) \<Longrightarrow> list_ok m h (list_move now lp h)"
  by (cases "(now, lp, h)" rule: list_move.cases)
    (auto simp: list_ok_def names_ok_def info_ok_def entry_of_def past_start_def intro: late_status_now)

lemma list_ok_start:
  assumes "distinct order" and "set order = dom m"
  shows "list_ok m h (LNext (map (\<lambda>n. (n, the (m n))) order) [])"
  using assms by (auto simp: list_ok_def comp_def dom_def)

definition lists_ok :: "'r psys \<Rightarrow> bool" where
  "lists_ok s \<longleftrightarrow> (\<forall>t lp. calls s t = Listing lp \<longrightarrow> list_ok (table s) (\<lambda>i. child (kids s i)) lp)"

lemma stands_later: "stands s s' \<Longrightarrow> later (\<lambda>i. child (kids s i)) (\<lambda>i. child (kids s' i))"
  by (simp add: stands_def later_def kid_later_def)

text \<open>How a call comes to be in the loop.\<close>

lemma step_listing:
  assumes "pstep ops a s = Some s'" and "calls s' t = Listing lp"
  shows "calls s t = Listing lp \<or>
     table s' = table s \<and> kids s' = kids s \<and>
       ((\<exists>order. distinct order \<and> set order = dom (table s) \<and>
           lp = LNext (map (\<lambda>n. (n, the (table s n))) order) []) \<or>
        (\<exists>now lp0. calls s t = Listing lp0 \<and> lp = list_move now lp0 (\<lambda>i. child (kids s i))))"
proof (cases a)
  case (PMove u)
  with assms(1) have m: "call_move ops (calls s u) u s = Some s'" by simp
  note r = call_move_readers [OF m]
  have "u \<noteq> t" using r assms(2) by auto
  then have "calls s' t = calls s t" using r by (metis fun_upd_apply)
  with assms(2) show ?thesis by simp
next
  case (PRead u now)
  with assms show ?thesis
    by (auto simp: read_move_def split: call_pc.splits list_pc.splits list.splits if_splits)
next
  case (PHandle u b)
  with assms show ?thesis
    by (cases "u = t") (auto simp: handler_move_def elim!: tool_move.elims split: call_pc.splits option.splits sum.splits if_splits)
next
  case (PCrash i)
  with assms show ?thesis by (cases "crashers s i") (auto simp: Let_def)
qed (use assms in \<open>auto simp: enter_def arrive_move_def range_move_def shut_move_def kid_step_def mon_step_def
  split: option.splits if_splits request.splits prod.splits handler.splits\<close>)

lemma lists_ok_step:
  assumes "pstep ops a s = Some s'" and "readers_ok s" and "lists_ok s"
    and st: "\<And>n i. table s n = Some i \<Longrightarrow> status (child (kids s i)) \<noteq> StatusStopped"
  shows "lists_ok s'"
  unfolding lists_ok_def
proof (intro allI impI)
  fix t lp
  assume c: "calls s' t = Listing lp"
  from step_listing [OF assms(1) c] show "list_ok (table s') (\<lambda>i. child (kids s' i)) lp"
  proof (elim disjE conjE exE)
    assume o: "calls s t = Listing lp"
    then have "readers s \<noteq> {}" using assms(2) unfolding readers_ok_def by (metis empty_iff listing.simps(1))
    then have st: "stands s s'" by (rule step_stands [OF assms(1)])
    then have "table s' = table s" by (simp add: stands_def)
    with o assms(3) list_later [OF stands_later [OF st]] show ?thesis by (simp add: lists_ok_def)
  next
    fix order
    assume "distinct order" "set order = dom (table s)" "table s' = table s" "kids s' = kids s"
      "lp = LNext (map (\<lambda>n. (n, the (table s n))) order) []"
    then show ?thesis by (simp add: list_ok_start)
  next
    fix now lp0
    assume "calls s t = Listing lp0" "table s' = table s" "kids s' = kids s"
      "lp = list_move now lp0 (\<lambda>i. child (kids s i))"
    with assms(3) st show ?thesis by (simp add: lists_ok_def list_ok_move)
  qed
qed

lemma lists_reach: "preach ops s \<Longrightarrow> mcp_server ops \<Longrightarrow> lists_ok s"
proof (induction rule: preach.induct)
  case init
  show ?case by (simp add: lists_ok_def init_psys_def)
next
  case (step s a s')
  then show ?case using lists_ok_step [OF step.hyps(2) readers_reach] table_status by blast
qed

section \<open>Listing while everything else goes on\<close>

text \<open>A call \<open>2\<close> lists the one server there is, up to the reply; the server may die after its
  status and its tools have been read.\<close>

definition list_acts :: "paction list \<Rightarrow> paction list" where
  "list_acts between =
     add_to_check 1 @ register_acts 1 @ [PCall 2 ReqList, PList 2 [''srv''], PRead 2 0, PRead 2 0] @
     between @ [PRead 2 9, PRead 2 0, PRead 2 0]"

definition dying_acts :: "paction list" where
  "dying_acts = [PMon 0, PDie 0, PMon 0, PMon 0]"

lemmas list_run_simps =
  psys_simps list_acts_def dying_acts_def range_move_def read_move_def entry_of_def sample_tool_def
  PrefixTool_def namespaceSep_def monitor_exit_def

lemma list_runs:
  "prun map_server (list_acts []) (init_psys map_server) \<noteq> None"
  "prun map_server (list_acts dying_acts @ [PRead 2 0]) (init_psys map_server) \<noteq> None"
  by (simp_all add: list_run_simps)

definition sample_entry :: "gostring \<Rightarrow> serverInfo" where
  "sample_entry st =
     \<lparr>si_Name = ''srv'', si_Command = ''echoserver'', si_Args = [], si_Status = st,
      si_Tools = [''srv__echo''], si_PID = 7, si_Uptime = 4\<rparr>"

lemma list_ends:
  "calls (pafter (list_acts [])) 2 = Listing (LNext [] [sample_entry ''running''])"
  "calls (pafter (list_acts dying_acts @ [PRead 2 0])) 2 = Replied (textResult False (Servers [sample_entry ''crashed'']))"
  "table (pafter (list_acts dying_acts @ [PRead 2 0])) = [''srv'' \<mapsto> 0]"
  by (simp_all add: list_run_simps sample_entry_def)

text \<open>C6. \<open>list_servers\<close> under every schedule: once its loop is over, the reply has exactly one
  entry for every server of the table, which no step can change before the lock is given
  back; an entry has the command and the arguments of its server's child and a status other
  than stopped; its tools are none, or all of that child's, exported under the server's name,
  and then its status is running or crashed.\<close>

theorem list_servers_concurrent:
  assumes "mcp_server ops" and "preach ops s" and "calls s t = Listing (LNext [] acc)"
  shows "(\<exists>s'. pstep ops (PRead t now) s = Some s' \<and> calls s' t = Replied (textResult False (Servers acc)) \<and>
        readers s' = readers s - {t}) \<and>
     (\<forall>a s'. pstep ops a s = Some s' \<longrightarrow> table s' = table s) \<and>
     distinct (map si_Name acc) \<and> set (map si_Name acc) = dom (table s) \<and>
     (\<forall>e \<in> set acc. \<exists>i. table s (si_Name e) = Some i \<and> kid_name s i = si_Name e \<and>
        si_Command e = cfg_Command (Config (child (kids s i))) \<and> si_Args e = cfg_Args (Config (child (kids s i))) \<and>
        si_Status e \<in> {''new'', ''starting'', ''running'', ''crashed''} \<and>
        (si_Tools e = [] \<or> si_Tools e = tool_names (si_Name e) (Tools (child (kids s i))) \<and>
           si_Status e \<in> {''running'', ''crashed''}))"
proof (intro conjI ballI allI impI)
  have ok: "list_ok (table s) (\<lambda>i. child (kids s i)) (LNext [] acc)"
    using lists_reach [OF assms(2,1)] assms(3) by (simp add: lists_ok_def)
  then show "distinct (map si_Name acc)" "set (map si_Name acc) = dom (table s)" by (simp_all add: list_ok_def)
  show "\<exists>s'. pstep ops (PRead t now) s = Some s' \<and> calls s' t = Replied (textResult False (Servers acc)) \<and>
      readers s' = readers s - {t}"
    using assms(3) by (simp add: read_move_def)
  have "readers s \<noteq> {}"
    using readers_reach [OF assms(2)] assms(3) unfolding readers_ok_def by (metis empty_iff listing.simps(1))
  then show "table s' = table s" if "pstep ops a s = Some s'" for a s'
    using step_stands [OF that] by (simp add: stands_def)
  have tbl: "table_ok s" using mcp_server.threads_inv_reach [OF assms(1,2)] by (simp add: threads_inv_def)
  fix e
  assume "e \<in> set acc"
  with ok have "info_ok (table s) (\<lambda>i. child (kids s i)) e" by (simp add: list_ok_def)
  then show "\<exists>i. table s (si_Name e) = Some i \<and> kid_name s i = si_Name e \<and>
      si_Command e = cfg_Command (Config (child (kids s i))) \<and> si_Args e = cfg_Args (Config (child (kids s i))) \<and>
      si_Status e \<in> {''new'', ''starting'', ''running'', ''crashed''} \<and>
      (si_Tools e = [] \<or> si_Tools e = tool_names (si_Name e) (Tools (child (kids s i))) \<and>
         si_Status e \<in> {''running'', ''crashed''})"
    using tbl by (auto simp: info_ok_def names_ok_def late_status_def table_ok_def)
qed

lemma list_servers_concurrent_witness:
  "dom (table (pafter (list_acts []))) = {''srv''}"
proof -
  have "set (map si_Name [sample_entry ''running'']) = dom (table (pafter (list_acts [])))"
    using list_servers_concurrent [OF ms.mcp_server_axioms pafter_reach [OF list_runs(1)] list_ends(1)] by blast
  then show ?thesis by (simp add: sample_entry_def)
qed

text \<open>C28. An entry of \<open>list_servers\<close> may be torn: the status is read twice, first to decide
  whether the tools are listed and then for the entry, without the child's lock in between, so
  a reply may show a crashed server together with its tools.\<close>

theorem list_entry_torn:
  "\<exists>s acc e. preach map_server s \<and> calls s 2 = Replied (textResult False (Servers acc)) \<and> e \<in> set acc \<and>
     si_Status e = ''crashed'' \<and> si_Tools e \<noteq> [] \<and> table s (si_Name e) = Some 0 \<and>
     si_Tools (server_info 0 (si_Name e) (child (kids s 0))) = []"
proof (intro exI conjI)
  show "calls (pafter (list_acts dying_acts @ [PRead 2 0])) 2 = Replied (textResult False (Servers [sample_entry ''crashed'']))"
    by (rule list_ends(2))
  show "sample_entry ''crashed'' \<in> set [sample_entry ''crashed'']" by simp
  show "si_Tools (server_info 0 (si_Name (sample_entry ''crashed'')) (child (kids (pafter (list_acts dying_acts @ [PRead 2 0])) 0))) = []"
    by (simp add: list_run_simps server_info_def)
qed (simp_all add: pafter_reach list_runs(2) list_ends(3) sample_entry_def)

section \<open>The child a tool call reaches\<close>

fun tool_target :: "tool_pc \<Rightarrow> gostring \<times> gostring \<times> gostring" where
  "tool_target (TLook sv tool args) = (sv, tool, args)" | "tool_target (TSess sv tool args i) = (sv, tool, args)"
| "tool_target (TSend sv tool args i k) = (sv, tool, args)"

text \<open>A call of a server's tool: in its handler, or ended with one of the handler's own error
  replies or with a forwarded result.\<close>

fun calls_tool :: "gostring \<Rightarrow> gostring \<Rightarrow> gostring \<Rightarrow> call_pc \<Rightarrow> bool" where
  "calls_tool sv tool args (Tooling tp) = (tool_target tp = (sv, tool, args))"
| "calls_tool sv tool args (Replied r) =
     (isError r \<and> content r \<in> {NotFound sv, NotRunning sv} \<union> range (CallFailed sv tool))"
| "calls_tool sv tool args (Forwarded x) = True"
| "calls_tool sv tool args _ = False"

lemma tool_move_calls:
  "tool_move a tp s = Some pc \<Longrightarrow> tool_target tp = (sv, tool, args) \<Longrightarrow> calls_tool sv tool args pc"
  by (cases tp) (auto simp: textResult_def split: option.splits sum.splits if_splits)

lemma step_calls_tool:
  assumes "pstep ops a s = Some s'" and c: "calls_tool sv tool args (calls s t)"
  shows "calls_tool sv tool args (calls s' t)"
proof (cases a)
  case (PMove u)
  with assms(1) have m: "call_move ops (calls s u) u s = Some s'" by simp
  then have "u \<noteq> t" using c by (cases "calls s t") auto
  then have "calls s' t = calls s t" using call_move_readers [OF m] by (metis fun_upd_apply)
  with c show ?thesis by simp
next
  case (PHandle u b)
  with assms show ?thesis
    by (cases "u = t") (auto simp: handler_move_def tool_move_calls split: call_pc.splits)
next
  case (PRead u now)
  with assms show ?thesis
    by (cases "u = t") (auto simp: read_move_def split: call_pc.splits list_pc.splits list.splits)
next
  case (PCrash i)
  with assms show ?thesis by (cases "crashers s i") (auto simp: Let_def)
qed (use assms in \<open>auto simp: enter_def arrive_move_def range_move_def shut_move_def kid_step_def mon_step_def
  split: option.splits if_splits request.splits prod.splits handler.splits\<close>)

lemma run_calls_tool:
  "prun ops as s = Some s' \<Longrightarrow> calls_tool sv tool args (calls s t) \<Longrightarrow> calls_tool sv tool args (calls s' t)"
  by (induction as arbitrary: s) (auto split: option.splits dest: step_calls_tool)

text \<open>The child a handler has found, and the session it has read of it.\<close>

fun found :: "call_pc \<Rightarrow> (gostring \<times> nat) option" where
  "found (Tooling (TSess sv tool args i)) = Some (sv, i)"
| "found (Tooling (TSend sv tool args i k)) = Some (sv, i)"
| "found _ = None"

fun took :: "call_pc \<Rightarrow> (nat \<times> nat) option" where
  "took (Tooling (TSend sv tool args i k)) = Some (i, k)"
| "took _ = None"

definition finds_ok :: "'r psys \<Rightarrow> bool" where
  "finds_ok s \<longleftrightarrow>
     (\<forall>t sv i. found (calls s t) = Some (sv, i) \<longrightarrow> i < next_kid s \<and> kid_name s i = sv) \<and>
     (\<forall>t i k. took (calls s t) = Some (i, k) \<longrightarrow> k = i)"

lemma kid_session:
  assumes "starts_ok s" and "session (child (kids s i)) = Some k"
  shows "k = i"
proof -
  obtain f cfg where c: "creach cfg f (kids s i)" using kid_reach [OF assms(1)] by blast
  have "\<not> untouched (kids s i)" using assms(2) by (auto simp: untouched_def)
  then obtain w where w: "active (kids s i) w" using creach_inv [OF c] by (auto simp: child_inv_def)
  have "w = i"
  proof (rule ccontr)
    assume "w \<noteq> i"
    then have "starters (kids s i) w = SIdle" using assms(1) by (simp add: starts_ok_def)
    with w show False by (simp add: active_def)
  qed
  moreover have "k = w" using w assms(2) by (cases "starters (kids s i) w") (auto simp: active_def owned_def returned_def)
  ultimately show ?thesis by simp
qed

text \<open>How a handler comes to have found a child.\<close>

lemma step_found:
  assumes "pstep ops a s = Some s'" and "found (calls s' t) = Some (sv, i)"
  shows "(found (calls s t) = Some (sv, i) \<or> table s sv = Some i) \<and>
    (took (calls s' t) = Some (i, k) \<longrightarrow> took (calls s t) = Some (i, k) \<or> session (child (kids s i)) = Some k)"
proof (cases a)
  case (PMove u)
  with assms(1) have m: "call_move ops (calls s u) u s = Some s'" by simp
  have "calls s' t = calls s t \<or> found (calls s' t) = None"
    using m by (cases "calls s u") (auto simp: after_remove_def Let_def split: option.splits if_splits start_pc.splits sum.splits list.splits)
  with assms(2) show ?thesis by auto
next
  case (PHandle u b)
  with assms show ?thesis
    by (cases "u = t") (auto simp: handler_move_def elim!: tool_move.elims split: call_pc.splits option.splits sum.splits if_splits)
next
  case (PRead u now)
  with assms show ?thesis
    by (cases "u = t") (auto simp: read_move_def split: call_pc.splits list_pc.splits list.splits)
next
  case (PCrash i)
  with assms show ?thesis by (cases "crashers s i") (auto simp: Let_def)
qed (use assms in \<open>auto simp: enter_def arrive_move_def range_move_def shut_move_def kid_step_def mon_step_def
  split: option.splits if_splits request.splits prod.splits handler.splits\<close>)

lemma kept_kid:
  assumes "pstep ops a s = Some s'" and "i < next_kid s"
  shows "i < next_kid s' \<and> kid_name s' i = kid_name s i"
  using assms(1)
proof (cases rule: pstep_cases)
  case (move t)
  with assms(2) show ?thesis
    by (cases "calls s t")
      (auto simp: kid_name_def Let_def split: option.splits if_splits start_pc.splits sum.splits list.splits)
next
  case (kid b j)
  with assms(2) kid_name_kid [OF kid] show ?thesis by (simp add: moves_kid_def)
next
  case (crash j)
  with assms(2) show ?thesis by (cases "crashers s j") (auto simp: kid_name_def Let_def)
qed (use assms(2) in \<open>auto simp: kid_name_def views_def shut_move_def split: if_splits\<close>)

lemma finds_ok_step:
  assumes "pstep ops a s = Some s'" and f: "finds_ok s" and "table_ok s" and "starts_ok s"
  shows "finds_ok s'"
  unfolding finds_ok_def
proof (intro conjI allI impI)
  fix t sv i
  assume n: "found (calls s' t) = Some (sv, i)"
  have "i < next_kid s \<and> kid_name s i = sv"
    using step_found [OF assms(1) n] f assms(3) unfolding finds_ok_def table_ok_def by blast
  with kept_kid [OF assms(1)] show "i < next_kid s'" "kid_name s' i = sv" by blast+
next
  fix t i k
  assume n: "took (calls s' t) = Some (i, k)"
  then obtain sv where "found (calls s' t) = Some (sv, i)" by (cases "calls s' t") (auto elim!: took.elims)
  from step_found [OF assms(1) this, of k] n f kid_session [OF assms(4)] show "k = i"
    unfolding finds_ok_def by blast
qed

lemma finds_reach: "preach ops s \<Longrightarrow> mcp_server ops \<Longrightarrow> finds_ok s"
proof (induction rule: preach.induct)
  case init
  show ?case by (simp add: finds_ok_def init_psys_def)
next
  case (step s a s')
  then show ?case
    using finds_ok_step mcp_server.threads_inv_reach unfolding threads_inv_def by blast
qed

text \<open>C4. A tool call reaches the right child under every schedule: a call of the registered name
  \<open>n\<close> is of the server and the tool that \<open>n\<close> splits into; while its handler runs, the child
  it has found is one that was configured under that server's name, and the session it is
  sent to is that child's own, which answers only as long as it is open; once it has ended, it
  has given one of the three error replies of the handler, of that server, or a child's result.\<close>

theorem tool_call_routed:
  assumes "mcp_server ops" and "preach ops s" and "pstep ops (PTool t n args) s = Some s1" and "prun ops as s1 = Some s'"
  shows "\<exists>sv tool. SplitTool n = (sv, tool, True) \<and> ValidateServerName sv = None \<and>
     calls_tool sv tool args (calls s' t) \<and>
     (\<forall>sv' i. found (calls s' t) = Some (sv', i) \<longrightarrow> sv' = sv \<and> i < next_kid s' \<and> kid_name s' i = sv) \<and>
     (\<forall>i k. took (calls s' t) = Some (i, k) \<longrightarrow> k = i \<and>
        (handler_move (Inr x) t s' \<noteq> None \<longleftrightarrow> i \<in> open_sessions (kids s' i)))"
proof -
  from assms(3) obtain y sv tool where l: "lookupTool ops (registry s) n = Some (y, ProxyTool sv tool)"
    and s1: "s1 = goto t (Tooling (TLook sv tool args)) s"
    by (auto simp: arrive_move_def split: if_splits option.splits prod.splits handler.splits)
  have reg: "registry_ok (lookupTool ops (registry s))"
    using mcp_server.threads_inv_reach [OF assms(1,2)] by (simp add: threads_inv_def)
  have "has_sep n"
  proof (rule ccontr)
    assume "\<not> has_sep n"
    with reg l have "mgmt_entries n = Some (y, ProxyTool sv tool)" by (simp add: registry_ok_def)
    then show False by (auto simp: mgmt_entries_def split: if_splits)
  qed
  with reg l have "typed_entry n (y, ProxyTool sv tool)" by (simp add: registry_ok_def)
  then have n: "valid_name sv" "SplitTool n = (sv, tool, True)" by (auto simp: typed_entry_def ns.dec_enc)
  have "calls_tool sv tool args (calls s1 t)" by (simp add: s1)
  then have c: "calls_tool sv tool args (calls s' t)" using assms(4) run_calls_tool by blast
  have r: "preach ops s'" using preach_run [OF preach.step [OF assms(2,3)] assms(4)] .
  note f = finds_reach [OF r assms(1), unfolded finds_ok_def]
  have "found (calls s' t) = Some (sv', i) \<Longrightarrow> sv' = sv" for sv' i
    using c by (cases "calls s' t") (auto elim!: found.elims)
  moreover have "took (calls s' t) = Some (i, k) \<Longrightarrow>
      handler_move (Inr x) t s' \<noteq> None \<longleftrightarrow> k \<in> open_sessions (kids s' i)" for i k
    by (cases "calls s' t") (auto simp: handler_move_def elim!: took.elims split: if_splits)
  ultimately show ?thesis using n c f by (intro exI [of _ sv] exI [of _ tool]) (auto, blast+)
qed

text \<open>The tool of a server that is removed while the handler runs.\<close>

definition tool_acts :: "paction list" where
  "tool_acts =
     [PHandle 2 (Inl []), PHandle 2 (Inl []), PCall 3 (ReqRemove ''srv''), PMove 3]"

definition added_acts :: "paction list" where
  "added_acts = add_to_check 1 @ register_acts 1"

lemma tool_runs:
  "prun map_server (added_acts @ PTool 2 ''srv__echo'' ''{}'' # tool_acts) (init_psys map_server) \<noteq> None"
  "calls (pafter (added_acts @ PTool 2 ''srv__echo'' ''{}'' # tool_acts)) 2 = Tooling (TSend ''srv'' ''echo'' ''{}'' 0 0)"
  "table (pafter (added_acts @ PTool 2 ''srv__echo'' ''{}'' # tool_acts)) ''srv'' = None"
  by (simp_all add: psys_simps added_acts_def tool_acts_def arrive_move_def handler_move_def map_server_def
    sample_tool_def PrefixTool_def namespaceSep_def export_tool_def registerManagementTools_def mgmt_tool_def)

lemma tool_call_routed_witness:
  "\<exists>s. preach map_server s \<and> table s ''srv'' = None \<and>
     (\<exists>sv tool. SplitTool ''srv__echo'' = (sv, tool, True) \<and> kid_name s 0 = sv \<and> calls_tool sv tool ''{}'' (calls s 2))"
proof -
  let ?s = "pafter (added_acts @ PTool 2 ''srv__echo'' ''{}'' # tool_acts)"
  have "prun map_server (added_acts @ PTool 2 ''srv__echo'' ''{}'' # tool_acts) (init_psys map_server) = Some ?s"
    using tool_runs(1) by (simp add: pafter_def)
  then obtain s s1 where s: "prun map_server added_acts (init_psys map_server) = Some s"
    "pstep map_server (PTool 2 ''srv__echo'' ''{}'') s = Some s1" "prun map_server tool_acts s1 = Some ?s"
    by (auto simp: prun_append simp del: pstep.simps split: option.splits)
  have "preach map_server s" using preach_run [OF preach.init s(1)] .
  from tool_call_routed [OF ms.mcp_server_axioms this s(2,3)] tool_runs(2,3) pafter_reach [OF tool_runs(1)]
  show ?thesis by (intro exI [of _ ?s]) auto
qed

section \<open>The reading calls one at a time\<close>









end
