(* ===== verification/ProxyOrigin.thy ===== *)
theory ProxyOrigin
  imports ProxyCalls
begin

text \<open>
  Where the tools on the MCP server come from, under every schedule (\<open>proxy.go\<close>): each was
  discovered by a child that was configured under the server's name.
\<close>

section \<open>Discovered tools\<close>

definition origin :: "'r psys \<Rightarrow> gostring \<Rightarrow> Tool \<Rightarrow> bool" where
  "origin s sv x \<longleftrightarrow>
     (\<exists>i < next_kid s. kid_name s i = sv \<and> past_start (child (kids s i)) \<and> x \<in> set (tools (child (kids s i))))"

fun call_origin :: "'r psys \<Rightarrow> call_pc \<Rightarrow> bool" where
  "call_origin s (AddStart n i) = (i < next_kid s \<and> kid_name s i = n)"
| "call_origin s (AddCheck n i ts) =
     (i < next_kid s \<and> kid_name s i = n \<and> past_start (child (kids s i)) \<and> tools (child (kids s i)) = ts)"
| "call_origin s (AddReg n ts all) = (\<forall>x \<in> set ts. origin s n x)"
| "call_origin s _ = True"

lemma later_kid:
  assumes "pstep ops a s = Some s'" and "i < next_kid s"
  shows "kid_later (kids s i) (kids s' i)"
  using assms(1)
proof (cases rule: pstep_cases)
  case (move t)
  with assms(2) show ?thesis
    by (cases "calls s t") (auto simp: Let_def split: option.splits if_splits start_pc.splits sum.splits list.splits)
next
  case (kid b j)
  with kid_stands [OF kid] show ?thesis by (simp add: stands_def)
next
  case (crash j)
  then show ?thesis by (cases "crashers s j") (auto simp: Let_def)
qed (auto simp: views_def shut_move_def split: if_splits)

lemma origin_kept: "pstep ops a s = Some s' \<Longrightarrow> origin s sv x \<Longrightarrow> origin s' sv x"
  unfolding origin_def using kept_kid later_kid unfolding kid_later_def by metis

lemma call_origin_kept:
  assumes "pstep ops a s = Some s'" and "call_origin s pc"
  shows "call_origin s' pc"
proof (cases pc)
  case (AddStart n i)
  with assms kept_kid [OF assms(1)] show ?thesis by auto
next
  case (AddCheck n i ts)
  with assms(2) have "i < next_kid s" by simp
  from kept_kid [OF assms(1) this] later_kid [OF assms(1) this] AddCheck assms(2)
  show ?thesis by (auto simp: kid_later_def)
next
  case (AddReg n ts all)
  with assms(2) origin_kept [OF assms(1)] show ?thesis by auto
qed simp_all

lemma started_tools:
  assumes "starts_ok s" and "starters (kids s i) i = SDone (Inr ts)"
  shows "past_start (child (kids s i)) \<and> tools (child (kids s i)) = ts"
proof -
  obtain f cfg where c: "creach cfg f (kids s i)" using kid_reach [OF assms(1)] by blast
  have "active (kids s i) i" using creach_active [OF c] assms(2) by simp
  with assms(2) show ?thesis by (auto simp: active_def returned_def past_start_def)
qed

lemma move_origin:
  assumes m: "call_move ops (calls s t) t s = Some s'" and c: "call_origin s (calls s t)" and st: "starts_ok s"
  shows "call_origin s' (calls s' t)"
proof (cases "calls s t")
  case (AddEnter input)
  with m show ?thesis by (auto simp: kid_name_def init_sys_def NewChild_def cfg_of_def split: option.splits if_splits)
next
  case (AddStart n i)
  with m c started_tools [OF st, of i] show ?thesis
    by (auto simp: kid_name_def split: start_pc.splits sum.splits)
next
  case (AddCheck n i ts)
  with m c show ?thesis by (auto simp: origin_def kid_name_def split: if_splits)
next
  case (AddReg n ts all)
  with m c show ?thesis by (auto simp: origin_def kid_name_def split: list.splits)
qed (use m in \<open>auto simp: after_remove_def Let_def split: option.splits if_splits list.splits\<close>)

section \<open>The invariant\<close>

definition entry_origin :: "'r psys \<Rightarrow> entry \<Rightarrow> bool" where
  "entry_origin s e \<longleftrightarrow>
     (\<forall>sv t. snd e = ProxyTool sv t \<longrightarrow> (\<exists>x. tool_Name x = t \<and> fst e = export_tool sv x \<and> origin s sv x))"

definition origins_ok :: "'r tool_server \<Rightarrow> 'r psys \<Rightarrow> bool" where
  "origins_ok ops s \<longleftrightarrow>
     (\<forall>t. call_origin s (calls s t)) \<and> (\<forall>n e. lookupTool ops (registry s) n = Some e \<longrightarrow> entry_origin s e)"

lemma step_call_origin:
  assumes "pstep ops a s = Some s'" and o: "\<forall>t. call_origin s (calls s t)" and st: "starts_ok s"
  shows "call_origin s' (calls s' u)"
proof -
  have kept: "call_origin s' (calls s u)" for u using call_origin_kept [OF assms(1)] o by blast
  from assms(1) show ?thesis
  proof (cases rule: pstep_cases)
    case (call t req)
    with kept [of u] show ?thesis by (auto simp: enter_def split: request.splits)
  next
    case (view t)
    then obtain pc R where "s' = s\<lparr>calls := (calls s)(t := pc), readers := R\<rparr>" "viewing pc" by (auto simp: views_def)
    moreover have "viewing pc \<Longrightarrow> call_origin s' pc" for pc by (cases pc) simp_all
    ultimately show ?thesis using kept [of u] by auto
  next
    case (move t)
    with kept [of u] move_origin [OF move _ st] o call_move_readers [OF move] show ?thesis
      by (cases "u = t") (auto, metis fun_upd_apply)
  next
    case (shut t order)
    with kept [of u] show ?thesis by (auto simp: shut_move_def split: if_splits)
  next
    case (kid b i)
    with kept [of u] show ?thesis by (simp add: moves_kid_def)
  next
    case (crash i)
    then have "calls s' = calls s" by (cases "crashers s i") (auto simp: Let_def)
    with kept [of u] show ?thesis by simp
  qed
qed

context mcp_server
begin

text \<open>A step adds an entry only by \<open>AddServer\<close>'s loop.\<close>

lemma step_lookup:
  assumes "pstep ops a s = Some s'" and "lookupTool ops (registry s') n = Some e"
  shows "lookupTool ops (registry s) n = Some e \<or>
     (\<exists>t sv x xs all. calls s t = AddReg sv (x # xs) all \<and> e = (export_tool sv x, ProxyTool sv (tool_Name x)))"
  using assms(1)
proof (cases rule: pstep_cases)
  case (move t)
  show ?thesis
  proof (cases "calls s t")
    case (AddReg sv ts all)
    with move assms(2) show ?thesis by (fastforce simp: lookup_add split: list.splits if_splits)
  next
    case (RemDrop ns m i k)
    with move assms(2) show ?thesis by (auto simp: lookup_remove restrict_map_def split: if_splits)
  qed (use move assms(2) in \<open>auto simp: Let_def split: option.splits if_splits start_pc.splits sum.splits list.splits\<close>)
next
  case (crash i)
  with assms(2) show ?thesis
    by (cases "crashers s i") (auto simp: Let_def lookup_remove restrict_map_def split: if_splits)
qed (use assms(2) in \<open>auto simp: views_def shut_move_def moves_kid_def split: if_splits\<close>)

lemma origins_ok_step:
  assumes "pstep ops a s = Some s'" and o: "origins_ok ops s" and st: "starts_ok s"
  shows "origins_ok ops s'"
proof -
  have kept: "entry_origin s e \<Longrightarrow> entry_origin s' e" for e
    using origin_kept [OF assms(1)] unfolding entry_origin_def by blast
  have "entry_origin s' e" if "lookupTool ops (registry s') n = Some e" for n e
    using step_lookup [OF assms(1) that]
  proof (elim disjE exE conjE)
    fix t sv x xs all
    assume c: "calls s t = AddReg sv (x # xs) all" and e: "e = (export_tool sv x, ProxyTool sv (tool_Name x))"
    have "call_origin s (calls s t)" using o by (simp add: origins_ok_def)
    then have "origin s sv x" by (simp add: c)
    with e show ?thesis by (intro kept) (auto simp: entry_origin_def)
  next
    assume "lookupTool ops (registry s) n = Some e"
    with o kept show ?thesis unfolding origins_ok_def by blast
  qed
  with step_call_origin [OF assms(1) _ st] o show ?thesis by (simp add: origins_ok_def)
qed

lemma origins_reach: "preach ops s \<Longrightarrow> origins_ok ops s"
proof (induction rule: preach.induct)
  case init
  show ?case
    by (auto simp: origins_ok_def init_psys_def lookup_mgmt entry_origin_def mgmt_entries_def split: if_splits)
next
  case (step s a s')
  then show ?case using origins_ok_step reach_parts(1) by blast
qed

end

text \<open>C10. No tool is invented: under every schedule, a tool that is registered with the handler of a
  server carries the prefixed name of a tool that a child of exactly that name has discovered,
  and shows its description and its schema.\<close>

theorem registered_tools_discovered:
  assumes "mcp_server ops" and "preach ops s" and "lookupTool ops (registry s) n = Some (y, ProxyTool sv t)"
  shows "n = PrefixTool sv t \<and> ValidateServerName sv = None \<and>
     (\<exists>i x. i < next_kid s \<and> kid_name s i = sv \<and> status (child (kids s i)) \<notin> {StatusNew, StatusStarting} \<and>
        x \<in> set (Tools (child (kids s i))) \<and> tool_Name x = t \<and> y = export_tool sv x)"
proof -
  have "entry_origin s (y, ProxyTool sv t)"
    using mcp_server.origins_reach [OF assms(1,2)] assms(3) by (simp add: origins_ok_def)
  then obtain x where x: "tool_Name x = t" "y = export_tool sv x" "origin s sv x" by (auto simp: entry_origin_def)
  have reg: "registry_ok (lookupTool ops (registry s))"
    using mcp_server.threads_inv_reach [OF assms(1,2)] by (simp add: threads_inv_def)
  have "typed_entry n (y, ProxyTool sv t)"
  proof (cases "has_sep n")
    case True
    with reg assms(3) show ?thesis by (simp add: registry_ok_def)
  next
    case False
    with reg assms(3) have "mgmt_entries n = Some (y, ProxyTool sv t)" by (simp add: registry_ok_def)
    then show ?thesis by (auto simp: mgmt_entries_def split: if_splits)
  qed
  with x show ?thesis by (auto simp: typed_entry_def origin_def past_start_def)
qed

lemma registered_tools_discovered_witness:
  "\<exists>i x. kid_name (pafter late_crash_acts) i = ''srv'' \<and> x \<in> set (Tools (child (kids (pafter late_crash_acts) i))) \<and>
     tool_Name x = ''echo''"
  using registered_tools_discovered [OF ms.mcp_server_axioms pafter_reach [OF late_crash_run] late_crash_tool] by blast

end
