(* ===== verification/Utf8.thy ===== *)
theory Utf8
  imports Prelude
begin

text \<open>
  Go's conversions between strings and rune slices, \<open>[]rune(s)\<close> and \<open>string(rs)\<close>, as the
  language defines them: UTF-8, in which a byte that is not part of a valid encoding reads as
  the replacement character. Runes and bytes are natural numbers.
\<close>

section \<open>Encoding\<close>

definition rune_error :: nat where
  "rune_error = 0xFFFD"

definition scalar :: "nat \<Rightarrow> bool" where
  "scalar r \<longleftrightarrow> r \<le> 0x10FFFF \<and> \<not> (0xD800 \<le> r \<and> r \<le> 0xDFFF)"

definition encode_scalar :: "nat \<Rightarrow> nat list" where
  "encode_scalar r =
     (if r \<le> 0x7F then [r]
      else if r \<le> 0x7FF then [0xC0 + r div 64, 0x80 + r mod 64]
      else if r \<le> 0xFFFF
        then [0xE0 + r div 4096, 0x80 + r div 64 mod 64, 0x80 + r mod 64]
      else [0xF0 + r div 262144, 0x80 + r div 4096 mod 64, 0x80 + r div 64 mod 64, 0x80 + r mod 64])"

definition encode_rune :: "nat \<Rightarrow> nat list" where
  "encode_rune r = encode_scalar (if scalar r then r else rune_error)"

definition string_of_runes :: "nat list \<Rightarrow> gostring" where
  "string_of_runes rs = map char_of (concat (map encode_rune rs))"

section \<open>Decoding\<close>

text \<open>The bounds of the second byte depend on the first: no overlong forms, no surrogates,
  nothing above the last code point.\<close>

definition second_ok :: "nat \<Rightarrow> nat \<Rightarrow> bool" where
  "second_ok b c \<longleftrightarrow>
     (if b = 0xE0 then 0xA0 else if b = 0xF0 then 0x90 else 0x80) \<le> c \<and>
     c \<le> (if b = 0xED then 0x9F else if b = 0xF4 then 0x8F else 0xBF)"

definition cont_ok :: "nat \<Rightarrow> bool" where
  "cont_ok c \<longleftrightarrow> 0x80 \<le> c \<and> c \<le> 0xBF"

text \<open>The rune that starts with the byte \<open>b\<close>, and the bytes after it.\<close>

definition decode_rune :: "nat \<Rightarrow> nat list \<Rightarrow> nat \<times> nat list" where
  "decode_rune b rest =
     (if b < 0x80 then (b, rest)
      else if 0xC2 \<le> b \<and> b \<le> 0xDF then
        (case rest of
           c # r \<Rightarrow> if second_ok b c then (b mod 32 * 64 + c mod 64, r) else (rune_error, rest)
         | _ \<Rightarrow> (rune_error, rest))
      else if 0xE0 \<le> b \<and> b \<le> 0xEF then
        (case rest of
           c # d # r \<Rightarrow>
             if second_ok b c \<and> cont_ok d then (b mod 16 * 4096 + c mod 64 * 64 + d mod 64, r)
             else (rune_error, rest)
         | _ \<Rightarrow> (rune_error, rest))
      else if 0xF0 \<le> b \<and> b \<le> 0xF4 then
        (case rest of
           c # d # e # r \<Rightarrow>
             if second_ok b c \<and> cont_ok d \<and> cont_ok e
             then (b mod 8 * 262144 + c mod 64 * 4096 + d mod 64 * 64 + e mod 64, r)
             else (rune_error, rest)
         | _ \<Rightarrow> (rune_error, rest))
      else (rune_error, rest))"

lemma decode_rune_shorter: "length (snd (decode_rune b rest)) \<le> length rest"
  by (auto simp: decode_rune_def split: list.split)

function decode_bytes :: "nat list \<Rightarrow> nat list" where
  "decode_bytes [] = []"
| "decode_bytes (b # rest) = fst (decode_rune b rest) # decode_bytes (snd (decode_rune b rest))"
  by pat_completeness auto
termination
  by (relation "measure length") (simp_all add: decode_rune_shorter le_imp_less_Suc)

definition runes_of_string :: "gostring \<Rightarrow> nat list" where
  "runes_of_string s = decode_bytes (map of_char s)"

section \<open>The round trip\<close>

lemma split_64: "(r :: nat) = r div 64 * 64 + r mod 64"
  by simp

lemma split_4096: "(r :: nat) = r div 4096 * 4096 + r div 64 mod 64 * 64 + r mod 64"
proof -
  have "r div 64 = r div 64 div 64 * 64 + r div 64 mod 64" by simp
  moreover have "r div 64 div 64 = r div 4096" by (simp add: div_mult2_eq [symmetric])
  ultimately show ?thesis using split_64 [of r] by linarith
qed

lemma split_262144:
  "(r :: nat) = r div 262144 * 262144 + r div 4096 mod 64 * 4096 + r div 64 mod 64 * 64 + r mod 64"
proof -
  have "r div 4096 = r div 4096 div 64 * 64 + r div 4096 mod 64" by simp
  moreover have "r div 4096 div 64 = r div 262144" by (simp add: div_mult2_eq [symmetric])
  ultimately show ?thesis using split_4096 [of r] by linarith
qed

lemma decode_encode_scalar:
  assumes "scalar r"
  shows "\<exists>b bs. encode_scalar r = b # bs \<and> decode_rune b (bs @ rest) = (r, rest)"
proof -
  consider "r \<le> 0x7F" | "0x7F < r" "r \<le> 0x7FF" | "0x7FF < r" "r \<le> 0xFFFF" | "0xFFFF < r" by linarith
  then show ?thesis
  proof cases
    case 1
    then show ?thesis by (simp add: encode_scalar_def decode_rune_def)
  next
    case 2
    define x z where "x = r div 64" and "z = r mod 64"
    have r: "r = x * 64 + z" and z: "z < 64" by (simp_all add: x_def z_def)
    have x: "2 \<le> x" "x \<le> 31" using r z 2 by linarith+
    have "(0xC0 + x) mod 32 = x" "(0x80 + z) mod 64 = z" using x z by (simp_all add: mod_add_eq [symmetric])
    with 2 x z r show ?thesis
      by (simp add: encode_scalar_def decode_rune_def second_ok_def x_def [symmetric] z_def [symmetric])
  next
    case 3
    define x y z where "x = r div 4096" and "y = r div 64 mod 64" and "z = r mod 64"
    have r: "r = x * 4096 + y * 64 + z" unfolding x_def y_def z_def by (rule split_4096)
    have yz: "y < 64" "z < 64" by (simp_all add: y_def z_def)
    have x: "x \<le> 15" using r 3 by linarith
    have b: "x = 0 \<Longrightarrow> 32 \<le> y" "x = 13 \<Longrightarrow> y \<le> 31" using r yz 3 assms unfolding scalar_def by linarith+
    have "(0xE0 + x) mod 16 = x" "(0x80 + y) mod 64 = y" "(0x80 + z) mod 64 = z"
      using x yz by (simp_all add: mod_add_eq [symmetric])
    moreover have "second_ok (0xE0 + x) (0x80 + y)" using b yz x by (auto simp: second_ok_def)
    moreover have "cont_ok (0x80 + z)" using yz by (simp add: cont_ok_def)
    ultimately show ?thesis using 3 x r [symmetric]
      by (simp add: encode_scalar_def decode_rune_def x_def [symmetric] y_def [symmetric] z_def [symmetric])
  next
    case 4
    define w x y z where "w = r div 262144" and "x = r div 4096 mod 64" and "y = r div 64 mod 64" and "z = r mod 64"
    have r: "r = w * 262144 + x * 4096 + y * 64 + z" unfolding w_def x_def y_def z_def by (rule split_262144)
    have xyz: "x < 64" "y < 64" "z < 64" by (simp_all add: x_def y_def z_def)
    have w: "w \<le> 4" using r assms unfolding scalar_def by linarith
    have b: "w = 0 \<Longrightarrow> 16 \<le> x" "w = 4 \<Longrightarrow> x \<le> 15" using r xyz 4 assms unfolding scalar_def by linarith+
    have "(0xF0 + w) mod 8 = w" "(0x80 + x) mod 64 = x" "(0x80 + y) mod 64 = y" "(0x80 + z) mod 64 = z"
      using w xyz by (simp_all add: mod_add_eq [symmetric])
    moreover have "second_ok (0xF0 + w) (0x80 + x)" using b xyz by (auto simp: second_ok_def)
    moreover have "cont_ok (0x80 + y)" "cont_ok (0x80 + z)" using xyz by (simp_all add: cont_ok_def)
    ultimately show ?thesis using 4 w r [symmetric]
      by (simp add: encode_scalar_def decode_rune_def w_def [symmetric] x_def [symmetric] y_def [symmetric] z_def [symmetric])
  qed
qed

lemma encode_rune_scalar: "scalar r \<Longrightarrow> encode_rune r = encode_scalar r"
  by (simp add: encode_rune_def)

lemma decode_concat:
  "\<forall>r\<in>set rs. scalar r \<Longrightarrow> decode_bytes (concat (map encode_rune rs)) = rs"
proof (induction rs)
  case (Cons r rs)
  from Cons.prems obtain b bs where
    "encode_scalar r = b # bs" "decode_rune b (bs @ concat (map encode_rune rs)) = (r, concat (map encode_rune rs))"
    using decode_encode_scalar [of r "concat (map encode_rune rs)"] by auto
  with Cons show ?case by (simp add: encode_rune_scalar)
qed simp

lemma encode_scalar_bytes: "r \<le> 0x10FFFF \<Longrightarrow> \<forall>b\<in>set (encode_scalar r). b < 256"
  by (auto simp: encode_scalar_def)

lemma encode_rune_bytes: "b \<in> set (encode_rune r) \<Longrightarrow> b < 256"
  using encode_scalar_bytes [of "if scalar r then r else rune_error"]
  by (auto simp: encode_rune_def scalar_def rune_error_def split: if_splits)

lemma bytes_of_runes:
  "map of_char (string_of_runes rs) = concat (map encode_rune rs)"
proof -
  have "map of_char (map char_of bs :: char list) = bs" if "\<forall>b\<in>set bs. b < 256" for bs :: "nat list"
    using that by (induction bs) auto
  moreover have "\<forall>b\<in>set (concat (map encode_rune rs)). b < 256" by (auto dest: encode_rune_bytes)
  ultimately show ?thesis unfolding string_of_runes_def by blast
qed

lemma runes_string:
  "\<forall>r\<in>set rs. scalar r \<Longrightarrow> runes_of_string (string_of_runes rs) = rs"
  unfolding runes_of_string_def bytes_of_runes by (rule decode_concat)

lemma length_string_of_runes:
  "length (string_of_runes rs) = (\<Sum>r\<leftarrow>rs. length (encode_rune r))"
  by (simp add: string_of_runes_def length_concat comp_def)

text \<open>Decoding gives scalar values only: whatever the bytes, the runes can be encoded.\<close>

lemma cont_split:
  assumes "0x80 \<le> c" "c \<le> 0xBF"
  shows "\<exists>y<64. c = 0x80 + y \<and> c mod 64 = (y :: nat)"
proof -
  obtain y where y: "c = 64 * 2 + y" using assms by (auto simp: le_iff_add)
  then have "c mod 64 = y mod 64" by (simp only: mod_mult_self4)
  with y assms show ?thesis by simp
qed

lemma lead_split: "16 * k \<le> b \<Longrightarrow> b < 16 * k + 16 \<Longrightarrow> \<exists>x. b = 16 * k + x \<and> x < 16 \<and> b mod 16 = (x :: nat)"
  by (rule exI [of _ "b - 16 * k"]) (auto simp: le_iff_add)

lemma second_cont: "second_ok b c \<Longrightarrow> cont_ok c"
  by (auto simp: second_ok_def cont_ok_def split: if_splits)

lemma scalar_3:
  assumes b: "0xE0 \<le> b" "b \<le> 0xEF" and c: "second_ok b c" and d: "cont_ok d"
  shows "scalar (b mod 16 * 4096 + c mod 64 * 64 + d mod 64)"
proof -
  obtain y where y: "y < 64" "c = 0x80 + y" "c mod 64 = y"
    using cont_split second_cont [OF c] unfolding cont_ok_def by blast
  obtain x where x: "b = 0xE0 + x" "x \<le> 15" "b mod 16 = x" using lead_split [of 14 b] b by auto
  define z where "z = d mod 64"
  then have z: "z < 64" by simp
  have "x = 13 \<Longrightarrow> y < 32" using c x y by (auto simp: second_ok_def)
  then consider "x < 13" | "x = 13" "y < 32" | "13 < x" by linarith
  then have "\<not> (55296 \<le> x * 4096 + y * 64 + z \<and> x * 4096 + y * 64 + z \<le> 57343)"
    by cases (use x y z in linarith)+
  moreover have "x * 4096 + y * 64 + z \<le> 65535" using x y z by linarith
  ultimately show ?thesis unfolding y(3) x(3) z_def [symmetric] scalar_def by linarith
qed

lemma scalar_4:
  assumes b: "0xF0 \<le> b" "b \<le> 0xF4" and c: "second_ok b c" and d: "cont_ok d" and e: "cont_ok e"
  shows "scalar (b mod 8 * 262144 + c mod 64 * 4096 + d mod 64 * 64 + e mod 64)"
proof -
  obtain x where x: "x < 64" "c = 0x80 + x" "c mod 64 = x"
    using cont_split second_cont [OF c] unfolding cont_ok_def by blast
  obtain w where w: "b = 0xF0 + w" "w \<le> 4" "b mod 16 = w" using lead_split [of 15 b] b by auto
  then have "b mod 8 = (8 * 30 + w) mod 8" by simp
  then have "b mod 8 = w mod 8" by (simp only: mod_mult_self4)
  then have m: "b mod 8 = w" using w(2) by simp
  define y z where "y = d mod 64" and "z = e mod 64"
  then have yz: "y < 64" "z < 64" by simp_all
  have "w = 4 \<Longrightarrow> x < 16" "w = 0 \<Longrightarrow> 16 \<le> x" using c x w by (auto simp: second_ok_def)
  then consider "w = 0" "16 \<le> x" | "0 < w" "w < 4" | "w = 4" "x < 16" using w(2) by linarith
  then have "65536 \<le> w * 262144 + x * 4096 + y * 64 + z \<and> w * 262144 + x * 4096 + y * 64 + z \<le> 1114111"
    by cases (use w x yz in linarith)+
  then show ?thesis unfolding x(3) m y_def [symmetric] z_def [symmetric] scalar_def by linarith
qed

lemma scalar_2: "0xC2 \<le> b \<Longrightarrow> b \<le> 0xDF \<Longrightarrow> scalar (b mod 32 * 64 + c mod 64)"
proof -
  assume "0xC2 \<le> b" "b \<le> 0xDF"
  have "b mod 32 < 32" "c mod 64 < 64" by simp_all
  then have "b mod 32 * 64 + c mod 64 < 2048" by linarith
  then show ?thesis by (simp add: scalar_def)
qed

lemma scalar_small: "b < 0x80 \<Longrightarrow> scalar b" "scalar rune_error"
  by (simp_all add: scalar_def rune_error_def)

lemma decode_rune_scalar: "scalar (fst (decode_rune b rest))"
  using scalar_small scalar_2 scalar_3 scalar_4
  by (simp add: decode_rune_def split: list.split)

lemma decode_bytes_scalar: "r \<in> set (decode_bytes bs) \<Longrightarrow> scalar r"
  by (induction bs rule: decode_bytes.induct) (auto simp: decode_rune_scalar)

lemma runes_of_string_scalar: "r \<in> set (runes_of_string s) \<Longrightarrow> scalar r"
  by (simp add: runes_of_string_def decode_bytes_scalar)

lemma runes_of_string_of_runes_of_string:
  "runes_of_string (string_of_runes (runes_of_string s)) = runes_of_string s"
  by (rule runes_string) (auto intro: runes_of_string_scalar)

lemma string_of_runesI: "concat (map encode_rune rs) = map of_char s \<Longrightarrow> string_of_runes rs = s"
  by (simp add: string_of_runes_def comp_def)

section \<open>What was decoded can be encoded\<close>

text \<open>But for an invalid byte, the rune that is read is encoded by the bytes that were read.\<close>

lemma cont_eq: "cont_ok c \<Longrightarrow> 0x80 + c mod 64 = c"
  unfolding cont_ok_def using cont_split by metis

lemma digits_64: "z < 64 \<Longrightarrow> (a * 64 + z) div 64 = a \<and> (a * 64 + z) mod 64 = (z :: nat)"
  by simp

lemma digits_4096:
  assumes "n = (x * 64 + y) * 64 + z" and "y < 64" "z < (64 :: nat)"
  shows "n div 4096 = x" "n div 64 mod 64 = y" "n mod 64 = z"
proof -
  have n: "n div 64 = x * 64 + y" "n mod 64 = z" using digits_64 [OF assms(3), of "x * 64 + y"] unfolding assms(1) by blast+
  have "n div 4096 = n div 64 div 64" by (simp add: div_mult2_eq [symmetric])
  with n digits_64 [OF assms(2), of x] show "n div 4096 = x" "n div 64 mod 64 = y" "n mod 64 = z" by simp_all
qed

lemma digits_262144:
  assumes "n = ((w * 64 + x) * 64 + y) * 64 + z" and "x < 64" "y < 64" "z < (64 :: nat)"
  shows "n div 262144 = w" "n div 4096 mod 64 = x" "n div 64 mod 64 = y" "n mod 64 = z"
proof -
  have n: "n div 64 = (w * 64 + x) * 64 + y" "n mod 64 = z"
    using digits_64 [OF assms(4), of "(w * 64 + x) * 64 + y"] unfolding assms(1) by blast+
  have "n div 4096 = n div 64 div 64" "n div 262144 = n div 64 div 4096" by (simp_all add: div_mult2_eq [symmetric])
  with digits_4096 [OF n(1) assms(2,3)] n(2)
  show "n div 262144 = w" "n div 4096 mod 64 = x" "n div 64 mod 64 = y" "n mod 64 = z" by simp_all
qed

lemma encode_decode_2:
  assumes "0xC2 \<le> b" "b \<le> 0xDF" "cont_ok c"
  shows "encode_scalar (b mod 32 * 64 + c mod 64) = [b, c]"
proof -
  obtain x where x: "b = 0xC0 + x" "2 \<le> x" "x \<le> 31"
    using assms(1,2) by (intro that [of "b - 0xC0"]) auto
  then have m: "b mod 32 = x" by (simp add: mod_add_eq [symmetric])
  have "2 * 64 \<le> x * 64" "x * 64 + c mod 64 \<le> 31 * 64 + 63" using x by (simp_all add: add_mono)
  moreover have "(x * 64 + c mod 64) div 64 = x" by simp
  ultimately show ?thesis using cont_eq [OF assms(3)] x(1) unfolding m encode_scalar_def by simp
qed

lemma encode_decode_3:
  assumes "0xE0 \<le> b" "b \<le> 0xEF" "second_ok b c" "cont_ok d"
  shows "encode_scalar (b mod 16 * 4096 + c mod 64 * 64 + d mod 64) = [b, c, d]"
proof -
  obtain x where x: "b = 0xE0 + x" "x \<le> 15" "b mod 16 = x" using lead_split [of 14 b] assms(1,2) by auto
  obtain y where y: "y < 64" "c = 0x80 + y" "c mod 64 = y"
    using cont_split second_cont [OF assms(3)] unfolding cont_ok_def by blast
  define z where "z = d mod 64"
  then have z: "z < 64" "0x80 + z = d" using cont_eq [OF assms(4)] by simp_all
  have "x = 0 \<Longrightarrow> 32 \<le> y" using assms(3) x y by (auto simp: second_ok_def)
  then have lo: "0x7FF < x * 4096 + y * 64 + z" by (cases "x = 0") linarith+
  have hi: "x * 4096 + y * 64 + z \<le> 0xFFFF" using x y z by linarith
  have "x * 4096 + y * 64 + z = (x * 64 + y) * 64 + z" by simp
  note d = digits_4096 [OF this y(1) z(1)]
  show ?thesis
    unfolding x(3) y(3) z_def [symmetric] encode_scalar_def d using lo hi x(1) y(2) z(2) by simp
qed

lemma encode_decode_4:
  assumes "0xF0 \<le> b" "b \<le> 0xF4" "second_ok b c" "cont_ok d" "cont_ok e"
  shows "encode_scalar (b mod 8 * 262144 + c mod 64 * 4096 + d mod 64 * 64 + e mod 64) = [b, c, d, e]"
proof -
  obtain x where x: "b = 0xF0 + x" "x \<le> 4" "b mod 16 = x" using lead_split [of 15 b] assms(1,2) by auto
  have "b mod 8 = (8 * 30 + x) mod 8" using x(1) by simp
  then have m: "b mod 8 = x" using x(2) by (simp only: mod_mult_self4) simp
  obtain y where y: "y < 64" "c = 0x80 + y" "c mod 64 = y"
    using cont_split second_cont [OF assms(3)] unfolding cont_ok_def by blast
  define z w where "z = d mod 64" and "w = e mod 64"
  then have z: "z < 64" "w < 64" "0x80 + z = d" "0x80 + w = e" using cont_eq assms(4,5) by simp_all
  let ?n = "x * 262144 + y * 4096 + z * 64 + w"
  have "x = 0 \<Longrightarrow> 16 \<le> y" using assms(3) x y by (auto simp: second_ok_def)
  then have lo: "0xFFFF < ?n" by (cases "x = 0") linarith+
  have "?n = ((x * 64 + y) * 64 + z) * 64 + w" by simp
  note d = digits_262144 [OF this y(1) z(1,2)]
  show ?thesis
    unfolding m y(3) z_def [symmetric] w_def [symmetric] encode_scalar_def d using lo x(1) y(2) z(3,4) by simp
qed

lemma encode_decode:
  assumes "\<not> (fst (decode_rune b rest) = rune_error \<and> snd (decode_rune b rest) = rest)"
  shows "encode_scalar (fst (decode_rune b rest)) @ snd (decode_rune b rest) = b # rest"
proof -
  consider "b < 0x80" | "0xC2 \<le> b" "b \<le> 0xDF" | "0xE0 \<le> b" "b \<le> 0xEF" | "0xF0 \<le> b" "b \<le> 0xF4"
    | "decode_rune b rest = (rune_error, rest)"
    unfolding decode_rune_def by fastforce
  then show ?thesis
  proof cases
    case 1
    with 1 show ?thesis by (simp add: decode_rune_def encode_scalar_def)
  next
    case 2
    with assms encode_decode_2 second_cont show ?thesis
      by (cases rest) (auto simp: decode_rune_def split: if_splits)
  next
    case 3
    with assms encode_decode_3 show ?thesis
      by (cases rest; cases "tl rest") (auto simp: decode_rune_def split: if_splits)
  next
    case 4
    with assms encode_decode_4 show ?thesis
      by (cases rest; cases "tl rest"; cases "tl (tl rest)") (auto simp: decode_rune_def split: if_splits)
  next
    case 5
    with assms show ?thesis by simp
  qed
qed

end
