(* ===== verification/JsonText.thy ===== *)
theory JsonText
  imports Utf8
begin

text \<open>
  The JSON that \<open>json.Marshal\<close> writes (\<open>encoding/json\<close>, with HTML escaping) for values
  made of null, numbers, strings, arrays and objects, and a reader of it: the texts of the
  replies of \<open>proxy.go\<close> are such values. Numbers are kept as their texts.
\<close>

section \<open>Strings\<close>

definition hex2 :: "nat \<Rightarrow> gostring" where
  "hex2 n = [hex_digit (n div 16 mod 16), hex_digit (n mod 16)]"

definition hex4 :: "nat \<Rightarrow> gostring" where
  "hex4 n = hex2 (n div 256) @ hex2 n"

abbreviation backslash :: char where "backslash \<equiv> CHR 0x5C"

abbreviation dquote :: char where "dquote \<equiv> CHR 0x22"

text \<open>The escapes of one letter: the rune and the letter.\<close>

definition json_letters :: "(nat \<times> char) list" where
  "json_letters =
     [(34, dquote), (92, backslash), (8, CHR ''b''), (12, CHR ''f''), (10, CHR ''n''), (13, CHR ''r''), (9, CHR ''t'')]"

definition json_rune :: "nat \<Rightarrow> gostring" where
  "json_rune r =
     (case map_of json_letters r of
        Some c \<Rightarrow> [backslash, c]
      | None \<Rightarrow>
          if r < 32 \<or> r \<in> {60, 62, 38, 0x2028, 0x2029} then [backslash, CHR ''u''] @ hex4 r
          else string_of_runes [r])"

text \<open>A byte that is not part of a valid encoding is written as the escape of the replacement
  character.\<close>

definition bad_byte :: "nat \<Rightarrow> nat list \<Rightarrow> bool" where
  "bad_byte b rest \<longleftrightarrow> fst (decode_rune b rest) = rune_error \<and> snd (decode_rune b rest) = rest"

function json_bytes :: "nat list \<Rightarrow> gostring" where
  "json_bytes [] = []"
| "json_bytes (b # rest) =
     (if bad_byte b rest then [backslash, CHR ''u''] @ hex4 rune_error else json_rune (fst (decode_rune b rest)))
     @ json_bytes (snd (decode_rune b rest))"
  by pat_completeness auto
termination
  by (relation "measure length") (simp_all add: decode_rune_shorter le_imp_less_Suc)

definition json_string :: "gostring \<Rightarrow> gostring" where
  "json_string s = dquote # json_bytes (map of_char s) @ [dquote]"

section \<open>Reading a string\<close>

definition json_unletter :: "char \<Rightarrow> nat option" where
  "json_unletter c = map_of (map prod.swap json_letters) c"

definition read_hex4 :: "gostring \<Rightarrow> nat option" where
  "read_hex4 s =
     (case map hex_value s of
        [Some a, Some b, Some c, Some d] \<Rightarrow> Some (((a * 16 + b) * 16 + c) * 16 + d)
      | _ \<Rightarrow> None)"

fun put_front :: "gostring \<Rightarrow> (gostring \<times> gostring) option \<Rightarrow> (gostring \<times> gostring) option" where
  "put_front x None = None" | "put_front x (Some (s, r)) = Some (x @ s, r)"

text \<open>After the opening quote: the string and what follows the closing one.\<close>

fun read_string :: "gostring \<Rightarrow> (gostring \<times> gostring) option" where
  "read_string [] = None"
| "read_string (c # cs) =
     (if c = dquote then Some ([], cs)
      else if c \<noteq> backslash then put_front [c] (read_string cs)
      else case cs of
        [] \<Rightarrow> None
      | e # r \<Rightarrow>
          (case json_unletter e of
             Some n \<Rightarrow> put_front (string_of_runes [n]) (read_string r)
           | None \<Rightarrow>
               if e = CHR ''u'' then
                 (case r of
                    x1 # x2 # x3 # x4 # r' \<Rightarrow>
                      (case read_hex4 [x1, x2, x3, x4] of
                         Some n \<Rightarrow> put_front (string_of_runes [n]) (read_string r')
                       | None \<Rightarrow> None)
                  | _ \<Rightarrow> None)
               else None))"

lemma hex4_chars:
  "hex4 r = [hex_digit (r div 4096 mod 16), hex_digit (r div 256 mod 16), hex_digit (r div 16 mod 16), hex_digit (r mod 16)]"
  by (simp add: hex4_def hex2_def div_mult2_eq [symmetric])

lemma hex4_number:
  "(((r div 4096 mod 16 * 16 + r div 256 mod 16) * 16 + r div 16 mod 16) * 16 + r mod 16 :: nat) = r mod 65536"
proof -
  have "(x div 16 mod k) * 16 + x mod 16 = x mod (16 * k)" for x k :: nat
    by (simp add: mod_mult2_eq)
  note s = this [of _ 16] this [of _ 256] this [of _ 4096]
  have "r div 256 = r div 16 div 16" "r div 4096 = r div 16 div 16 div 16" by (simp_all add: div_mult2_eq [symmetric])
  then show ?thesis using s by simp
qed

lemma read_hex4: "r < 65536 \<Longrightarrow> read_hex4 (hex4 r) = Some r"
proof -
  assume r: "r < 65536"
  have m: "map hex_value (hex4 r) = [Some (r div 4096 mod 16), Some (r div 256 mod 16), Some (r div 16 mod 16), Some (r mod 16)]"
    by (simp add: hex4_chars hex_value_digit)
  show ?thesis unfolding read_hex4_def m list.case option.case hex4_number using r by simp
qed

lemma read_unicode:
  assumes "r < 65536"
  shows "read_string (backslash # CHR ''u'' # hex4 r @ rest) = put_front (string_of_runes [r]) (read_string rest)"
proof -
  have "json_unletter (CHR ''u'') = None" by code_simp
  with read_hex4 [OF assms] show ?thesis by (simp add: hex4_chars)
qed

lemma unletter: "map_of json_letters r = Some c \<Longrightarrow> json_unletter c = Some r"
proof -
  have "list_all (\<lambda>(r, c). json_unletter c = Some r) json_letters" by code_simp
  then show "map_of json_letters r = Some c \<Longrightarrow> ?thesis" by (auto simp: list_all_iff dest!: map_of_SomeD)
qed

lemma read_letter:
  assumes "map_of json_letters r = Some c"
  shows "read_string (backslash # c # rest) = put_front (string_of_runes [r]) (read_string rest)"
  using unletter [OF assms] by simp

lemma put_front_append [simp]: "put_front x (put_front y z) = put_front (x @ y) z"
  by (cases "(y, z)" rule: put_front.cases) simp_all

lemma put_front_Nil [simp]: "put_front [] z = z"
  by (cases "([] :: gostring, z)" rule: put_front.cases) simp_all

lemma read_plain_char: "c \<noteq> dquote \<Longrightarrow> c \<noteq> backslash \<Longrightarrow> read_string (c # cs) = put_front [c] (read_string cs)"
  by simp

lemma read_plain: "\<forall>c \<in> set s. c \<noteq> dquote \<and> c \<noteq> backslash \<Longrightarrow> read_string (s @ rest) = put_front s (read_string rest)"
  by (induction s) (simp_all add: read_plain_char del: read_string.simps)

lemma string_plain:
  assumes "scalar r" and "r \<noteq> 34" "r \<noteq> 92" and "c \<in> set (string_of_runes [r])"
  shows "c \<noteq> dquote \<and> c \<noteq> backslash"
proof -
  from assms(1,4) obtain b where b: "c = char_of b" "b \<in> set (encode_scalar r)"
    by (auto simp: string_of_runes_def encode_rune_scalar)
  have "b < 256" using b(2) assms(1) encode_scalar_bytes [of r] by (simp add: scalar_def)
  moreover have "b \<noteq> 34 \<and> b \<noteq> 92" using b(2) assms(2,3) by (auto simp: encode_scalar_def split: if_splits)
  ultimately have "of_char c \<noteq> (34 :: nat) \<and> of_char c \<noteq> (92 :: nat)" by (simp add: b(1))
  then show ?thesis by auto
qed

lemma read_rune:
  assumes "scalar r"
  shows "read_string (json_rune r @ rest) = put_front (string_of_runes [r]) (read_string rest)"
proof (cases "map_of json_letters r")
  case (Some c)
  with read_letter [OF Some] show ?thesis by (simp add: json_rune_def)
next
  case None
  then have r: "r \<noteq> 34" "r \<noteq> 92" by (auto simp: json_letters_def split: if_splits)
  show ?thesis
  proof (cases "r < 32 \<or> r \<in> {60, 62, 38, 0x2028, 0x2029}")
    case True
    then have "r < 65536" by auto
    with True None read_unicode show ?thesis by (simp add: json_rune_def)
  next
    case False
    then have "json_rune r = string_of_runes [r]" using None by (simp add: json_rune_def)
    with string_plain [OF assms r] show ?thesis using read_plain by metis
  qed
qed

text \<open>What is read is the string with every invalid byte replaced: the string itself if it is
  valid UTF-8.\<close>

lemma read_json_bytes:
  "read_string (json_bytes bs @ dquote # rest) = Some (string_of_runes (decode_bytes bs), rest)"
proof (induction bs rule: json_bytes.induct)
  case 1
  show ?case by (simp add: string_of_runes_def)
next
  case (2 b bs)
  let ?r = "fst (decode_rune b bs)" and ?X = "json_bytes (snd (decode_rune b bs)) @ dquote # rest"
  have "read_string ((if bad_byte b bs then [backslash, CHR ''u''] @ hex4 rune_error else json_rune ?r) @ ?X) =
      put_front (string_of_runes [?r]) (read_string ?X)"
  proof (cases "bad_byte b bs")
    case True
    then have "?r = rune_error" by (simp add: bad_byte_def)
    with True show ?thesis using read_unicode [of rune_error ?X] by (simp add: rune_error_def del: read_string.simps)
  next
    case False
    then show ?thesis using read_rune [OF decode_rune_scalar] by (simp del: read_string.simps)
  qed
  moreover have "string_of_runes (decode_bytes (b # bs)) =
      string_of_runes [?r] @ string_of_runes (decode_bytes (snd (decode_rune b bs)))"
    by (simp add: string_of_runes_def)
  ultimately show ?case using 2 by (simp del: read_string.simps decode_bytes.simps)
qed

definition utf8_valid :: "gostring \<Rightarrow> bool" where
  "utf8_valid s \<longleftrightarrow> string_of_runes (runes_of_string s) = s"

lemma read_json_string:
  "utf8_valid s \<Longrightarrow> \<exists>t. json_string s = dquote # t \<and> read_string (t @ rest) = Some (s, rest)"
  using read_json_bytes [of "map of_char s" rest]
  by (simp add: json_string_def utf8_valid_def runes_of_string_def)

section \<open>Values\<close>

datatype json =
    JNull | JNum gostring | JStr gostring | JArr "json list" | JObj "(gostring \<times> json) list"

fun commas :: "gostring list \<Rightarrow> gostring" where
  "commas [] = []"
| "commas [x] = x"
| "commas (x # xs) = x @ CHR '','' # commas xs"

fun json_text :: "json \<Rightarrow> gostring" where
  "json_text JNull = ''null''"
| "json_text (JNum t) = t"
| "json_text (JStr s) = json_string s"
| "json_text (JArr vs) = CHR ''['' # commas (map json_text vs) @ '']''"
| "json_text (JObj ms) = CHR ''{'' # commas (map (\<lambda>(k, v). json_string k @ CHR '':'' # json_text v) ms) @ ''}''"

text \<open>The reader; the fuel bounds the depth and the number of members.\<close>

definition number_char :: "char \<Rightarrow> bool" where
  "number_char c \<longleftrightarrow> c \<in> set ''0123456789+-.eE''"

definition number_text :: "gostring \<Rightarrow> bool" where
  "number_text t \<longleftrightarrow> t \<noteq> [] \<and> list_all number_char t"

fun read_value :: "nat \<Rightarrow> gostring \<Rightarrow> (json \<times> gostring) option"
  and read_items :: "nat \<Rightarrow> gostring \<Rightarrow> (json list \<times> gostring) option"
  and read_members :: "nat \<Rightarrow> gostring \<Rightarrow> ((gostring \<times> json) list \<times> gostring) option" where
  "read_value 0 s = None"
| "read_value (Suc n) s =
     (case s of
        [] \<Rightarrow> None
      | c # r \<Rightarrow>
          if c = dquote then map_option (\<lambda>(x, r'). (JStr x, r')) (read_string r)
          else if c = CHR ''['' then
            (if r \<noteq> [] \<and> hd r = CHR '']'' then Some (JArr [], drop 1 r)
             else map_option (\<lambda>(vs, r'). (JArr vs, r')) (read_items n r))
          else if c = CHR ''{'' then
            (if r \<noteq> [] \<and> hd r = CHR ''}'' then Some (JObj [], drop 1 r)
             else map_option (\<lambda>(ms, r'). (JObj ms, r')) (read_members n r))
          else if c = CHR ''n'' then (if take 3 r = ''ull'' then Some (JNull, drop 3 r) else None)
          else if number_char c then Some (JNum (takeWhile number_char s), dropWhile number_char s)
          else None)"
| "read_items 0 s = None"
| "read_items (Suc n) s =
     (case read_value n s of
        Some (v, c # r) \<Rightarrow>
          (if c = CHR '','' then map_option (\<lambda>(vs, r'). (v # vs, r')) (read_items n r)
           else if c = CHR '']'' then Some ([v], r) else None)
      | _ \<Rightarrow> None)"
| "read_members 0 s = None"
| "read_members (Suc n) s =
     (if s = [] \<or> hd s \<noteq> dquote then None
      else case read_string (drop 1 s) of
        Some (k, c # r) \<Rightarrow>
          (if c \<noteq> CHR '':'' then None
           else case read_value n r of
             Some (v, d # r1) \<Rightarrow>
               (if d = CHR '','' then map_option (\<lambda>(ms, r'). ((k, v) # ms, r')) (read_members n r1)
                else if d = CHR ''}'' then Some ([(k, v)], r1) else None)
           | _ \<Rightarrow> None)
      | _ \<Rightarrow> None)"

text \<open>The whole text is one value.\<close>

definition read_json :: "gostring \<Rightarrow> json option" where
  "read_json s = (case read_value (length s) s of Some (v, []) \<Rightarrow> Some v | _ \<Rightarrow> None)"

section \<open>The round trip\<close>

fun json_ok :: "json \<Rightarrow> bool" where
  "json_ok JNull = True"
| "json_ok (JNum t) = number_text t"
| "json_ok (JStr s) = utf8_valid s"
| "json_ok (JArr vs) = list_all json_ok vs"
| "json_ok (JObj ms) = list_all (\<lambda>(k, v). utf8_valid k \<and> json_ok v) ms"

text \<open>What follows a value is not part of a number.\<close>

definition ends_number :: "gostring \<Rightarrow> bool" where
  "ends_number r \<longleftrightarrow> (r = [] \<or> \<not> number_char (hd r))"

definition reads_back :: "json \<Rightarrow> bool" where
  "reads_back v \<longleftrightarrow>
     (\<forall>n rest. length (json_text v) \<le> n \<longrightarrow> ends_number rest \<longrightarrow> read_value n (json_text v @ rest) = Some (v, rest))"

lemma reads_backD:
  "reads_back v \<Longrightarrow> length (json_text v) \<le> n \<Longrightarrow> \<not> number_char c \<Longrightarrow>
     read_value n (json_text v @ c # rest) = Some (v, c # rest)"
  by (simp add: reads_back_def ends_number_def)

lemma json_text_nonempty: "json_ok v \<Longrightarrow> json_text v \<noteq> []"
  by (cases v) (auto simp: number_text_def json_string_def)

lemma read_string_key:
  "utf8_valid k \<Longrightarrow> read_string (drop 1 (json_string k @ rest)) = Some (k, rest) \<and>
     (\<exists>t. json_string k @ rest = dquote # t)"
  using read_json_string [of k rest] by auto

lemma not_number [simp]:
  "\<not> number_char (CHR '','')" "\<not> number_char (CHR '']'')" "\<not> number_char (CHR ''}'')"
  "\<not> number_char dquote" "\<not> number_char (CHR ''['')" "\<not> number_char (CHR ''{'')" "\<not> number_char (CHR ''n'')"
  by (simp_all add: number_char_def)

lemma read_items_back:
  assumes "vs \<noteq> []" and "\<forall>v \<in> set vs. reads_back v" and "length (commas (map json_text vs)) < n"
  shows "read_items n (commas (map json_text vs) @ CHR '']'' # rest) = Some (vs, rest)"
  using assms
proof (induction vs arbitrary: n)
  case (Cons v vs)
  then obtain m where n: "n = Suc m" by (cases n) auto
  show ?case
  proof (cases vs)
    case Nil
    with Cons.prems n reads_backD [of v m "CHR '']''" rest] show ?thesis by simp
  next
    case (Cons w ws)
    with Cons.prems n have l: "length (json_text v) \<le> m" "length (commas (map json_text vs)) < m" "reads_back v"
      "\<forall>v \<in> set vs. reads_back v" by simp_all
    have "read_items m (commas (map json_text vs) @ CHR '']'' # rest) = Some (vs, rest)"
      using l Cons by (intro Cons.IH) simp_all
    with reads_backD [OF l(3,1), of "CHR '',''" "commas (map json_text vs) @ CHR '']'' # rest"] show ?thesis
      by (simp add: n Cons)
  qed
qed simp

abbreviation member_text :: "gostring \<times> json \<Rightarrow> gostring" where
  "member_text \<equiv> \<lambda>(k, v). json_string k @ CHR '':'' # json_text v"

text \<open>One member: what is read after its value.\<close>

lemma read_member:
  assumes "utf8_valid k" and "reads_back v" and "length (member_text (k, v)) \<le> Suc m" and "\<not> number_char c"
  shows "read_members (Suc m) (member_text (k, v) @ c # rest) =
     (if c = CHR '','' then map_option (\<lambda>(ms, r'). ((k, v) # ms, r')) (read_members m rest)
      else if c = CHR ''}'' then Some ([(k, v)], rest) else None)"
proof -
  let ?r = "CHR '':'' # json_text v @ c # rest"
  note k = read_string_key [OF assms(1), of ?r]
  then have h: "hd (json_string k @ ?r) = dquote" "json_string k @ ?r \<noteq> []" by auto
  have "length (json_text v) \<le> m" using assms(3) by simp
  note v = reads_backD [OF assms(2) this assms(4), of rest]
  have "member_text (k, v) @ c # rest = json_string k @ ?r" by simp
  then show ?thesis
    unfolding read_members.simps using k h v by simp
qed

lemma read_members_back:
  assumes "ms \<noteq> []" and "\<forall>(k, v) \<in> set ms. utf8_valid k \<and> reads_back v"
    and "length (commas (map member_text ms)) < n"
  shows "read_members n (commas (map member_text ms) @ CHR ''}'' # rest) = Some (ms, rest)"
  using assms
proof (induction ms arbitrary: n)
  case (Cons x ms)
  obtain k v where x: "x = (k, v)" by (cases x)
  from Cons.prems obtain m where n: "n = Suc m" by (cases n) auto
  from Cons.prems x have kv: "utf8_valid k" "reads_back v" by auto
  show ?case
  proof (cases ms)
    case Nil
    have "length (member_text (k, v)) \<le> Suc m" using Cons.prems(3) x n Nil by simp
    with read_member [OF kv this, of "CHR ''}''" rest] show ?thesis by (simp add: n x Nil del: read_members.simps)
  next
    case (Cons y ys)
    with Cons.prems x n have l: "length (member_text (k, v)) \<le> Suc m" "length (commas (map member_text ms)) < m" by simp_all
    have "read_members m (commas (map member_text ms) @ CHR ''}'' # rest) = Some (ms, rest)"
      using l(2) Cons.prems(2) Cons by (intro Cons.IH) auto
    with read_member [OF kv l(1), of "CHR '',''" "commas (map member_text ms) @ CHR ''}'' # rest"] show ?thesis
      by (simp add: n x Cons del: read_members.simps)
  qed
qed simp

lemma commas_nonempty: "xs \<noteq> [] \<Longrightarrow> \<forall>x \<in> set xs. x \<noteq> [] \<Longrightarrow> commas xs \<noteq> [] \<and> hd (commas xs) = hd (hd xs)"
  by (cases xs rule: commas.cases) simp_all

lemma json_text_head: "json_ok v \<Longrightarrow> hd (json_text v) \<noteq> CHR '']''"
  by (cases v) (auto simp: number_text_def json_string_def number_char_def neq_Nil_conv)

lemma number_read:
  assumes "number_text t" and "ends_number rest"
  shows "takeWhile number_char (t @ rest) = t" "dropWhile number_char (t @ rest) = rest"
proof -
  have "\<forall>c \<in> set t. number_char c" using assms(1) by (simp add: number_text_def list_all_iff)
  then show "takeWhile number_char (t @ rest) = t" "dropWhile number_char (t @ rest) = rest"
    using assms(2) by (cases rest; simp add: ends_number_def)+
qed

lemma reads_back_array:
  assumes "list_all json_ok vs" and "\<forall>v \<in> set vs. reads_back v"
  shows "reads_back (JArr vs)"
  unfolding reads_back_def
proof (intro allI impI)
  fix n rest
  assume "length (json_text (JArr vs)) \<le> n"
  then obtain m where n: "n = Suc m" "length (commas (map json_text vs)) < m" by (cases n) auto
  show "read_value n (json_text (JArr vs) @ rest) = Some (JArr vs, rest)"
  proof (cases "vs = []")
    case False
    let ?t = "commas (map json_text vs)"
    have "\<forall>x \<in> set (map json_text vs). x \<noteq> []" using assms(1) by (auto simp: list_all_iff json_text_nonempty)
    with False have "?t \<noteq> []" "hd ?t = hd (json_text (hd vs))"
      using commas_nonempty [of "map json_text vs"] by (simp_all add: hd_map)
    moreover have "json_ok (hd vs)" using assms(1) False by (cases vs) simp_all
    ultimately have "hd (?t @ CHR '']'' # rest) \<noteq> CHR '']''" using json_text_head by simp
    with read_items_back [OF False assms(2) n(2), of rest] show ?thesis by (simp add: n(1))
  qed (simp add: n(1))
qed

lemma reads_back_object:
  assumes "list_all (\<lambda>(k, v). utf8_valid k \<and> json_ok v) ms" and "\<forall>(k, v) \<in> set ms. reads_back v"
  shows "reads_back (JObj ms)"
  unfolding reads_back_def
proof (intro allI impI)
  fix n rest
  assume "length (json_text (JObj ms)) \<le> n"
  then obtain m where n: "n = Suc m" "length (commas (map member_text ms)) < m" by (cases n) auto
  show "read_value n (json_text (JObj ms) @ rest) = Some (JObj ms, rest)"
  proof (cases "ms = []")
    case False
    let ?t = "commas (map member_text ms)"
    have "\<forall>x \<in> set (map member_text ms). x \<noteq> []" by auto
    with False have "?t \<noteq> []" "hd ?t = hd (member_text (hd ms))"
      using commas_nonempty [of "map member_text ms"] by (simp_all add: hd_map)
    moreover have "hd (member_text (hd ms)) = dquote" by (cases "hd ms") (simp add: json_string_def)
    ultimately have "hd (?t @ CHR ''}'' # rest) \<noteq> CHR ''}''" by simp
    moreover have "\<forall>(k, v) \<in> set ms. utf8_valid k \<and> reads_back v" using assms by (auto simp: list_all_iff)
    ultimately show ?thesis using read_members_back [OF False _ n(2), of rest] by (simp add: n(1))
  qed (simp add: n(1))
qed

lemma reads_back_ok: "json_ok v \<Longrightarrow> reads_back v"
proof (induction v)
  case JNull
  show ?case unfolding reads_back_def
  proof (intro allI impI)
    fix n rest
    assume "length (json_text JNull) \<le> n"
    then show "read_value n (json_text JNull @ rest) = Some (JNull, rest)" by (cases n) simp_all
  qed
next
  case (JNum t)
  show ?case unfolding reads_back_def
  proof (intro allI impI)
    fix n rest
    assume l: "length (json_text (JNum t)) \<le> n" and e: "ends_number rest"
    have t: "number_text t" using JNum by simp
    then obtain c cs where c: "t = c # cs" "number_char c" by (cases t) (simp_all add: number_text_def)
    then have "c \<noteq> dquote" "c \<noteq> CHR ''[''" "c \<noteq> CHR ''{''" "c \<noteq> CHR ''n''" using not_number by metis+
    with c l number_read [OF t e] show "read_value n (json_text (JNum t) @ rest) = Some (JNum t, rest)"
      by (cases n) auto
  qed
next
  case (JStr s)
  show ?case unfolding reads_back_def
  proof (intro allI impI)
    fix n rest
    assume "length (json_text (JStr s)) \<le> n"
    moreover obtain t where "json_string s = dquote # t" "read_string (t @ rest) = Some (s, rest)"
      using read_json_string [of s rest] JStr by auto
    ultimately show "read_value n (json_text (JStr s) @ rest) = Some (JStr s, rest)"
      by (cases n) (simp_all del: read_string.simps)
  qed
next
  case (JArr vs)
  then show ?case by (intro reads_back_array) (auto simp: list_all_iff)
next
  case (JObj ms)
  then show ?case by (intro reads_back_object) (auto simp: list_all_iff)
qed

lemma read_json_text: "json_ok v \<Longrightarrow> read_json (json_text v) = Some v"
  using reads_back_ok [of v, unfolded reads_back_def, rule_format, of "length (json_text v)" "[]"]
  by (simp add: read_json_def ends_number_def)

end
