(* ===== verification/ReplyText.thy ===== *)
theory ReplyText
  imports JsonText ProxyModel
begin

text \<open>
  The texts of the proxy's replies (\<open>proxy.go\<close>, and the errors of \<open>child.go\<close> in them): the
  format strings with \<open>%q\<close>, and the JSON objects of \<open>add_server\<close> and \<open>list_servers\<close>. Which
  runes outside ASCII are printable (\<open>pr\<close>) and how a float is written (\<open>ft\<close>) are arguments.
\<close>

section \<open>strconv.Quote\<close>







section \<open>Reading a quoted string\<close>




















section \<open>The texts\<close>





text \<open>A nil slice is written as null; \<open>omitempty\<close> leaves an empty one out.\<close>

definition slice_json :: "json list \<Rightarrow> json" where
  "slice_json vs = (if vs = [] then JNull else JArr vs)"





section \<open>What a client reads\<close>








fun str_of :: "json \<Rightarrow> gostring option" where
  "str_of (JStr s) = Some s" | "str_of _ = None"


fun all_some :: "'a option list \<Rightarrow> 'a list option" where
  "all_some [] = Some []"
| "all_some (x # xs) = (case (x, all_some xs) of (Some a, Some as) \<Rightarrow> Some (a # as) | _ \<Rightarrow> None)"

text \<open>Null and an absent member read as an empty slice.\<close>

fun slice_of :: "(json \<Rightarrow> 'a option) \<Rightarrow> json option \<Rightarrow> 'a list option" where
  "slice_of f None = Some []" | "slice_of f (Some JNull) = Some []"
| "slice_of f (Some (JArr vs)) = all_some (map f vs)" | "slice_of f (Some _) = None"






lemma all_some_map: "(\<And>x. x \<in> set xs \<Longrightarrow> f x = Some x) \<Longrightarrow> all_some (map f xs) = Some xs"
  by (induction xs) simp_all

lemma slice_back: "(\<And>x. x \<in> set xs \<Longrightarrow> f (g x) = Some x) \<Longrightarrow> slice_of f (Some (slice_json (map g xs))) = Some xs"
  using all_some_map [of xs "f \<circ> g"] by (simp add: slice_json_def)

lemma strs_back [simp]: "slice_of str_of (Some (slice_json (map JStr xs))) = Some xs"
  by (rule slice_back) simp




section \<open>Properties\<close>








end
