(* ===== verification/TestServers.thy ===== *)
theory TestServers
  imports Utf8 ProxyRefine "HOL-Library.Word"
begin

text \<open>
  The MCP servers the proxy is tested with, \<open>mcpmux/internal/testbin\<close>: \<open>echoserver\<close>, its
  second version with a \<open>reverse\<close> tool, and \<open>crashserver\<close>. Each tool's handler is a
  definition; \<open>serve_call\<close> is a call of one of a server's tools by name, which the SDK makes.
  The arguments of a call are given as the SDK has decoded them. \<open>int\<close> is 64 bits wide.
\<close>

section \<open>Inputs and results\<close>

record EchoInput =
  Message :: gostring

record SlowEchoInput = EchoInput +
  DelayMs :: "64 word"

text \<open>A handler returns an error or a result with a list of texts; \<open>crash\<close> does not return.\<close>

datatype outcome = Result "gostring list" | Fails gostring | Exits int

definition handleEcho :: "EchoInput \<Rightarrow> outcome" where
  "handleEcho input = Result [Message input]"

section \<open>slow_echo\<close>

text \<open>\<open>time.Duration\<close> counts nanoseconds in 64 bits; the product wraps.\<close>

definition time_Millisecond :: "64 word" where
  "time_Millisecond = 1000000"

definition slow_delay :: "SlowEchoInput \<Rightarrow> 64 word" where
  "slow_delay input = DelayMs input * time_Millisecond"

text \<open>
  \<open>time.After\<close> sends once the duration has passed, at once if it is not positive. The
  context is done at the given time with the given error, or never; of two cases that are
  ready together \<open>select\<close> takes either, here the timer if \<open>tie\<close> says so.
\<close>

definition timer_at :: "64 word \<Rightarrow> int" where
  "timer_at d = max 0 (sint d)"

definition handleSlowEcho :: "bool \<Rightarrow> (int \<times> gostring) option \<Rightarrow> SlowEchoInput \<Rightarrow> outcome" where
  "handleSlowEcho tie done input =
     (let fires = timer_at (slow_delay input) in
      case done of
        None \<Rightarrow> Result [Message input]
      | Some (at, err) \<Rightarrow>
          if fires < at \<or> fires = at \<and> tie then Result [Message input] else Fails err)"

section \<open>reverse\<close>

text \<open>The swap of two elements panics if an index is out of range: \<^term>\<open>None\<close>.\<close>

definition swap_at :: "int \<Rightarrow> int \<Rightarrow> nat list \<Rightarrow> nat list option" where
  "swap_at i j rs =
     (if 0 \<le> i \<and> i < int (length rs) \<and> 0 \<le> j \<and> j < int (length rs)
      then Some (rs[nat i := rs ! nat j, nat j := rs ! nat i]) else None)"

text \<open>The loop; its indices stay below the length of a slice, which an \<open>int\<close> can hold.\<close>

function reverse_loop :: "int \<Rightarrow> int \<Rightarrow> nat list \<Rightarrow> nat list option" where
  "reverse_loop i j rs =
     (if i < j
      then (case swap_at i j rs of None \<Rightarrow> None | Some rs' \<Rightarrow> reverse_loop (i + 1) (j - 1) rs')
      else Some rs)"
  by pat_completeness auto
termination
  by (relation "measure (\<lambda>(i, j, rs). nat (j - i))") auto

declare reverse_loop.simps [simp del]

definition reverse_runes :: "nat list \<Rightarrow> nat list option" where
  "reverse_runes rs = reverse_loop 0 (int (length rs) - 1) rs"

definition handleReverse :: "EchoInput \<Rightarrow> outcome option" where
  "handleReverse input =
     map_option (\<lambda>rs. Result [string_of_runes rs]) (reverse_runes (runes_of_string (Message input)))"

text \<open>What the loop computes: the middle part of the list reversed.\<close>

lemma reverse_loop_parts:
  "reverse_loop (int (length xs)) (int (length xs + length ys) - 1) (xs @ ys @ zs) = Some (xs @ rev ys @ zs)"
proof (induction "length ys" arbitrary: xs ys zs rule: less_induct)
  case less
  consider "ys = []" | y where "ys = [y]" | y ms z where "ys = y # ms @ [z]"
    by (metis neq_Nil_conv rev_exhaust)
  then show ?case
  proof cases
    case (3 y ms z)
    let ?i = "int (length xs)" and ?j = "int (length xs + length ys) - 1"
    have j: "nat ?j = length xs + Suc (length ms)" using 3 by simp
    have "swap_at ?i ?j (xs @ ys @ zs) = Some ((xs @ [z]) @ ms @ (y # zs))"
      using 3 j by (simp add: swap_at_def nth_append list_update_append)
    moreover have "reverse_loop (int (length (xs @ [z]))) (int (length (xs @ [z]) + length ms) - 1)
        ((xs @ [z]) @ ms @ (y # zs)) = Some ((xs @ [z]) @ rev ms @ (y # zs))"
      using 3 by (intro less) simp
    moreover have "int (length (xs @ [z])) = ?i + 1" "int (length (xs @ [z]) + length ms) - 1 = ?j - 1"
      using 3 by simp_all
    ultimately show ?thesis
      using 3 by (subst reverse_loop.simps) (simp add: add.commute)
  qed (simp_all add: reverse_loop.simps)
qed

lemma reverse_runes_rev: "reverse_runes rs = Some (rev rs)"
  using reverse_loop_parts [of "[]" rs "[]"] by (simp add: reverse_runes_def)

section \<open>The copies of the second version and of crashserver\<close>

text \<open>The second version is a program of its own, with types and handlers of its own.\<close>

type_synonym EchoInput_v2 = EchoInput

type_synonym SlowEchoInput_v2 = SlowEchoInput

definition handleEcho_v2 :: "EchoInput_v2 \<Rightarrow> outcome" where
  "handleEcho_v2 input = Result [Message input]"

definition handleSlowEcho_v2 :: "bool \<Rightarrow> (int \<times> gostring) option \<Rightarrow> SlowEchoInput_v2 \<Rightarrow> outcome" where
  "handleSlowEcho_v2 tie done input =
     (let fires = timer_at (DelayMs input * time_Millisecond) in
      case done of
        Some (at, err) \<Rightarrow>
          if at < fires \<or> at = fires \<and> \<not> tie then Fails err else Result [Message input]
      | None \<Rightarrow> Result [Message input])"

lemma handlers_v2: "handleEcho_v2 = handleEcho" "handleSlowEcho_v2 = handleSlowEcho"
  by (auto simp: fun_eq_iff handleEcho_v2_def handleEcho_def handleSlowEcho_v2_def handleSlowEcho_def
    slow_delay_def Let_def split: option.splits)

text \<open>The input of \<open>crash\<close> is the empty struct.\<close>

type_synonym CrashInput = unit

definition handleCrash_exit :: "CrashInput \<Rightarrow> outcome" where
  "handleCrash_exit input = Exits 1"

section \<open>The servers\<close>

text \<open>The input type that \<open>mcp.AddTool\<close> is instantiated with goes with the handler.\<close>

datatype tool_handler = Echo | SlowEcho | Echo_v2 | SlowEcho_v2 | Reverse | Crash

record test_server =
  impl_Name :: gostring
  impl_Version :: gostring
  impl_Tools :: "(gostring \<times> gostring \<times> tool_handler) list"

definition new_server :: "gostring \<Rightarrow> gostring \<Rightarrow> test_server" where
  "new_server n v = \<lparr>impl_Name = n, impl_Version = v, impl_Tools = []\<rparr>"

definition add_tool :: "gostring \<Rightarrow> gostring \<Rightarrow> tool_handler \<Rightarrow> test_server \<Rightarrow> test_server" where
  "add_tool n d h srv = srv\<lparr>impl_Tools := filter (\<lambda>x. fst x \<noteq> n) (impl_Tools srv) @ [(n, d, h)]\<rparr>"

definition echoserver :: test_server where
  "echoserver =
     (let s = add_tool ''echo'' ''Returns input as-is'' Echo (new_server ''echoserver'' ''v1'')
      in add_tool ''slow_echo'' ''Returns input after a delay'' SlowEcho s)"

definition echoserver_v2 :: test_server where
  "echoserver_v2 =
     (let s = add_tool ''echo'' ''Returns input as-is'' Echo_v2 (new_server ''echoserver'' ''v2'');
          s1 = add_tool ''slow_echo'' ''Returns input after a delay'' SlowEcho_v2 s
      in add_tool ''reverse'' ''Reverses the input string'' Reverse s1)"

definition crashserver :: test_server where
  "crashserver = add_tool ''crash'' ''Crashes the server'' Crash (new_server ''crashserver'' ''v1'')"

text \<open>The mains: \<open>Run\<close> until it returns, \<open>log.Fatal\<close> on an error; the exit status.\<close>

definition echoserver_main :: "(test_server \<Rightarrow> gostring option) \<Rightarrow> int" where
  "echoserver_main run = (case run echoserver of None \<Rightarrow> 0 | Some err \<Rightarrow> 1)"

definition echoserver_v2_main :: "(test_server \<Rightarrow> gostring option) \<Rightarrow> int" where
  "echoserver_v2_main run = (case run echoserver_v2 of None \<Rightarrow> 0 | Some err \<Rightarrow> 1)"

definition crashserver_main :: "(test_server \<Rightarrow> gostring option) \<Rightarrow> int" where
  "crashserver_main run = (case run crashserver of None \<Rightarrow> 0 | Some err \<Rightarrow> 1)"

text \<open>
  A call, as the SDK makes it: it finds the tool, decodes and checks the arguments for the
  handler's input type, and calls the handler. The decoding and the texts are the SDK's, and
  so arguments; \<^term>\<open>None\<close> is a panic of the handler.
\<close>

record 'args sdk =
  unknown_tool :: "gostring \<Rightarrow> gostring"
  dec_echo :: "'args \<Rightarrow> gostring + EchoInput"
  dec_slow :: "'args \<Rightarrow> gostring + SlowEchoInput"
  dec_crash :: "'args \<Rightarrow> gostring + CrashInput"

definition run_handler ::
  "'args sdk \<Rightarrow> bool \<Rightarrow> (int \<times> gostring) option \<Rightarrow> tool_handler \<Rightarrow> 'args \<Rightarrow> outcome option" where
  "run_handler sdk tie done h args =
     (case h of
        Echo \<Rightarrow> (case dec_echo sdk args of Inl e \<Rightarrow> Some (Fails e) | Inr x \<Rightarrow> Some (handleEcho x))
      | SlowEcho \<Rightarrow> (case dec_slow sdk args of Inl e \<Rightarrow> Some (Fails e) | Inr x \<Rightarrow> Some (handleSlowEcho tie done x))
      | Echo_v2 \<Rightarrow> (case dec_echo sdk args of Inl e \<Rightarrow> Some (Fails e) | Inr x \<Rightarrow> Some (handleEcho_v2 x))
      | SlowEcho_v2 \<Rightarrow>
          (case dec_slow sdk args of Inl e \<Rightarrow> Some (Fails e) | Inr x \<Rightarrow> Some (handleSlowEcho_v2 tie done x))
      | Reverse \<Rightarrow> (case dec_echo sdk args of Inl e \<Rightarrow> Some (Fails e) | Inr x \<Rightarrow> handleReverse x)
      | Crash \<Rightarrow> (case dec_crash sdk args of Inl e \<Rightarrow> Some (Fails e) | Inr x \<Rightarrow> Some (handleCrash_exit x)))"

definition serve_call ::
  "'args sdk \<Rightarrow> bool \<Rightarrow> (int \<times> gostring) option \<Rightarrow> test_server \<Rightarrow> gostring \<Rightarrow> 'args \<Rightarrow> outcome option" where
  "serve_call sdk tie done srv n args =
     (case map_of (impl_Tools srv) n of
        None \<Rightarrow> Some (Fails (unknown_tool sdk n))
      | Some (d, h) \<Rightarrow> run_handler sdk tie done h args)"

text \<open>What the server lists; the schema of an input type is the SDK's.\<close>

definition listed_tools :: "(tool_handler \<Rightarrow> gostring) \<Rightarrow> test_server \<Rightarrow> Tool list" where
  "listed_tools schema srv =
     map (\<lambda>(n, d, h). \<lparr>tool_Name = n, tool_Description = d, tool_InputSchema = Some (schema h)\<rparr>) (impl_Tools srv)"

lemmas server_defs = echoserver_def echoserver_v2_def crashserver_def new_server_def add_tool_def Let_def

lemma echoserver_v2_tools:
  "impl_Tools echoserver_v2 =
     [(''echo'', ''Returns input as-is'', Echo_v2), (''slow_echo'', ''Returns input after a delay'', SlowEcho_v2),
      (''reverse'', ''Reverses the input string'', Reverse)]"
  by (simp add: server_defs)

lemma handleReverse_eq:
  "handleReverse input = Some (Result [string_of_runes (rev (runes_of_string (Message input)))])"
  by (simp add: handleReverse_def reverse_runes_rev)

section \<open>Properties\<close>

text \<open>The in-place loop of \<open>reverse\<close> is list reversal: it ends, none of its index
  expressions is out of range, and every element is where \<open>rev\<close> puts it.\<close>

theorem reverse_loop_exact: "reverse_runes rs = Some (rev rs)"
  by (rule reverse_runes_rev)

text \<open>\<open>reverse\<close> undoes itself on valid text: the reversal of the UTF-8 text of code points is
  the text of the reversed code points, as many bytes long, and reversing it again gives the
  message back.\<close>

theorem reverse_roundtrip:
  assumes "\<forall>r\<in>set rs. scalar r"
  shows "handleReverse \<lparr>Message = string_of_runes rs\<rparr> = Some (Result [string_of_runes (rev rs)]) \<and>
     handleReverse \<lparr>Message = string_of_runes (rev rs)\<rparr> = Some (Result [string_of_runes rs]) \<and>
     length (string_of_runes (rev rs)) = length (string_of_runes rs)"
  using assms by (simp add: handleReverse_eq runes_string length_string_of_runes rev_map [symmetric] del: rev_map)

lemma reverse_roundtrip_witness:
  "handleReverse \<lparr>Message = [CHR 0xC3, CHR 0xA9, CHR ''a'']\<rparr> = Some (Result [[CHR ''a'', CHR 0xC3, CHR 0xA9]])"
proof -
  have "\<forall>r\<in>set [0xE9, 0x61 :: nat]. scalar r" by (simp add: scalar_def)
  moreover have "string_of_runes [0xE9, 0x61] = [CHR 0xC3, CHR 0xA9, CHR ''a'']"
    "string_of_runes (rev [0xE9, 0x61]) = [CHR ''a'', CHR 0xC3, CHR 0xA9]"
    by (rule string_of_runesI, simp add: encode_rune_def scalar_def encode_scalar_def)+
  ultimately show ?thesis using reverse_roundtrip [of "[0xE9, 0x61]"] by metis
qed





text \<open>The second version of the echo server behind the proxy: added under a free valid
  name, with \<open>tools/list\<close> answering what its main registers, its three tools appear under
  their prefixed names, and a call of \<open>reverse\<close> returns the reversed message.\<close>

theorem echo_v2_through_proxy:
  assumes "mcp_server ops" and "proxy_run ops evs (NewProxy ops) = Some p"
    and "valid_name (in_Name input)" and "children p (in_Name input) = None"
    and "start_result (ae_start e) = Some (listed_tools schema echoserver_v2)" and "\<not> ae_dies e"
    and "handleAddServer ops e input p = Some (r, p')"
    and "callTool (next_child p) ''reverse'' args = Inr (serve_call sdk tie done echoserver_v2 ''reverse'' args)"
    and "dec_echo sdk args = Inr \<lparr>Message = m\<rparr>"
  shows "content r = Added (in_Name input) (map (PrefixTool (in_Name input)) [''echo'', ''slow_echo'', ''reverse'']) \<and>
     (\<forall>t \<in> {''echo'', ''slow_echo'', ''reverse''}.
        map_option snd (lookupTool ops (server p') (PrefixTool (in_Name input) t)) = Some (ProxyTool (in_Name input) t)) \<and>
     proxyHandler callTool (in_Name input) ''reverse'' args p' =
       FromChild (Some (Result [string_of_runes (rev (runes_of_string m))]))"
proof -
  let ?n = "in_Name input" and ?ts = "listed_tools schema echoserver_v2"
  have inv: "proxy_inv ops p" by (rule mcp_server.run_new_inv(1) [OF assms(1,2)])
  from mcp_server.handleAddServer_ok [OF assms(1) inv assms(3,4,7)] obtain x where
    x: "outcome_ok e x" "r = outcome_reply input x" and inv': "proxy_inv ops p'" and
    a: "abs_proxy p' = spec_add e input (abs_proxy p)" and
    ch: "children p' = (if \<exists>ts. x = Registered ts then (children p)(?n \<mapsto> next_child p) else children p)"
    by blast
  have reg: "x = Registered ?ts" using x(1) assms(5,6) by (simp add: outcome_ok_def)
  have names: "map tool_Name ?ts = [''echo'', ''slow_echo'', ''reverse'']"
    by (simp add: listed_tools_def echoserver_v2_tools)
  have "map (\<lambda>t. PrefixTool ?n (tool_Name t)) ?ts = map (PrefixTool ?n) (map tool_Name ?ts)" by simp
  then have c: "content r = Added ?n (map (PrefixTool ?n) [''echo'', ''slow_echo'', ''reverse''])"
    unfolding x(2) reg outcome_reply_def names by (simp add: textResult_def)
  have "abs_proxy p' ?n = Some \<lparr>a_config = config_of input, a_running = True, a_tools = ?ts\<rparr>"
    using assms(3-6) by (simp add: a spec_add_def abs_proxy_def)
  then have vis: "lookupTool ops (server p') (PrefixTool ?n t) =
      map_option (\<lambda>tl. (export_tool ?n tl, ProxyTool ?n t)) (find_tool ?ts t)" for t
    using inv' assms(3) by (simp add: proxy_inv_def visible_PrefixTool visible_of_def)
  have "\<exists>y. find_tool ?ts t = Some y" if "t \<in> {''echo'', ''slow_echo'', ''reverse''}" for t
    using that find_tool_None [of ?ts t] arg_cong [OF names, of set] by auto
  then have l: "map_option snd (lookupTool ops (server p') (PrefixTool ?n t)) = Some (ProxyTool ?n t)"
    if "t \<in> {''echo'', ''slow_echo'', ''reverse''}" for t
    using that unfolding vis by fastforce
  have i: "children p' ?n = Some (next_child p)" by (simp add: ch reg)
  then have "session (heap p' (next_child p)) = Some (next_child p)"
    using inv_child [OF inv'] by (simp add: child_ok_def)
  then have "proxyHandler callTool ?n ''reverse'' args p' =
       FromChild (Some (Result [string_of_runes (rev (runes_of_string m))]))"
    using assms(8,9) by (simp add: proxyHandler_def i serve_call_def echoserver_v2_tools run_handler_def handleReverse_eq)
  with c l show ?thesis by blast
qed

definition v2_input :: addServerInput where
  "v2_input = \<lparr>in_Name = ''v2'', in_Command = ''echoserver_v2'', in_Args = [], in_Env = [], in_Cwd = []\<rparr>"

lemma v2_name: "valid_name ''v2''"
  by code_simp

definition v2_start :: add_env where
  "v2_start =
     \<lparr>ae_start = \<lparr>env_connect = Inr 7, env_list = (\<lambda>n c. Inr (listed_tools (\<lambda>_. ''{}'') echoserver_v2, [])),
        env_now = 5, env_ctx_err = False\<rparr>, ae_dies = False\<rparr>"

definition v2_sdk :: "gostring sdk" where
  "v2_sdk = \<lparr>unknown_tool = (\<lambda>n. n), dec_echo = (\<lambda>m. Inr \<lparr>Message = m\<rparr>), dec_slow = (\<lambda>m. Inl m), dec_crash = (\<lambda>m. Inl m)\<rparr>"

definition v2_call :: "nat \<Rightarrow> gostring \<Rightarrow> gostring \<Rightarrow> gostring + outcome option" where
  "v2_call s t args = Inr (serve_call v2_sdk True None echoserver_v2 t args)"

lemma v2_text: "string_of_runes (rev (runes_of_string ''ab'')) = ''ba''"
  by (rule string_of_runesI)
    (simp add: runes_of_string_def decode_rune_def encode_rune_def scalar_def encode_scalar_def)

lemma v2_added:
  "start_result (ae_start v2_start) = Some (listed_tools (\<lambda>_. ''{}'') echoserver_v2)"
  "\<exists>r p'. handleAddServer map_server v2_start v2_input (NewProxy map_server) = Some (r, p')"
proof -
  show s: "start_result (ae_start v2_start) = Some (listed_tools (\<lambda>_. ''{}'') echoserver_v2)"
    by (simp add: v2_start_def start_result_def discoverTools_def discover_loop.simps)
  show "\<exists>r p'. handleAddServer map_server v2_start v2_input (NewProxy map_server) = Some (r, p')"
    by (simp add: handleAddServer_def v2_input_def add_reserve_ok v2_name NewProxy_def child_Start_def
        child_start_def section_defs NewChild_def v2_start_def discoverTools_def discover_loop.simps)
qed

lemma echo_v2_through_proxy_witness:
  "\<exists>r p'. handleAddServer map_server v2_start v2_input (NewProxy map_server) = Some (r, p') \<and>
     proxyHandler v2_call ''v2'' ''reverse'' ''ab'' p' = FromChild (Some (Result [''ba'']))"
proof -
  obtain r p' where h: "handleAddServer map_server v2_start v2_input (NewProxy map_server) = Some (r, p')"
    using v2_added(2) by blast
  have n: "in_Name v2_input = ''v2''" "\<not> ae_dies v2_start" "dec_echo v2_sdk ''ab'' = Inr \<lparr>Message = ''ab''\<rparr>"
    by (simp_all add: v2_input_def v2_start_def v2_sdk_def)
  have "proxyHandler v2_call ''v2'' ''reverse'' ''ab'' p' = FromChild (Some (Result [''ba'']))"
    using echo_v2_through_proxy [of map_server "[]" "NewProxy map_server" v2_input v2_start "\<lambda>_. ''{}''" r p' v2_call "''ab''" v2_sdk True None "''ab''"]
      ms.mcp_server_axioms v2_name v2_added(1) h
    by (simp add: n v2_text v2_call_def NewProxy_def)
  with h show ?thesis by blast
qed

end
