(* ===== verification/TestUpgrade.thy ===== *)
theory TestUpgrade
  imports TestServers ProxyProps
begin

text \<open>
  What the reload test is about: a child that was \<open>echoserver\<close> and is \<open>echoserver_v2\<close> when
  \<open>reload_server\<close> starts it again (\<open>mcpmux/internal/testbin\<close>, \<open>proxy.go\<close>).
\<close>

section \<open>reload_server of a server that starts\<close>


section \<open>The tools of a running server\<close>






section \<open>The upgrade\<close>







end
