(* ===== verification/MuxMain.thy ===== *)
theory MuxMain
  imports ProxyProps
begin










end
