(* ===== verification/Fairness.thy ===== *)
theory Fairness
  imports Main
begin

text \<open>
  Infinite runs of a system of threads, weak fairness, and the rule by which what a thread
  waits for is shown to come about on every fair run: in each state short of the goal some
  thread is helpful, it can move, its moves bring the goal nearer, and those of the others do
  not take it farther away.
\<close>

text \<open>\<open>a n\<close> is the action between the states \<open>p n\<close> and \<open>p (Suc n)\<close>; the run may pause.\<close>

definition runs :: "('a \<Rightarrow> 's \<Rightarrow> 's option) \<Rightarrow> (nat \<Rightarrow> 's) \<Rightarrow> (nat \<Rightarrow> 'a option) \<Rightarrow> bool" where
  "runs step p a \<longleftrightarrow>
     (\<forall>n. case a n of None \<Rightarrow> p (Suc n) = p n | Some x \<Rightarrow> step x (p n) = Some (p (Suc n)))"

text \<open>The actions of a thread may depend on the state: a call that has not begun has none.\<close>

definition enabled :: "('a \<Rightarrow> 's \<Rightarrow> 's option) \<Rightarrow> ('s \<Rightarrow> 'a \<Rightarrow> bool) \<Rightarrow> 's \<Rightarrow> bool" where
  "enabled step T s \<longleftrightarrow> (\<exists>x. T s x \<and> step x s \<noteq> None)"

text \<open>A thread that could move from some point on does move again and again.\<close>

definition fair :: "('a \<Rightarrow> 's \<Rightarrow> 's option) \<Rightarrow> ('s \<Rightarrow> 'a \<Rightarrow> bool) \<Rightarrow> (nat \<Rightarrow> 's) \<Rightarrow> (nat \<Rightarrow> 'a option) \<Rightarrow> bool" where
  "fair step T p a \<longleftrightarrow> (\<forall>n. \<exists>m \<ge> n. \<not> enabled step T (p m) \<or> (\<exists>x. T (p m) x \<and> a m = Some x))"

lemma runs_step: "runs step p a \<Longrightarrow> p (Suc n) = p n \<or> (\<exists>x. a n = Some x \<and> step x (p n) = Some (p (Suc n)))"
  unfolding runs_def by (cases "a n") (metis option.simps(4), metis option.simps(5))

lemma runs_action: "runs step p a \<Longrightarrow> a n = Some x \<Longrightarrow> step x (p n) = Some (p (Suc n))"
  unfolding runs_def by (metis option.simps(5))

text \<open>\<open>rank\<close> is what is left to do, \<open>helpful\<close> the thread that is to move next.\<close>

locale response_steps =
  fixes step :: "'a \<Rightarrow> 's \<Rightarrow> 's option" and thread :: "'t \<Rightarrow> 's \<Rightarrow> 'a \<Rightarrow> bool"
    and inv :: "'s \<Rightarrow> bool" and goal :: "'s \<Rightarrow> bool" and rank :: "'s \<Rightarrow> 'w::wellorder" and helpful :: "'s \<Rightarrow> 't"
  assumes kept: "inv s \<Longrightarrow> step x s = Some s' \<Longrightarrow> inv s'"
    and helps: "inv s \<Longrightarrow> \<not> goal s \<Longrightarrow> step x s = Some s' \<Longrightarrow> thread (helpful s) s x \<Longrightarrow>
      goal s' \<or> rank s' < rank s"
    and waits: "inv s \<Longrightarrow> \<not> goal s \<Longrightarrow> step x s = Some s' \<Longrightarrow>
      goal s' \<or> rank s' < rank s \<or> rank s' = rank s \<and> helpful s' = helpful s"
begin

lemma inv_run: "runs step p a \<Longrightarrow> inv (p 0) \<Longrightarrow> inv (p n)"
proof (induction n)
  case (Suc n)
  then show ?case using runs_step [of step p a n] kept by metis
qed

text \<open>Until the goal is reached or the rank has dropped, rank and helpful thread stay.\<close>

lemma stays:
  assumes r: "runs step p a" and i: "inv (p 0)"
    and no: "\<And>k. n \<le> k \<Longrightarrow> \<not> goal (p k) \<and> \<not> rank (p k) < rank (p n)"
  shows "rank (p (n + k)) = rank (p n) \<and> helpful (p (n + k)) = helpful (p n)"
proof (induction k)
  case (Suc k)
  have "\<not> goal (p (n + k))" "\<not> goal (p (n + Suc k))" "\<not> rank (p (n + Suc k)) < rank (p n)" using no by simp_all
  with Suc runs_step [OF r, of "n + k"] waits [OF inv_run [OF r i]] show ?case
    by (metis add_Suc_right)
qed simp

text \<open>It is enough that the helpful thread moves in the end, for whatever reason.\<close>

lemma inevitable_if_moved:
  assumes r: "runs step p a" and i: "inv (p 0)"
    and moves: "\<And>n. \<forall>k \<ge> n. \<not> goal (p k) \<and> helpful (p k) = helpful (p n) \<Longrightarrow>
      \<exists>m \<ge> n. \<exists>x. thread (helpful (p n)) (p m) x \<and> a m = Some x"
  shows "\<exists>m \<ge> n. goal (p m)"
proof (induction "rank (p n)" arbitrary: n rule: less_induct)
  case less
  show ?case
  proof (cases "\<exists>k \<ge> n. goal (p k) \<or> rank (p k) < rank (p n)")
    case True
    then show ?thesis using less by (meson le_trans)
  next
    case False
    then have no: "\<not> goal (p k) \<and> \<not> rank (p k) < rank (p n)" if "n \<le> k" for k using that by blast
    have s: "rank (p m) = rank (p n) \<and> helpful (p m) = helpful (p n)" if "n \<le> m" for m
      using stays [OF r i no, of "m - n"] that by simp
    have "\<forall>k \<ge> n. \<not> goal (p k) \<and> helpful (p k) = helpful (p n)" using no s by blast
    from moves [OF this] obtain m x where m: "n \<le> m" "thread (helpful (p n)) (p m) x" "a m = Some x"
      by (elim exE conjE)
    have g: "\<not> goal (p m)" using no [OF m(1)] ..
    have h: "thread (helpful (p m)) (p m) x" by (subst conjunct2 [OF s [OF m(1)]]) (rule m(2))
    have "goal (p (Suc m)) \<or> rank (p (Suc m)) < rank (p m)"
      by (rule helps [OF inv_run [OF r i] g runs_action [OF r m(3)] h])
    moreover have "\<not> goal (p (Suc m)) \<and> \<not> rank (p (Suc m)) < rank (p n)" by (rule no) (simp add: m(1) le_SucI)
    ultimately show ?thesis using s [OF m(1)] by simp
  qed
qed

end

text \<open>With weak fairness it moves if it can.\<close>

locale response = response_steps +
  assumes ready: "inv s \<Longrightarrow> \<not> goal s \<Longrightarrow> enabled step (thread (helpful s)) s"
begin

lemma inevitable:
  assumes r: "runs step p a" and f: "\<And>t. fair step (thread t) p a" and i: "inv (p 0)"
  shows "\<exists>m \<ge> n. goal (p m)"
proof (rule inevitable_if_moved [OF r i])
  fix n assume no: "\<forall>k \<ge> n. \<not> goal (p k) \<and> helpful (p k) = helpful (p n)"
  obtain m where m: "n \<le> m" "\<not> enabled step (thread (helpful (p n))) (p m) \<or>
      (\<exists>x. thread (helpful (p n)) (p m) x \<and> a m = Some x)"
    using f [of "helpful (p n)"] unfolding fair_def by blast
  have g: "\<not> goal (p m)" and h: "helpful (p m) = helpful (p n)" using no m(1) by blast+
  have "enabled step (thread (helpful (p n))) (p m)"
    using ready [OF inv_run [OF r i] g] by (simp add: h)
  with m show "\<exists>m \<ge> n. \<exists>x. thread (helpful (p n)) (p m) x \<and> a m = Some x" by blast
qed

end

section \<open>Finite runs\<close>

text \<open>A finite run that ends in pauses is fair if nothing is enabled at its end.\<close>

fun run_states :: "('a \<Rightarrow> 's \<Rightarrow> 's option) \<Rightarrow> 'a list \<Rightarrow> 's \<Rightarrow> nat \<Rightarrow> 's" where
  "run_states step [] s n = s"
| "run_states step (x # xs) s 0 = s"
| "run_states step (x # xs) s (Suc n) = run_states step xs (the (step x s)) n"

fun run_ok :: "('a \<Rightarrow> 's \<Rightarrow> 's option) \<Rightarrow> 'a list \<Rightarrow> 's \<Rightarrow> bool" where
  "run_ok step [] s = True"
| "run_ok step (x # xs) s = (step x s \<noteq> None \<and> run_ok step xs (the (step x s)))"

definition run_actions :: "'a list \<Rightarrow> nat \<Rightarrow> 'a option" where
  "run_actions xs n = (if n < length xs then Some (xs ! n) else None)"

lemma run_states_0 [simp]: "run_states step xs s 0 = s"
  by (cases xs) simp_all

lemma run_ok_runs: "run_ok step xs s \<Longrightarrow> runs step (run_states step xs s) (run_actions xs)"
proof (induction xs arbitrary: s)
  case Nil
  show ?case by (simp add: runs_def run_actions_def)
next
  case (Cons x xs)
  then obtain y where y: "step x s = Some y" "run_ok step xs y" by auto
  note r = Cons.IH [OF y(2), unfolded runs_def, rule_format]
  show ?case unfolding runs_def
  proof
    fix n
    show "case run_actions (x # xs) n of None \<Rightarrow> run_states step (x # xs) s (Suc n) = run_states step (x # xs) s n
      | Some z \<Rightarrow> step z (run_states step (x # xs) s n) = Some (run_states step (x # xs) s (Suc n))"
    proof (cases n)
      case 0
      with y show ?thesis by (simp add: run_actions_def)
    next
      case (Suc m)
      with y r [of m] show ?thesis by (cases "m < length xs") (simp_all add: run_actions_def)
    qed
  qed
qed

lemma run_states_end: "length xs \<le> n \<Longrightarrow> run_states step xs s n = run_states step xs s (length xs)"
  by (induction xs arbitrary: s n) (simp, metis Suc_le_D Suc_le_mono length_Cons run_states.simps(3))

lemma finite_fair:
  assumes "\<not> enabled step T (run_states step xs s (length xs))"
  shows "fair step T (run_states step xs s) a"
  unfolding fair_def
proof
  fix n
  have "run_states step xs s (max n (length xs)) = run_states step xs s (length xs)" by (rule run_states_end) simp
  with assms show "\<exists>m \<ge> n. \<not> enabled step T (run_states step xs s m) \<or> (\<exists>x. T (run_states step xs s m) x \<and> a m = Some x)"
    by (intro exI [of _ "max n (length xs)"]) simp
qed

end
