(* ===== verification/ChildFair.thy ===== *)
theory ChildFair
  imports ChildLive Fairness
begin

text \<open>
  \<open>Start\<close> and \<open>Stop\<close> of \<open>child.go\<close> return on every fair run, whatever the other threads, the
  clients and the processes do in between.
\<close>

section \<open>Threads and measures\<close>

text \<open>The moves of a call of \<open>Start\<close>, and of one of \<open>Stop\<close>, that has begun.\<close>

fun child_thread :: "nat + nat \<Rightarrow> child_sys \<Rightarrow> action \<Rightarrow> bool" where
  "child_thread (Inl i) s (AStart k b) = (k = i \<and> starters s i \<noteq> SIdle)"
| "child_thread (Inr j) s (AStop k b) = (k = j \<and> stoppers s j \<noteq> PIdle)"
| "child_thread _ _ _ = False"

fun stop_height :: "stop_pc \<Rightarrow> nat" where
  "stop_height PIdle = 6" | "stop_height (PCancel _) = 5" | "stop_height (PWait _) = 4"
| "stop_height PReread = 3" | "stop_height (PClose _ _) = 2" | "stop_height (PKilled _) = 1"
| "stop_height PDone = 0"

text \<open>The \<open>Stop\<close> call waits for the \<open>Start\<close> that is under way.\<close>

definition blocked :: "nat \<Rightarrow> child_sys \<Rightarrow> bool" where
  "blocked j s \<longleftrightarrow> startDone (child s) = Some False \<and> (\<exists>f. stoppers s j = PWait f \<and> f_wait f)"

definition starter :: "child_sys \<Rightarrow> nat" where
  "starter s = (SOME w. entered (starters s w))"

definition stop_inv :: "nat \<Rightarrow> child_sys \<Rightarrow> bool" where
  "stop_inv j s \<longleftrightarrow> (\<exists>cfg f. creach cfg f s) \<and> stoppers s j \<noteq> PIdle"

definition stop_over :: "nat \<Rightarrow> child_sys \<Rightarrow> bool" where
  "stop_over j s \<longleftrightarrow> stoppers s j = PDone"

definition stop_measure :: "nat \<Rightarrow> child_sys \<Rightarrow> nat" where
  "stop_measure j s =
     10 * stop_height (stoppers s j) + (if blocked j s then start_rank (starters s (starter s)) else 0)"

definition stop_helper :: "nat \<Rightarrow> child_sys \<Rightarrow> nat + nat" where
  "stop_helper j s = (if blocked j s then Inl (starter s) else Inr j)"

lemmas stop_measures = stop_measure_def stop_helper_def blocked_def

section \<open>The waiting for a Start\<close>

lemma starter_unique: "creach cfg f s \<Longrightarrow> entered (starters s w) \<Longrightarrow> starter s = w"
  unfolding starter_def by (rule some_equality) (auto intro: active_unique creach_active)

lemma blocked_active:
  assumes "creach cfg f s" and "startDone (child s) = Some False"
  shows "active s (starter s) \<and> \<not> left (starters s (starter s))"
proof -
  have "\<not> untouched s" using assms(2) by (auto simp: untouched_def)
  then obtain w where w: "active s w" using creach_inv [OF assms(1)] by (auto simp: child_inv_def)
  then have "entered (starters s w)" "\<not> left (starters s w)" using assms(2) by (simp_all add: active_def)
  with w starter_unique [OF assms(1)] show ?thesis by metis
qed

lemma not_left_rank: "entered pc \<Longrightarrow> \<not> left pc \<Longrightarrow> start_rank pc \<noteq> 0"
  by (cases pc) simp_all

lemma measure_same:
  assumes "stoppers s' j = stoppers s j" and "startDone (child s') = startDone (child s)" and "starters s' = starters s"
  shows "stop_measure j s' = stop_measure j s \<and> stop_helper j s' = stop_helper j s"
proof -
  have "blocked j s' = blocked j s" "starter s' = starter s" using assms by (simp_all add: blocked_def starter_def)
  with assms show ?thesis by (simp add: stop_measure_def stop_helper_def)
qed

lemma stop_move_frame:
  "stop_move pc b k s = Some s' \<Longrightarrow> startDone (child s') = startDone (child s) \<and> starters s' = starters s \<and>
     stoppers s' = (stoppers s)(k := stoppers s' k)"
  by (elim stop_moveE) (auto simp: stop_enter_def stop_reread_def split: option.splits if_splits)

lemma stop_move_height:
  "stop_move (stoppers s j) b j s = Some s' \<Longrightarrow> stop_height (stoppers s' j) < stop_height (stoppers s j)"
  by (cases "stoppers s j") (auto split: option.splits if_splits)

lemma mon_move_frame:
  "mon_move pc i s = Some s' \<Longrightarrow> startDone (child s') = startDone (child s) \<and> starters s' = starters s \<and> stoppers s' = stoppers s"
  by (elim mon_moveE) (auto simp: monitor_exit_def Let_def split: option.splits if_splits)

lemma start_step:
  assumes c: "creach cfg f s" "stoppers s j \<noteq> PIdle" and m: "start_move (starters s i) b i s = Some s'"
  shows "stop_measure j s' < stop_measure j s \<or>
     stop_measure j s' = stop_measure j s \<and> stop_helper j s' = stop_helper j s \<and> (blocked j s \<longrightarrow> i \<noteq> starter s)"
proof -
  have c': "creach cfg f s'" using m by (intro creach.step [OF c(1), of "AStart i b"]) simp
  have new: "status (child s) \<noteq> StatusNew"
    using creach_stop_rule [OF c(1)] c(2) by (auto simp: stop_rule_def final_def)
  have st: "stoppers s' = stoppers s" and d: "startDone (child s') = startDone (child s) \<or>
      startDone (child s) = Some False \<and> startDone (child s') = Some True"
    using start_move_startDone [OF m] new by blast+
  note r = start_move_rank [OF m creach_no_panic [OF c']]
  show ?thesis
  proof (cases "blocked j s")
    case False
    then have "\<not> blocked j s'" using d st by (auto simp: blocked_def)
    with False st show ?thesis by (simp add: stop_measure_def stop_helper_def)
  next
    case True
    then have a: "active s (starter s)" "\<not> left (starters s (starter s))"
      using blocked_active [OF c(1)] by (simp_all add: blocked_def)
    then have pos: "start_rank (starters s (starter s)) \<noteq> 0" by (intro not_left_rank) (simp_all add: active_def)
    show ?thesis
    proof (cases "blocked j s'")
      case False
      with True pos st show ?thesis by (simp add: stop_measure_def)
    next
      case b': True
      have e: "entered (starters s (starter s))" using a(1) by (simp add: active_def)
      have "entered (starters s' (starter s))" using r e by (metis fun_upd_apply)
      then have same: "starter s' = starter s" by (rule starter_unique [OF c'])
      show ?thesis
      proof (cases "i = starter s")
        case True
        then have "start_rank (starters s' (starter s)) < start_rank (starters s (starter s))" using r by simp
        with b' \<open>blocked j s\<close> st show ?thesis by (simp add: stop_measure_def same)
      next
        case False
        then have "starters s' (starter s) = starters s (starter s)" using r by (metis fun_upd_apply)
        with False b' \<open>blocked j s\<close> st show ?thesis by (simp add: stop_measure_def stop_helper_def same)
      qed
    qed
  qed
qed

lemma stop_step:
  assumes m: "stop_move (stoppers s j) b j s = Some s'" and e: "creach cfg f s'"
  shows "stop_measure j s' < stop_measure j s"
proof -
  have "start_rank (starters s' (starter s')) \<le> 9" if "blocked j s'"
  proof -
    have "active s' (starter s')" using blocked_active [OF e] that by (simp add: blocked_def)
    then show ?thesis by (intro start_rank_le) (simp add: active_def)
  qed
  with stop_move_height [OF m] show ?thesis by (auto simp: stop_measure_def)
qed

lemma stop_other:
  assumes c: "creach cfg f s" "stoppers s j \<noteq> PIdle" and h: "child_step x s = Some s'" and n: "\<not> child_thread (Inr j) s x"
  shows "stop_measure j s' < stop_measure j s \<or>
     stop_measure j s' = stop_measure j s \<and> stop_helper j s' = stop_helper j s \<and>
       (blocked j s \<longrightarrow> \<not> child_thread (Inl (starter s)) s x)"
proof (cases x)
  case (AStart i b)
  with start_step [OF c, of i b s'] h show ?thesis by auto
next
  case (AStop k b)
  then have k: "k \<noteq> j" using n c(2) by auto
  have "stop_move (stoppers s k) b k s = Some s'" using h AStop by simp
  note f = stop_move_frame [OF this]
  then have "stoppers s' j = stoppers s j" using k by (metis fun_upd_apply)
  with f measure_same [of s' j s] AStop show ?thesis by simp
next
  case (AMon i)
  with h mon_move_frame [of "monitors s i" i s s'] measure_same [of s' j s] show ?thesis by simp
qed (use h measure_same [of s' j s] in \<open>auto split: if_splits\<close>)

lemma stop_move_begun: "stop_move pc b k s = Some s' \<Longrightarrow> stoppers s' k \<noteq> PIdle"
  by (elim stop_moveE) (auto split: option.splits if_splits)

lemma stop_begun:
  assumes h: "child_step x s = Some s'" and n: "stoppers s j \<noteq> PIdle"
  shows "stoppers s' j \<noteq> PIdle"
proof (cases x)
  case (AStop k b)
  then have m: "stop_move (stoppers s k) b k s = Some s'" using h by simp
  show ?thesis
  proof (cases "k = j")
    case True
    with stop_move_begun [OF m] show ?thesis by simp
  next
    case False
    with stop_move_frame [OF m] n show ?thesis by (metis fun_upd_apply)
  qed
next
  case (AStart k b)
  with h n start_move_startDone(1) [of "starters s k" b k s s'] show ?thesis by simp
next
  case (AMon k)
  with h n mon_move_frame [of "monitors s k" k s s'] show ?thesis by simp
qed (use h n in \<open>auto split: if_splits\<close>)

lemma stop_ready:
  assumes c: "creach cfg f k" and "\<not> blocked t k" and "stoppers k t \<noteq> PDone"
  shows "stop_move (stoppers k t) False t k \<noteq> None"
proof -
  have "waits_for (stoppers k t) (startDone (child k))" using creach_wait_rule [OF c] by (simp add: wait_rule_def)
  then show ?thesis
    using assms(2,3) by (cases "stoppers k t"; cases "startDone (child k)") (auto simp: blocked_def split: option.splits)
qed

section \<open>Stop returns on every fair run\<close>

interpretation stopping: response child_step child_thread "stop_inv j" "stop_over j" "stop_measure j" "stop_helper j" for j
proof
  fix s s' x
  assume i: "stop_inv j s" and h: "child_step x s = Some s'"
  then obtain cfg f where c: "creach cfg f s" and n: "stoppers s j \<noteq> PIdle" by (auto simp: stop_inv_def)
  have c': "creach cfg f s'" by (rule creach.step [OF c h])
  have own: "stop_move (stoppers s j) b j s = Some s'" if "x = AStop j b" for b using h that by simp
  have "stoppers s' j \<noteq> PIdle" by (rule stop_begun [OF h n])
  with c' show "stop_inv j s'" by (auto simp: stop_inv_def)
  show "stop_over j s' \<or> stop_measure j s' < stop_measure j s \<or>
      stop_measure j s' = stop_measure j s \<and> stop_helper j s' = stop_helper j s"
  proof (cases "child_thread (Inr j) s x")
    case True
    then obtain b where "x = AStop j b" by (cases x) auto
    with stop_step [OF own c'] show ?thesis by blast
  next
    case False
    with stop_other [OF c n h] show ?thesis by blast
  qed
  assume t: "child_thread (stop_helper j s) s x"
  show "stop_over j s' \<or> stop_measure j s' < stop_measure j s"
  proof (cases "child_thread (Inr j) s x")
    case True
    then obtain b where "x = AStop j b" by (cases x) auto
    with stop_step [OF own c'] show ?thesis by blast
  next
    case False
    then have "blocked j s" "child_thread (Inl (starter s)) s x" using t by (simp_all add: stop_helper_def split: if_splits)
    with stop_other [OF c n h False] show ?thesis by blast
  qed
next
  fix s
  assume i: "stop_inv j s" and g: "\<not> stop_over j s"
  then obtain cfg f where c: "creach cfg f s" by (auto simp: stop_inv_def)
  show "enabled child_step (child_thread (stop_helper j s)) s"
  proof (cases "blocked j s")
    case True
    with blocked_active [OF c] have a: "active s (starter s)" "\<not> left (starters s (starter s))" by (simp_all add: blocked_def)
    then have e: "entered (starters s (starter s))" by (simp add: active_def)
    obtain b s' where "start_move (starters s (starter s)) b (starter s) s = Some s'"
      using start_move_enabled [OF e not_left_rank [OF e a(2)]] by blast
    with True show ?thesis
      using e unfolding enabled_def stop_helper_def by (intro exI [of _ "AStart (starter s) b"]) auto
  next
    case False
    have "stop_move (stoppers s j) False j s \<noteq> None" using stop_ready [OF c False] g by (simp add: stop_over_def)
    with False show ?thesis
      using i unfolding enabled_def stop_helper_def by (intro exI [of _ "AStop j False"]) (simp add: stop_inv_def)
  qed
qed

text \<open>C17. \<open>Stop\<close> returns on every fair run: if every call of \<open>Start\<close> and \<open>Stop\<close> that has begun, and
  could move from some point on, does move again (for a connecting \<open>Start\<close>, that the SDK
  answers), then a call of \<open>Stop\<close> that has begun returns, whatever the other calls, the
  monitors and the processes do, and whether it has to wait for a \<open>Start\<close> or not.\<close>

theorem child_stop_inevitable:
  assumes "creach cfg f (p 0)" and "stoppers (p 0) j \<noteq> PIdle"
    and "runs child_step p a" and "\<And>t. fair child_step (child_thread t) p a"
  shows "\<exists>n. stoppers (p n) j = PDone"
proof -
  have "stop_inv j (p 0)" using assms(1,2) by (auto simp: stop_inv_def)
  from stopping.inevitable [OF assms(3,4) this, of 0] show ?thesis by (auto simp: stop_over_def)
qed

text \<open>A \<open>Stop\<close> that waits for a \<open>Start\<close>, and the rest of the run.\<close>

definition waiting_acts :: "action list" where
  "waiting_acts =
     [AStart 0 (ListFailed ''gone''), AStart 0 Go, AStart 0 Go, AStart 0 Go, AStart 0 Go,
      AStop 3 False, AStop 3 False]"

lemma child_stop_inevitable_witness:
  "\<exists>n. stoppers (run_states child_step waiting_acts (after race_acts) n) 3 = PDone \<and> stoppers (after race_acts) 3 \<noteq> PDone"
proof -
  let ?p = "run_states child_step waiting_acts (after race_acts)"
  have "run_ok child_step waiting_acts (after race_acts)" by (simp add: run_simps waiting_acts_def)
  then have r: "runs child_step ?p (run_actions waiting_acts)" by (rule run_ok_runs)
  have "child_step x (?p (length waiting_acts)) = None" if "child_thread t (?p (length waiting_acts)) x" for t x
    using that by (cases "(t, ?p (length waiting_acts), x)" rule: child_thread.cases)
      (auto simp: run_simps waiting_acts_def split: if_splits)
  then have "\<not> enabled child_step (child_thread t) (?p (length waiting_acts))" for t by (auto simp: enabled_def)
  then have f: "fair child_step (child_thread t) ?p (run_actions waiting_acts)" for t by (rule finite_fair)
  have n: "stoppers (?p 0) 3 \<noteq> PIdle" "stoppers (after race_acts) 3 \<noteq> PDone" by (simp_all add: run_simps)
  have c: "creach sample_cfg True (?p 0)" using after_reach [OF runs_exist(4)] by simp
  show ?thesis using child_stop_inevitable [OF c n(1) r f] n(2) by blast
qed

end
