(* ===== verification/ProxyFair.thy ===== *)
theory ProxyFair
  imports ProxyRaces ChildFair "HOL-Library.Product_Lexorder"
begin

text \<open>
  Every call of the proxy returns on every fair run: of the handlers, of the servers' tools and
  of \<open>Shutdown\<close> (\<open>proxy.go\<close>), whatever the other calls, the children and the clients do.
\<close>

section \<open>Threads and the lock\<close>




section \<open>What is left to do\<close>










section \<open>One step of a child\<close>






section \<open>One step of the proxy\<close>





section \<open>The Start that a Stop waits for\<close>



section \<open>The moves of the call itself\<close>



section \<open>The moves of everybody else\<close>







section \<open>Who can move\<close>





section \<open>Every call returns on every fair run\<close>









section \<open>A finite run\<close>










end
