(* ===== verification/ExecProto.thy ===== *)
theory ExecProto
  imports Prelude "HOL-Library.Word"
begin

text \<open>
  The messages of \<open>grpc_exec/grpc_exec.proto\<close> that the client and the server exchange, as
  the generated Go types show them to the code: a \<open>oneof\<close> that is not set is a constructor
  of its own, an absent message field is \<^term>\<open>None\<close>, durations are nanoseconds.
\<close>

record StartCommandRequest =
  req_CommandLine :: gostring
  req_WorkingDir :: gostring

record TerminateCommand =
  term_Force :: bool
  term_GracePeriod :: "int option"

datatype ClientEvent =
    ClientEvent_Start StartCommandRequest
  | ClientEvent_Terminate TerminateCommand
  | ClientEvent_Unset

record ExitInfo =
  exit_ExitCode :: "32 word"
  exit_ErrorMessage :: gostring

datatype ServerEvent =
    ServerEvent_Started gostring
  | ServerEvent_Output gostring
  | ServerEvent_Exited ExitInfo
  | ServerEvent_Unset

text \<open>What \<open>stream.Recv\<close> answers on the client: \<open>io.EOF\<close>, another error, an event.\<close>

datatype 'e recv = RecvEOF | RecvErr gostring | RecvEvent 'e

fun is_exited :: "ServerEvent \<Rightarrow> bool" where
  "is_exited (ServerEvent_Exited x) = True"
| "is_exited _ = False"

fun event_output :: "ServerEvent \<Rightarrow> gostring" where
  "event_output (ServerEvent_Output b) = b"
| "event_output _ = []"

text \<open>All output of a sequence of events.\<close>

definition outputs :: "ServerEvent list \<Rightarrow> gostring" where
  "outputs evs = concat (map event_output evs)"

lemma outputs_simps [simp]:
  "outputs [] = []" "outputs (e # es) = event_output e @ outputs es"
  "outputs (es @ fs) = outputs es @ outputs fs"
  by (simp_all add: outputs_def)

end
