(* ===== verification/ExecServer.thy ===== *)
theory ExecServer
  imports ExecProto
begin

text \<open>
  The exec server, \<open>grpc_exec/server/server.go\<close>: one \<open>RunCommand\<close> call as five kinds of
  threads (the handler, the goroutine that waits for the command, the one that receives client
  events, the one that watches for a disconnect, and the grace-period timers), each a program
  counter that moves from one call or channel operation to the next. gRPC and the operating
  system answer through \<open>exec_answer\<close> and the environment's actions.
\<close>

section \<open>Data\<close>

text \<open>What \<open>cmd.Wait\<close> returns: nil, an \<open>*exec.ExitError\<close> with its \<open>ExitCode\<close>, or another
  error with its text.\<close>

datatype wait_result = WaitOk | WaitExit int | WaitFailed gostring

datatype rpc_error = InvalidArgument gostring | StreamError gostring

datatype signal = SigTerm | SigKill

record sh_cmd =
  sh_Args :: "gostring list"
  sh_Setpgid :: bool
  sh_Dir :: "gostring option"

definition build_sh :: "StartCommandRequest \<Rightarrow> sh_cmd" where
  "build_sh req =
     \<lparr>sh_Args = [''sh'', ''-c'', req_CommandLine req], sh_Setpgid = True,
      sh_Dir = (if req_WorkingDir req \<noteq> [] then Some (req_WorkingDir req) else None)\<rparr>"

text \<open>\<open>randomID\<close>: the bytes of the random source in lower-case hexadecimal.\<close>

definition randomID :: "8 word list \<Rightarrow> gostring" where
  "randomID bs = concat (map (\<lambda>b. [hex_digit (unat b div 16), hex_digit (unat b mod 16)]) bs)"

text \<open>The exit information of a finished command; \<open>int32\<close> truncates.\<close>

definition exit_info :: "wait_result \<Rightarrow> ExitInfo" where
  "exit_info wr =
     (case wr of
        WaitOk \<Rightarrow> \<lparr>exit_ExitCode = 0, exit_ErrorMessage = []\<rparr>
      | WaitExit c \<Rightarrow> \<lparr>exit_ExitCode = word_of_int c, exit_ErrorMessage = []\<rparr>
      | WaitFailed msg \<Rightarrow> \<lparr>exit_ExitCode = - 1, exit_ErrorMessage = msg\<rparr>)"

definition error_info :: "gostring \<Rightarrow> ExitInfo" where
  "error_info msg = \<lparr>exit_ExitCode = - 1, exit_ErrorMessage = msg\<rparr>"

text \<open>What a \<open>TerminateCommand\<close> asks for: the signal to send now, and whether to start a
  timer that kills after the grace period.\<close>

definition on_terminate :: "TerminateCommand \<Rightarrow> signal \<times> bool" where
  "on_terminate t =
     (if \<not> term_Force t then (SigTerm, False)
      else (case term_GracePeriod t of
              Some gp \<Rightarrow> if gp > 0 then (SigTerm, True) else (SigKill, False)
            | None \<Rightarrow> (SigKill, False)))"

section \<open>Program counters and state\<close>

text \<open>\<open>RSend b eof\<close> holds a chunk to send and whether the read also failed.\<close>

datatype main_pc =
    RFirst | RPipe StartCommandRequest | RStart StartCommandRequest | RError gostring
  | RStarted | RAbort rpc_error | RReap rpc_error | RSpawn
  | RRead | RSend gostring bool | RKill rpc_error | RDrain rpc_error
  | RResult | RCheck ExitInfo | RExit ExitInfo | RDone "rpc_error option"

datatype wait_pc = WIdle | WWait | WClose wait_result | WKill wait_result | WDeadline wait_result | WSend wait_result | WDone

datatype recv_pc =
    LIdle | LRecv | LBroken | LBrokenKill | LTerm TerminateCommand | LSignal TerminateCommand
  | LBad | LProto | LDone

datatype ctx_pc = CIdle | CSelect | CDone

text \<open>The direct child: not started, running, exited but not waited for, waited for.\<close>

datatype proc = NoProc | Alive | Zombie wait_result | Reaped wait_result

datatype deadline = NoDeadline | Armed | Passed

record exec_sys =
  main :: main_pc
  waiter :: wait_pc
  listener :: recv_pc
  watcher :: ctx_pc
  timers :: nat
  proc :: proc
  procDone :: bool
  waitCh :: "wait_result option"
  protoErr :: bool
  deadline :: deadline
  pipe :: gostring
  writers :: bool
  wrote :: gostring
  signals :: "signal list"
  ctxDone :: bool
  sent :: "ServerEvent list"
  cmd :: "sh_cmd option"

definition init_exec :: exec_sys where
  "init_exec =
     \<lparr>main = RFirst, waiter = WIdle, listener = LIdle, watcher = CIdle, timers = 0,
      proc = NoProc, procDone = False, waitCh = None, protoErr = False,
      deadline = NoDeadline, pipe = [], writers = False, wrote = [], signals = [],
      ctxDone = False, sent = [], cmd = None\<rparr>"

definition raise :: "signal \<Rightarrow> exec_sys \<Rightarrow> exec_sys" where
  [simp]: "raise g s = s\<lparr>signals := signals s @ [g]\<rparr>"

section \<open>The handler\<close>

text \<open>What a move is told: that a call succeeded, failed with a text, what \<open>Recv\<close> returned,
  the random bytes, or how many bytes a read returned.\<close>

datatype exec_answer =
    Ok | Fail gostring | GotEOF | GotEvent ClientEvent | Random "8 word list" | Bytes nat

definition empty_stream :: gostring where
  "empty_stream = ''empty stream: first message must be StartCommandRequest''"

definition not_start :: gostring where
  "not_start = ''first message must be StartCommandRequest''"

definition only_terminate :: gostring where
  "only_terminate = ''only TerminateCommand is valid after StartCommandRequest''"

text \<open>\<open>stream.Send\<close>: on success the event is on the stream.\<close>

definition send_event :: "ServerEvent \<Rightarrow> exec_sys \<Rightarrow> exec_sys" where
  [simp]: "send_event ev s = s\<lparr>sent := sent s @ [ev]\<rparr>"

text \<open>
  \<open>pr.Read\<close> with a buffer of 4096 bytes: it fails once the deadline has passed, whatever the
  pipe holds; it returns some of the bytes the pipe holds; at the end of the file, an empty
  pipe that nobody can write, it fails with \<open>io.EOF\<close>; otherwise it blocks.
\<close>

definition pipe_read :: "nat \<Rightarrow> exec_sys \<Rightarrow> (gostring \<times> bool \<times> exec_sys) option" where
  "pipe_read n s =
     (if deadline s = Passed then Some ([], True, s)
      else if pipe s \<noteq> []
        then (if 0 < n \<and> n \<le> 4096 \<and> n \<le> length (pipe s)
              then Some (take n (pipe s), False, s\<lparr>pipe := drop n (pipe s)\<rparr>) else None)
      else if \<not> writers s then Some ([], True, s)
      else None)"

text \<open>The end: the check for a protocol violation, and the exit event.\<close>

definition check_proto :: "ExitInfo \<Rightarrow> exec_sys \<Rightarrow> exec_sys" where
  [simp]: "check_proto info s =
     (if protoErr s
      then s\<lparr>main := RDone (Some (InvalidArgument only_terminate)), protoErr := False\<rparr>
      else s\<lparr>main := RExit info\<rparr>)"

definition send_exit :: "ExitInfo \<Rightarrow> exec_answer \<Rightarrow> exec_sys \<Rightarrow> exec_sys option" where
  [simp]: "send_exit info a s =
     (case a of
        Ok \<Rightarrow> Some (send_event (ServerEvent_Exited info) (s\<lparr>main := RDone None\<rparr>))
      | Fail err \<Rightarrow> Some (s\<lparr>main := RDone (Some (StreamError err))\<rparr>)
      | _ \<Rightarrow> None)"

fun main_move :: "main_pc \<Rightarrow> exec_answer \<Rightarrow> exec_sys \<Rightarrow> exec_sys option" where
  "main_move RFirst a s =
     (case a of
        GotEOF \<Rightarrow> Some (s\<lparr>main := RDone (Some (InvalidArgument empty_stream))\<rparr>)
      | Fail err \<Rightarrow> Some (s\<lparr>main := RDone (Some (StreamError err))\<rparr>)
      | GotEvent ev \<Rightarrow>
          (case ev of
             ClientEvent_Start req \<Rightarrow> Some (s\<lparr>main := RPipe req\<rparr>)
           | ClientEvent_Terminate t \<Rightarrow> Some (s\<lparr>main := RDone (Some (InvalidArgument not_start))\<rparr>)
           | ClientEvent_Unset \<Rightarrow> Some (s\<lparr>main := RDone (Some (InvalidArgument not_start))\<rparr>))
      | _ \<Rightarrow> None)"
| "main_move (RPipe req) a s =
     (case a of
        Ok \<Rightarrow> Some (s\<lparr>main := RStart req\<rparr>)
      | Fail err \<Rightarrow> Some (s\<lparr>main := RError (''pipe: '' @ err)\<rparr>)
      | _ \<Rightarrow> None)"
| "main_move (RStart req) a s =
     (case a of
        Ok \<Rightarrow> Some (s\<lparr>main := RStarted, cmd := Some (build_sh req), proc := Alive, writers := True\<rparr>)
      | Fail err \<Rightarrow> Some (s\<lparr>main := RError (''start: '' @ err)\<rparr>)
      | _ \<Rightarrow> None)"
| "main_move (RError msg) a s =
     (case a of
        Ok \<Rightarrow> Some (send_event (ServerEvent_Exited (error_info msg)) (s\<lparr>main := RDone None\<rparr>))
      | Fail err \<Rightarrow> Some (s\<lparr>main := RDone (Some (StreamError err))\<rparr>)
      | _ \<Rightarrow> None)"
| "main_move RStarted a s =
     (case a of
        Random bs \<Rightarrow> Some (send_event (ServerEvent_Started (randomID bs)) (s\<lparr>main := RSpawn\<rparr>))
      | Fail err \<Rightarrow> Some (s\<lparr>main := RAbort (StreamError err)\<rparr>)
      | _ \<Rightarrow> None)"
| "main_move (RAbort err) a s = Some (raise SigKill (s\<lparr>main := RReap err\<rparr>))"
| "main_move (RReap err) a s =
     (case proc s of
        Zombie wr \<Rightarrow> Some (s\<lparr>main := RDone (Some err), proc := Reaped wr\<rparr>)
      | _ \<Rightarrow> None)"
| "main_move RSpawn a s =
     Some (s\<lparr>main := RRead, waiter := WWait, listener := LRecv, watcher := CSelect\<rparr>)"
| "main_move RRead a s =
     (case a of
        Bytes n \<Rightarrow>
          (case pipe_read n s of
             None \<Rightarrow> None
           | Some (b, failed, s1) \<Rightarrow>
               if length b > 0 then Some (s1\<lparr>main := RSend b failed\<rparr>)
               else if failed then Some (s1\<lparr>main := RResult\<rparr>)
               else Some (s1\<lparr>main := RRead\<rparr>))
      | _ \<Rightarrow> None)"
| "main_move (RSend b failed) a s =
     (case a of
        Ok \<Rightarrow> Some (send_event (ServerEvent_Output b)
                 (s\<lparr>main := (if failed then RResult else RRead)\<rparr>))
      | Fail err \<Rightarrow> Some (s\<lparr>main := RKill (StreamError err)\<rparr>)
      | _ \<Rightarrow> None)"
| "main_move (RKill err) a s = Some (raise SigKill (s\<lparr>main := RDrain err\<rparr>))"
| "main_move (RDrain err) a s =
     (case waitCh s of
        None \<Rightarrow> None
      | Some wr \<Rightarrow> Some (s\<lparr>main := RDone (Some err), waitCh := None\<rparr>))"
| "main_move RResult a s =
     (case waitCh s of
        None \<Rightarrow> None
      | Some wr \<Rightarrow> Some (s\<lparr>main := RCheck (exit_info wr), waitCh := None\<rparr>))"
| "main_move (RCheck info) a s = Some (check_proto info s)"
| "main_move (RExit info) a s = send_exit info a s"
| "main_move (RDone r) a s = None"

fun_cases main_moveE: "main_move pc a s = Some s'"

section \<open>The goroutines\<close>

fun wait_move :: "wait_pc \<Rightarrow> exec_sys \<Rightarrow> exec_sys option" where
  "wait_move WIdle s = None"
| "wait_move WWait s =
     (case proc s of
        Zombie wr \<Rightarrow> Some (s\<lparr>waiter := WClose wr, proc := Reaped wr\<rparr>)
      | _ \<Rightarrow> None)"
| "wait_move (WClose wr) s = Some (s\<lparr>waiter := WKill wr, procDone := True\<rparr>)"
| "wait_move (WKill wr) s = Some (raise SigKill (s\<lparr>waiter := WDeadline wr\<rparr>))"
| "wait_move (WDeadline wr) s = Some (s\<lparr>waiter := WSend wr, deadline := Armed\<rparr>)"
| "wait_move (WSend wr) s =
     (if waitCh s = None then Some (s\<lparr>waiter := WDone, waitCh := Some wr\<rparr>) else None)"
| "wait_move WDone s = None"

fun_cases wait_moveE: "wait_move pc s = Some s'"

text \<open>The receive loop; a check of \<open>procDone\<close> and the signal that follows it are two moves.\<close>

fun recv_move :: "recv_pc \<Rightarrow> exec_answer \<Rightarrow> exec_sys \<Rightarrow> exec_sys option" where
  "recv_move LIdle a s = None"
| "recv_move LRecv a s =
     (case a of
        GotEOF \<Rightarrow> Some (s\<lparr>listener := LDone\<rparr>)
      | Fail err \<Rightarrow> Some (s\<lparr>listener := LBroken\<rparr>)
      | GotEvent ev \<Rightarrow>
          (case ev of
             ClientEvent_Terminate t \<Rightarrow> Some (s\<lparr>listener := LTerm t\<rparr>)
           | ClientEvent_Start req \<Rightarrow> Some (s\<lparr>listener := LBad\<rparr>)
           | ClientEvent_Unset \<Rightarrow> Some (s\<lparr>listener := LBad\<rparr>))
      | _ \<Rightarrow> None)"
| "recv_move LBroken a s =
     Some (s\<lparr>listener := (if procDone s then LDone else LBrokenKill)\<rparr>)"
| "recv_move LBrokenKill a s = Some (raise SigKill (s\<lparr>listener := LDone\<rparr>))"
| "recv_move (LTerm t) a s =
     Some (s\<lparr>listener := (if procDone s then LRecv else LSignal t)\<rparr>)"
| "recv_move (LSignal t) a s =
     (let (g, timer) = on_terminate t
      in Some (raise g (s\<lparr>listener := LRecv, timers := (if timer then Suc (timers s) else timers s)\<rparr>)))"
| "recv_move LBad a s = Some (raise SigKill (s\<lparr>listener := LProto\<rparr>))"
| "recv_move LProto a s =
     (if protoErr s then None else Some (s\<lparr>listener := LDone, protoErr := True\<rparr>))"
| "recv_move LDone a s = None"

fun_cases recv_moveE: "recv_move pc a s = Some s'"

text \<open>The two \<open>select\<close> statements on \<open>procDone\<close>: \<open>fire\<close> says which ready case is taken.\<close>

fun ctx_move :: "ctx_pc \<Rightarrow> bool \<Rightarrow> exec_sys \<Rightarrow> exec_sys option" where
  "ctx_move CIdle fire s = None"
| "ctx_move CSelect fire s =
     (if fire
      then (if ctxDone s then Some (raise SigKill (s\<lparr>watcher := CDone\<rparr>)) else None)
      else (if procDone s then Some (s\<lparr>watcher := CDone\<rparr>) else None))"
| "ctx_move CDone fire s = None"

fun_cases ctx_moveE: "ctx_move pc fire s = Some s'"

fun timer_move :: "bool \<Rightarrow> exec_sys \<Rightarrow> exec_sys option" where
  "timer_move fire s =
     (case timers s of
        0 \<Rightarrow> None
      | Suc n \<Rightarrow>
          (if fire then Some (raise SigKill (s\<lparr>timers := n\<rparr>))
           else if procDone s then Some (s\<lparr>timers := n\<rparr>) else None))"

fun_cases timer_moveE: "timer_move fire s = Some s'"

section \<open>Schedules\<close>

text \<open>
  Besides the threads, the environment moves: somebody who holds the write end writes to the
  pipe, the last write end is closed, the command exits, the client disconnects, the deadline
  passes.
\<close>

datatype exec_action =
    AMain exec_answer | AWait | ARecv exec_answer | ACtx bool | ATimer bool
  | AWrite gostring | AClose | AExit wait_result | ADisconnect | ADeadline

fun exec_step :: "exec_action \<Rightarrow> exec_sys \<Rightarrow> exec_sys option" where
  "exec_step (AMain a) s = main_move (main s) a s"
| "exec_step AWait s = wait_move (waiter s) s"
| "exec_step (ARecv a) s = recv_move (listener s) a s"
| "exec_step (ACtx fire) s = ctx_move (watcher s) fire s"
| "exec_step (ATimer fire) s = timer_move fire s"
| "exec_step (AWrite b) s =
     (if writers s then Some (s\<lparr>pipe := pipe s @ b, wrote := wrote s @ b\<rparr>) else None)"
| "exec_step AClose s = (if writers s then Some (s\<lparr>writers := False\<rparr>) else None)"
| "exec_step (AExit wr) s = (if proc s = Alive then Some (s\<lparr>proc := Zombie wr\<rparr>) else None)"
| "exec_step ADisconnect s = Some (s\<lparr>ctxDone := True\<rparr>)"
| "exec_step ADeadline s = (if deadline s = Armed then Some (s\<lparr>deadline := Passed\<rparr>) else None)"

fun exec_run :: "exec_action list \<Rightarrow> exec_sys \<Rightarrow> exec_sys option" where
  "exec_run [] s = Some s"
| "exec_run (a # as) s = (case exec_step a s of None \<Rightarrow> None | Some s1 \<Rightarrow> exec_run as s1)"

inductive exec_reach :: "exec_sys \<Rightarrow> bool" where
  init: "exec_reach init_exec"
| step: "exec_reach s \<Longrightarrow> exec_step a s = Some s' \<Longrightarrow> exec_reach s'"

lemma exec_reach_run: "exec_reach s \<Longrightarrow> exec_run as s = Some s' \<Longrightarrow> exec_reach s'"
  by (induction as arbitrary: s) (auto split: option.splits intro: exec_reach.step)

lemma exec_run_append:
  "exec_run (as @ bs) s = (case exec_run as s of None \<Rightarrow> None | Some s1 \<Rightarrow> exec_run bs s1)"
  by (induction as arbitrary: s) (auto split: option.splits)

end
