(* ===== verification/ExecSafety.thy ===== *)
theory ExecSafety
  imports ExecServer
begin

text \<open>
  The invariant of a \<open>RunCommand\<close> call (\<open>server.go\<close>), in four parts, each kept by every
  move of every thread: where the wait result is, what has been sent, where the command's
  output is, and the buffer of the protocol error.
\<close>

section \<open>The parts\<close>

fun unstarted :: "main_pc \<Rightarrow> bool" where
  "unstarted RFirst = True" | "unstarted (RPipe _) = True" | "unstarted (RStart _) = True"
| "unstarted (RError _) = True" | "unstarted _ = False"

fun booting :: "main_pc \<Rightarrow> bool" where
  "booting RStarted = True" | "booting (RAbort _) = True" | "booting (RReap _) = True"
| "booting RSpawn = True" | "booting _ = False"

text \<open>The handler after it has taken the wait result.\<close>

fun took :: "wait_result \<Rightarrow> main_pc \<Rightarrow> bool" where
  "took wr (RCheck i) = (i = exit_info wr)" | "took wr (RExit i) = (i = exit_info wr)"
| "took wr (RDone _) = True" | "took wr _ = False"

fun running :: "main_pc \<Rightarrow> bool" where
  "running RRead = True" | "running (RSend _ _) = True" | "running (RKill _) = True"
| "running (RDrain _) = True" | "running RResult = True" | "running _ = False"

definition before_wait :: "exec_sys \<Rightarrow> bool" where
  "before_wait s \<longleftrightarrow> waitCh s = None \<and> \<not> procDone s \<and> deadline s = NoDeadline"

definition waiter_rule :: "exec_sys \<Rightarrow> bool" where
  "waiter_rule s \<longleftrightarrow>
     (case waiter s of
        WIdle \<Rightarrow> before_wait s \<and>
          (unstarted (main s) \<and> proc s = NoProc \<or>
           booting (main s) \<and> (\<forall>wr. proc s \<noteq> Reaped wr) \<and> proc s \<noteq> NoProc \<or>
           (\<exists>r. main s = RDone r))
      | WWait \<Rightarrow> before_wait s \<and> running (main s) \<and> (\<forall>wr. proc s \<noteq> Reaped wr) \<and> proc s \<noteq> NoProc
      | WClose wr \<Rightarrow> before_wait s \<and> running (main s) \<and> proc s = Reaped wr
      | WKill wr \<Rightarrow> waitCh s = None \<and> procDone s \<and> deadline s = NoDeadline \<and> running (main s) \<and> proc s = Reaped wr
      | WDeadline wr \<Rightarrow> waitCh s = None \<and> procDone s \<and> deadline s = NoDeadline \<and> running (main s) \<and> proc s = Reaped wr
      | WSend wr \<Rightarrow> waitCh s = None \<and> procDone s \<and> deadline s \<noteq> NoDeadline \<and> running (main s) \<and> proc s = Reaped wr
      | WDone \<Rightarrow> procDone s \<and> deadline s \<noteq> NoDeadline \<and>
          (\<exists>wr. proc s = Reaped wr \<and>
             (waitCh s = Some wr \<and> running (main s) \<or> waitCh s = None \<and> took wr (main s))))"

text \<open>The chunks of output sent are not empty and fit the buffer.\<close>

definition chunks :: "ServerEvent list \<Rightarrow> bool" where
  "chunks evs \<longleftrightarrow> (\<forall>ev \<in> set evs. \<exists>b. ev = ServerEvent_Output b \<and> b \<noteq> [] \<and> length b \<le> 4096)"

definition begun :: "ServerEvent list \<Rightarrow> bool" where
  "begun evs \<longleftrightarrow> (\<exists>id cs. evs = ServerEvent_Started id # cs \<and> chunks cs)"

definition sent_rule :: "exec_sys \<Rightarrow> bool" where
  "sent_rule s \<longleftrightarrow>
     (case main s of
        RDone None \<Rightarrow>
          (\<exists>msg. sent s = [ServerEvent_Exited (error_info msg)]) \<or>
          (\<exists>evs wr. begun evs \<and> proc s = Reaped wr \<and> sent s = evs @ [ServerEvent_Exited (exit_info wr)])
      | RDone (Some err) \<Rightarrow> sent s = [] \<or> begun (sent s)
      | RSend b failed \<Rightarrow> begun (sent s) \<and> b \<noteq> [] \<and> length b \<le> 4096 \<and> \<not> failed
      | pc \<Rightarrow> if unstarted pc \<or> (booting pc \<and> pc \<noteq> RSpawn) then sent s = [] else begun (sent s))"

text \<open>Bytes read from the pipe and not yet sent.\<close>

fun in_hand :: "main_pc \<Rightarrow> gostring" where
  "in_hand (RSend b _) = b"
| "in_hand _ = []"

fun faithful :: "main_pc \<Rightarrow> bool" where
  "faithful (RKill _) = False" | "faithful (RDrain _) = False" | "faithful (RDone (Some _)) = False"
| "faithful _ = True"

definition output_rule :: "exec_sys \<Rightarrow> bool" where
  "output_rule s \<longleftrightarrow>
     (unstarted (main s) \<longrightarrow> wrote s = [] \<and> pipe s = [] \<and> \<not> writers s) \<and>
     prefix (outputs (sent s)) (wrote s) \<and>
     (faithful (main s) \<longrightarrow> wrote s = outputs (sent s) @ in_hand (main s) @ pipe s)"

definition proto_rule :: "exec_sys \<Rightarrow> bool" where
  "proto_rule s \<longleftrightarrow> (protoErr s \<longrightarrow> listener s = LDone) \<and> (unstarted (main s) \<or> booting (main s) \<longrightarrow> listener s = LIdle)"

section \<open>Every move keeps them\<close>

lemma exec_step_cases:
  assumes "exec_step a s = Some s'"
  obtains (main) b where "main_move (main s) b s = Some s'"
  | (wait) "wait_move (waiter s) s = Some s'"
  | (recv) b where "recv_move (listener s) b s = Some s'"
  | (ctx) f where "ctx_move (watcher s) f s = Some s'"
  | (timer) f where "timer_move f s = Some s'"
  | (written) b where "writers s" "s' = s\<lparr>pipe := pipe s @ b, wrote := wrote s @ b\<rparr>"
  | (closed) "writers s" "s' = s\<lparr>writers := False\<rparr>"
  | (exited) wr where "proc s = Alive" "s' = s\<lparr>proc := Zombie wr\<rparr>"
  | (disc) "s' = s\<lparr>ctxDone := True\<rparr>"
  | (late) "deadline s = Armed" "s' = s\<lparr>deadline := Passed\<rparr>"
proof (cases a)
  case (AMain b)
  with assms show thesis by (intro main [of b]) simp
next
  case AWait
  with assms show thesis by (intro wait) simp
next
  case (ARecv b)
  with assms show thesis by (intro recv [of b]) simp
next
  case (ACtx f)
  with assms show thesis by (intro ctx [of f]) simp
next
  case (ATimer f)
  with assms show thesis by (intro timer [of f]) simp
next
  case (AWrite b)
  with assms show thesis by (intro written [of b]) (simp_all split: if_splits)
next
  case AClose
  with assms show thesis by (intro closed) (simp_all split: if_splits)
next
  case (AExit wr)
  with assms show thesis by (intro exited [of wr]) (simp_all split: if_splits)
next
  case ADisconnect
  with assms show thesis by (intro disc) simp
next
  case ADeadline
  with assms show thesis by (intro late) (simp_all split: if_splits)
qed

lemma pipe_read_cases:
  assumes "pipe_read n s = Some (b, failed, s1)"
  shows "b = [] \<and> failed \<and> s1 = s \<or>
    b \<noteq> [] \<and> length b \<le> 4096 \<and> \<not> failed \<and> s1 = s\<lparr>pipe := drop n (pipe s)\<rparr> \<and> pipe s = b @ drop n (pipe s)"
  using assms by (auto simp: pipe_read_def split: if_splits)

lemma main_wait_rule:
  "main_move (main s) a s = Some s' \<Longrightarrow> waiter_rule s \<Longrightarrow> waiter_rule s'"
  by (cases "main s"; cases "waiter s")
    (auto simp: waiter_rule_def before_wait_def split: exec_answer.splits ClientEvent.splits option.splits
      proc.splits if_splits prod.splits dest!: pipe_read_cases)

text \<open>The listener, the watcher and the timers leave the handler, the waiter, the child and the
  stream alone.\<close>

definition same_core :: "exec_sys \<Rightarrow> exec_sys \<Rightarrow> bool" where
  "same_core s s' \<longleftrightarrow>
     main s' = main s \<and> waiter s' = waiter s \<and> proc s' = proc s \<and> procDone s' = procDone s \<and>
     waitCh s' = waitCh s \<and> deadline s' = deadline s \<and> sent s' = sent s \<and>
     pipe s' = pipe s \<and> wrote s' = wrote s \<and> writers s' = writers s"

lemma recv_same_core: "recv_move pc b s = Some s' \<Longrightarrow> same_core s s'"
  by (cases pc) (auto simp: same_core_def split: exec_answer.splits ClientEvent.splits if_splits prod.splits)

lemma ctx_same_core: "ctx_move pc f s = Some s' \<Longrightarrow> same_core s s'"
  by (cases pc) (auto simp: same_core_def split: if_splits)

lemma timer_same_core: "timer_move f s = Some s' \<Longrightarrow> same_core s s'"
  by (cases "timers s") (auto simp: same_core_def split: if_splits)

lemma wait_move_frame:
  "wait_move pc s = Some s' \<Longrightarrow>
     main s' = main s \<and> sent s' = sent s \<and> pipe s' = pipe s \<and> wrote s' = wrote s \<and>
     writers s' = writers s \<and> listener s' = listener s \<and> protoErr s' = protoErr s \<and>
     (\<forall>wr. proc s = Reaped wr \<longrightarrow> proc s' = Reaped wr)"
  by (cases pc) (auto split: proc.splits if_splits)

lemma waiter_rule_frame:
  assumes "main s' = main s" "waiter s' = waiter s" "proc s' = proc s" "procDone s' = procDone s"
    "waitCh s' = waitCh s" "deadline s' = deadline s"
  shows "waiter_rule s' = waiter_rule s"
  using assms by (cases "waiter s") (simp_all add: waiter_rule_def before_wait_def)

lemma same_core_wait_rule: "same_core s s' \<Longrightarrow> waiter_rule s' = waiter_rule s"
  by (rule waiter_rule_frame) (simp_all add: same_core_def)

lemma wait_wait_rule: "wait_move (waiter s) s = Some s' \<Longrightarrow> waiter_rule s \<Longrightarrow> waiter_rule s'"
  by (cases "waiter s") (auto simp: waiter_rule_def before_wait_def split: proc.splits if_splits)

lemma exit_wait_rule: "proc s = Alive \<Longrightarrow> waiter_rule s \<Longrightarrow> waiter_rule (s\<lparr>proc := Zombie wr\<rparr>)"
  by (cases "waiter s") (simp_all add: waiter_rule_def before_wait_def)

lemma late_wait_rule: "deadline s = Armed \<Longrightarrow> waiter_rule s \<Longrightarrow> waiter_rule (s\<lparr>deadline := Passed\<rparr>)"
  by (cases "waiter s") (simp_all add: waiter_rule_def before_wait_def)

lemma step_wait_rule:
  assumes "exec_step a s = Some s'" and "waiter_rule s"
  shows "waiter_rule s'"
  using assms(1)
proof (cases rule: exec_step_cases)
  case (main b)
  then show ?thesis using assms(2) by (rule main_wait_rule)
next
  case wait
  then show ?thesis using assms(2) by (rule wait_wait_rule)
next
  case (recv b)
  with assms(2) show ?thesis using same_core_wait_rule [OF recv_same_core] by blast
next
  case (ctx f)
  with assms(2) show ?thesis using same_core_wait_rule [OF ctx_same_core] by blast
next
  case (timer f)
  with assms(2) show ?thesis using same_core_wait_rule [OF timer_same_core] by blast
next
  case (exited wr)
  with assms(2) show ?thesis by (simp add: exit_wait_rule)
next
  case late
  with assms(2) show ?thesis by (simp add: late_wait_rule)
qed (use assms(2) in \<open>subst waiter_rule_frame [of s' s]; simp\<close>)+

lemma took_reaped: "waiter_rule s \<Longrightarrow> main s = RExit i \<Longrightarrow> \<exists>wr. proc s = Reaped wr \<and> i = exit_info wr"
  by (cases "waiter s") (auto simp: waiter_rule_def)

lemma begun_snoc: "begun evs \<Longrightarrow> b \<noteq> [] \<Longrightarrow> length b \<le> 4096 \<Longrightarrow> begun (evs @ [ServerEvent_Output b])"
  by (auto simp: begun_def chunks_def)

lemma begun_single: "begun [ServerEvent_Started i]"
  by (simp add: begun_def chunks_def)

lemma main_sent_rule:
  assumes "main_move (main s) a s = Some s'" and "sent_rule s" and "waiter_rule s"
  shows "sent_rule s'"
proof (cases "main s")
  case (RExit i)
  with took_reaped [OF assms(3)] obtain wr where "proc s = Reaped wr" "i = exit_info wr" by blast
  with RExit assms(1,2) show ?thesis
    by (cases a) (auto simp: sent_rule_def)
next
  case RRead
  with assms(1,2) show ?thesis
    by (cases a) (auto simp: sent_rule_def split: option.splits prod.splits if_splits dest!: pipe_read_cases)
next
  case (RSend b e)
  with assms(1,2) show ?thesis
    by (cases a) (auto simp: sent_rule_def begun_snoc)
next
  case (RError msg)
  with assms(1,2) show ?thesis
    by (cases a) (auto simp: sent_rule_def)
next
  case (RDone r)
  with assms(1) show ?thesis by simp
qed (use assms(1,2) in \<open>auto simp: sent_rule_def begun_single split: exec_answer.splits ClientEvent.splits option.splits proc.splits if_splits\<close>)

lemma sent_rule_frame:
  assumes "sent_rule s" "main s' = main s" "sent s' = sent s" "\<forall>wr. proc s = Reaped wr \<longrightarrow> proc s' = Reaped wr"
  shows "sent_rule s'"
  using assms by (cases "main s"; simp add: sent_rule_def split: option.splits; metis)

lemma step_sent_rule:
  assumes "exec_step a s = Some s'" and "sent_rule s" and "waiter_rule s"
  shows "sent_rule s'"
  using assms(1)
proof (cases rule: exec_step_cases)
  case (main b)
  then show ?thesis using assms(2,3) by (rule main_sent_rule)
next
  case wait
  then show ?thesis using wait_move_frame [of "waiter s"] by (intro sent_rule_frame [OF assms(2)]) auto
next
  case (recv b)
  then show ?thesis using recv_same_core by (intro sent_rule_frame [OF assms(2)]) (auto simp: same_core_def)
next
  case (ctx f)
  then show ?thesis using ctx_same_core by (intro sent_rule_frame [OF assms(2)]) (auto simp: same_core_def)
next
  case (timer f)
  then show ?thesis using timer_same_core by (intro sent_rule_frame [OF assms(2)]) (auto simp: same_core_def)
qed (intro sent_rule_frame [OF assms(2)]; simp)+

lemma main_output_rule:
  assumes "main_move (main s) a s = Some s'" and "output_rule s" and "sent_rule s"
  shows "output_rule s'"
proof (cases "main s")
  case RRead
  with assms(1,2) show ?thesis
    by (cases a) (auto simp: output_rule_def split: option.splits prod.splits if_splits dest!: pipe_read_cases)
next
  case (RSend b e)
  with assms(1,2) show ?thesis
    by (cases a; cases e) (auto simp: output_rule_def)
qed (use assms in \<open>auto simp: output_rule_def sent_rule_def split: exec_answer.splits ClientEvent.splits option.splits proc.splits if_splits\<close>)

lemma output_rule_frame:
  "output_rule s \<Longrightarrow> main s' = main s \<Longrightarrow> sent s' = sent s \<Longrightarrow> pipe s' = pipe s \<Longrightarrow> wrote s' = wrote s \<Longrightarrow>
     (writers s' \<longrightarrow> writers s) \<Longrightarrow> output_rule s'"
  by (auto simp: output_rule_def)

lemma step_output_rule:
  assumes "exec_step a s = Some s'" and "output_rule s" and "sent_rule s"
  shows "output_rule s'"
  using assms(1)
proof (cases rule: exec_step_cases)
  case (main b)
  then show ?thesis using assms(2,3) by (rule main_output_rule)
next
  case wait
  then show ?thesis using wait_move_frame [of "waiter s"] by (intro output_rule_frame [OF assms(2)]) auto
next
  case (recv b)
  then show ?thesis using recv_same_core by (intro output_rule_frame [OF assms(2)]) (auto simp: same_core_def)
next
  case (ctx f)
  then show ?thesis using ctx_same_core by (intro output_rule_frame [OF assms(2)]) (auto simp: same_core_def)
next
  case (timer f)
  then show ?thesis using timer_same_core by (intro output_rule_frame [OF assms(2)]) (auto simp: same_core_def)
next
  case (written b)
  with assms(2) show ?thesis by (auto simp: output_rule_def prefix_def)
qed (intro output_rule_frame [OF assms(2)]; simp)+

section \<open>The end of the output, and the channels\<close>

text \<open>The handler after its read loop.\<close>

fun finished_reading :: "main_pc \<Rightarrow> bool" where
  "finished_reading RResult = True" | "finished_reading (RCheck _) = True"
| "finished_reading (RExit _) = True" | "finished_reading (RDone None) = True"
| "finished_reading _ = False"

definition eof_rule :: "exec_sys \<Rightarrow> bool" where
  "eof_rule s \<longleftrightarrow>
     (finished_reading (main s) \<longrightarrow> deadline s = Passed \<or> \<not> writers s \<and> pipe s = [])"

lemma main_eof_rule:
  assumes "main_move (main s) a s = Some s'" and "eof_rule s" and "output_rule s" and "sent_rule s"
  shows "eof_rule s'"
proof (cases "main s")
  case RRead
  with assms(1) show ?thesis
    by (cases a) (auto simp: eof_rule_def pipe_read_def split: option.splits prod.splits if_splits)
next
  case (RSend b e)
  with assms show ?thesis
    by (cases a) (auto simp: eof_rule_def sent_rule_def)
qed (use assms(1-3) in \<open>auto simp: eof_rule_def output_rule_def split: exec_answer.splits ClientEvent.splits option.splits proc.splits if_splits\<close>)

lemma main_proto_rule:
  "main_move (main s) a s = Some s' \<Longrightarrow> proto_rule s \<Longrightarrow> proto_rule s'"
  by (cases "main s")
    (auto simp: proto_rule_def split: exec_answer.splits ClientEvent.splits option.splits proc.splits if_splits
      prod.splits dest!: pipe_read_cases)

lemma recv_proto_rule:
  "recv_move (listener s) b s = Some s' \<Longrightarrow> proto_rule s \<Longrightarrow> proto_rule s'"
  by (cases "listener s")
    (auto simp: proto_rule_def split: exec_answer.splits ClientEvent.splits if_splits prod.splits)

lemma step_eof_rule:
  assumes "exec_step a s = Some s'" and "eof_rule s" and "output_rule s" and "sent_rule s" and "waiter_rule s"
  shows "eof_rule s'"
  using assms(1)
proof (cases rule: exec_step_cases)
  case (main b)
  then show ?thesis using assms(2-4) by (rule main_eof_rule)
next
  case wait
  have "deadline s = Passed \<longrightarrow> deadline s' = Passed"
    using wait assms(5) by (cases "waiter s") (auto simp: waiter_rule_def before_wait_def split: proc.splits if_splits)
  with assms(2) show ?thesis using wait_move_frame [OF wait] by (auto simp: eof_rule_def)
next
  case (recv b)
  with assms(2) show ?thesis using recv_same_core [OF recv] by (simp add: same_core_def eof_rule_def)
next
  case (ctx f)
  with assms(2) show ?thesis using ctx_same_core [OF ctx] by (simp add: same_core_def eof_rule_def)
next
  case (timer f)
  with assms(2) show ?thesis using timer_same_core [OF timer] by (simp add: same_core_def eof_rule_def)
qed (use assms(2) in \<open>auto simp: eof_rule_def\<close>)

lemma step_proto_rule:
  assumes "exec_step a s = Some s'" and "proto_rule s"
  shows "proto_rule s'"
  using assms(1)
proof (cases rule: exec_step_cases)
  case (main b)
  then show ?thesis using assms(2) by (rule main_proto_rule)
next
  case (recv b)
  then show ?thesis using assms(2) by (rule recv_proto_rule)
next
  case wait
  with assms(2) show ?thesis using wait_move_frame [OF wait] by (simp add: proto_rule_def)
next
  case (ctx f)
  then have "listener s' = listener s" "protoErr s' = protoErr s"
    by (cases "watcher s"; auto split: if_splits)+
  with assms(2) show ?thesis using ctx_same_core [OF ctx] by (simp add: same_core_def proto_rule_def)
next
  case (timer f)
  then have "listener s' = listener s" "protoErr s' = protoErr s"
    by (auto split: if_splits nat.splits)
  with assms(2) show ?thesis using timer_same_core [OF timer] by (simp add: same_core_def proto_rule_def)
qed (use assms(2) in \<open>simp_all add: proto_rule_def\<close>)

section \<open>The invariant of the reachable states\<close>

definition exec_inv :: "exec_sys \<Rightarrow> bool" where
  "exec_inv s \<longleftrightarrow> waiter_rule s \<and> sent_rule s \<and> output_rule s \<and> eof_rule s \<and> proto_rule s"

lemma exec_reach_inv: "exec_reach s \<Longrightarrow> exec_inv s"
proof (induction rule: exec_reach.induct)
  case init
  show ?case
    by (simp add: exec_inv_def waiter_rule_def before_wait_def sent_rule_def output_rule_def
        eof_rule_def proto_rule_def init_exec_def)
next
  case (step s a s')
  then show ?case
    unfolding exec_inv_def
    using step_wait_rule step_sent_rule step_output_rule step_eof_rule step_proto_rule by blast
qed

lemmas reach_rules = exec_reach_inv [unfolded exec_inv_def]

end
