(* ===== verification/ShellQuote.thy ===== *)
theory ShellQuote
  imports Prelude
begin

text \<open>
  The quoting of a command line in \<open>grpc_exec/cmd/grpc_exec/main.go\<close>: several arguments
  are quoted and joined, for \<open>sh -c\<close> on the server to split again. The shell is not part
  of the repository: what POSIX says of quoting is the locale \<open>posix_quoting\<close>, which is
  interpreted on \<open>sh_words\<close>, a lexer of the quoting rules.
\<close>

section \<open>The code\<close>

definition shellQuote :: "gostring \<Rightarrow> gostring" where
  "shellQuote s =
     (if s = [] then [CHR 0x27, CHR 0x27]
      else [CHR 0x27] @
        strings_ReplaceAll1 s (CHR 0x27) [CHR 0x27, CHR 0x22, CHR 0x27, CHR 0x22, CHR 0x27] @
        [CHR 0x27])"

definition shellJoin :: "gostring list \<Rightarrow> gostring" where
  "shellJoin args = strings_Join (map shellQuote args) '' ''"

section \<open>What POSIX promises\<close>

text \<open>
  \<open>denotes w v\<close>: the source text \<open>w\<close>, as a part of a word, stands for the literal text
  \<open>v\<close> after quote removal. \<open>words l\<close>: the fields of the simple command \<open>l\<close>. Single
  quotes preserve every character but the single quote, double quotes every character but
  four; quoted parts written side by side make one word; a blank ends it.
\<close>

locale posix_quoting =
  fixes denotes :: "gostring \<Rightarrow> gostring \<Rightarrow> bool"
    and words :: "gostring \<Rightarrow> gostring list option"
  assumes single: "CHR 0x27 \<notin> set v \<Longrightarrow> denotes ([CHR 0x27] @ v @ [CHR 0x27]) v"
    and double: "set v \<inter> {CHR 0x22, CHR ''$'', CHR 0x60, CHR 0x5C} = {} \<Longrightarrow>
                   denotes ([CHR 0x22] @ v @ [CHR 0x22]) v"
    and adjacent: "denotes w v \<Longrightarrow> denotes w' v' \<Longrightarrow> denotes (w @ w') (v @ v')"
    and fields: "list_all2 denotes ws vs \<Longrightarrow> words (strings_Join ws '' '') = Some vs"
begin

text \<open>The quoted argument is cut at its single quotes: each is a double-quoted part.\<close>

lemma quote_aux:
  "CHR 0x27 \<notin> set u \<Longrightarrow>
     denotes ([CHR 0x27] @ u @
       strings_ReplaceAll1 s (CHR 0x27) [CHR 0x27, CHR 0x22, CHR 0x27, CHR 0x22, CHR 0x27] @
       [CHR 0x27]) (u @ s)"
proof (induction s arbitrary: u)
  case Nil
  then show ?case using single [of u] by simp
next
  case (Cons c cs)
  show ?case
  proof (cases "c = CHR 0x27")
    case True
    have q: "denotes [CHR 0x22, CHR 0x27, CHR 0x22] [CHR 0x27]"
      using double [of "[CHR 0x27]"] by simp
    have r: "denotes ([CHR 0x27] @ [] @ strings_ReplaceAll1 cs (CHR 0x27)
        [CHR 0x27, CHR 0x22, CHR 0x27, CHR 0x22, CHR 0x27] @ [CHR 0x27]) ([] @ cs)"
      by (rule Cons.IH) simp
    show ?thesis
      using adjacent [OF single [OF Cons.prems] adjacent [OF q r]] True by simp
  next
    case False
    with Cons.IH [of "u @ [c]"] Cons.prems show ?thesis by simp
  qed
qed

lemma shellQuote_denotes: "denotes (shellQuote s) s"
  using quote_aux [of "[]" s] single [of "[]"] by (simp add: shellQuote_def)

lemma shellJoin_words: "words (shellJoin args) = Some args"
  unfolding shellJoin_def
  by (rule fields) (simp add: list_all2_map1 list_all2_same shellQuote_denotes)

end

section \<open>A lexer of the quoting rules\<close>

datatype quoting = Unquoted | Single | Double

definition blank :: "char \<Rightarrow> bool" where
  "blank c \<longleftrightarrow> c = CHR '' '' \<or> c = CHR 0x09"

text \<open>Characters with a meaning of their own outside quotes (or within double quotes) make
  the line more than a list of words: \<^term>\<open>None\<close>.\<close>

definition special :: "char \<Rightarrow> bool" where
  "special c \<longleftrightarrow> c \<in> set ''|&;<>()$*?[#~=%!{}'' \<union> {CHR 0x60, CHR 0x5C, CHR 0x0A}"

fun sh_lex :: "quoting \<Rightarrow> bool \<Rightarrow> gostring \<Rightarrow> gostring \<Rightarrow> gostring list option" where
  "sh_lex Unquoted inword w [] = Some (if inword then [w] else [])"
| "sh_lex Unquoted inword w (c # cs) =
     (if c = CHR 0x27 then sh_lex Single True w cs
      else if c = CHR 0x22 then sh_lex Double True w cs
      else if blank c
        then (if inword then map_option (Cons w) (sh_lex Unquoted False [] cs)
              else sh_lex Unquoted False [] cs)
      else if special c then None
      else sh_lex Unquoted True (w @ [c]) cs)"
| "sh_lex Single inword w [] = None"
| "sh_lex Single inword w (c # cs) =
     (if c = CHR 0x27 then sh_lex Unquoted True w cs else sh_lex Single True (w @ [c]) cs)"
| "sh_lex Double inword w [] = None"
| "sh_lex Double inword w (c # cs) =
     (if c = CHR 0x22 then sh_lex Unquoted True w cs
      else if c \<in> {CHR ''$'', CHR 0x60, CHR 0x5C} then None
      else sh_lex Double True (w @ [c]) cs)"

definition sh_words :: "gostring \<Rightarrow> gostring list option" where
  "sh_words = sh_lex Unquoted False []"

definition sh_denotes :: "gostring \<Rightarrow> gostring \<Rightarrow> bool" where
  "sh_denotes w v \<longleftrightarrow>
     (\<forall>inword acc rest. sh_lex Unquoted inword acc (w @ rest) = sh_lex Unquoted True (acc @ v) rest)"

lemma sh_lex_Single:
  "CHR 0x27 \<notin> set v \<Longrightarrow> sh_lex Single b acc (v @ CHR 0x27 # rest) = sh_lex Unquoted True (acc @ v) rest"
  by (induction v arbitrary: b acc) auto

lemma sh_lex_Double:
  "set v \<inter> {CHR 0x22, CHR ''$'', CHR 0x60, CHR 0x5C} = {} \<Longrightarrow>
     sh_lex Double b acc (v @ CHR 0x22 # rest) = sh_lex Unquoted True (acc @ v) rest"
  by (induction v arbitrary: b acc) auto

lemma sh_fields:
  "list_all2 sh_denotes ws vs \<Longrightarrow> sh_words (strings_Join ws '' '') = Some vs"
  unfolding sh_words_def
proof (induction ws vs rule: list_all2_induct)
  case Nil
  then show ?case by simp
next
  case (Cons w ws v vs)
  show ?case
  proof (cases ws)
    case Nil
    with Cons.hyps have "sh_lex Unquoted False [] (w @ []) = sh_lex Unquoted True ([] @ v) []"
      unfolding sh_denotes_def by blast
    with Nil Cons.hyps show ?thesis by (cases vs) simp_all
  next
    case (Cons x xs)
    have "sh_lex Unquoted False [] (w @ CHR '' '' # strings_Join ws '' '') =
        sh_lex Unquoted True ([] @ v) (CHR '' '' # strings_Join ws '' '')"
      using Cons.hyps(1) unfolding sh_denotes_def by blast
    with Cons Cons.IH show ?thesis by (simp add: blank_def)
  qed
qed

interpretation sh: posix_quoting sh_denotes sh_words
proof
  show "sh_denotes ([CHR 0x27] @ v @ [CHR 0x27]) v" if "CHR 0x27 \<notin> set v" for v
    using that by (simp add: sh_denotes_def sh_lex_Single)
  show "sh_denotes ([CHR 0x22] @ v @ [CHR 0x22]) v"
    if "set v \<inter> {CHR 0x22, CHR ''$'', CHR 0x60, CHR 0x5C} = {}" for v
    using that by (simp add: sh_denotes_def sh_lex_Double)
  show "sh_denotes (w @ w') (v @ v')" if "sh_denotes w v" "sh_denotes w' v'" for w v w' v'
    using that by (simp add: sh_denotes_def)
  show "sh_words (strings_Join ws '' '') = Some vs" if "list_all2 sh_denotes ws vs" for ws vs
    using that by (rule sh_fields)
qed

section \<open>Properties\<close>

text \<open>C11. The quoting is safe: for every list of arguments, whatever bytes they hold, a shell
  that follows the quoting rules splits the joined line back into exactly these arguments.\<close>

theorem shell_join_roundtrip:
  assumes "posix_quoting denotes words"
  shows "words (shellJoin args) = Some args"
  using assms by (rule posix_quoting.shellJoin_words)

lemma shell_join_roundtrip_witness:
  "sh_words (shellJoin [''echo'', ''a b'', [CHR 0x27], [], ''$(rm *)'']) =
     Some [''echo'', ''a b'', [CHR 0x27], [], ''$(rm *)'']"
  using sh.posix_quoting_axioms by (rule shell_join_roundtrip)

end
