(* ===== verification/ExecClient.thy ===== *)
theory ExecClient
  imports ExecProto ShellQuote
begin

text \<open>
  The command line client, \<open>grpc_exec/cmd/grpc_exec/main.go\<close>: the flags (Go's \<open>flag\<close>
  package, for its two string flags), the command line it sends, and the loop that copies the
  events of the stream until the command's exit. gRPC and the file system answer through the
  fields of \<open>client_world\<close>.
\<close>

section \<open>Flags\<close>

datatype flag_error =
    BadSyntax gostring | NotDefined gostring | NeedsArgument gostring | HelpRequested

record flags =
  flag_addr :: gostring
  flag_dir :: gostring

datatype parse_step =
    Finished "gostring list"
  | SetFlag gostring gostring "gostring list"
  | ParseError flag_error

text \<open>One step of \<open>FlagSet.Parse\<close>. A string flag takes the text after \<open>=\<close>, or the next
  argument.\<close>

definition parse_flag :: "gostring \<Rightarrow> gostring \<Rightarrow> gostring list \<Rightarrow> parse_step" where
  "parse_flag s name args =
     (if name = [] \<or> hd name = CHR ''-'' \<or> hd name = CHR ''='' then ParseError (BadSyntax s)
      else
        (let key = takeWhile (\<lambda>c. c \<noteq> CHR ''='') name;
             val = dropWhile (\<lambda>c. c \<noteq> CHR ''='') name
         in if key \<noteq> ''addr'' \<and> key \<noteq> ''dir''
            then ParseError (if key = ''help'' \<or> key = ''h'' then HelpRequested else NotDefined key)
            else if val \<noteq> [] then SetFlag key (tl val) args
            else (case args of
                    [] \<Rightarrow> ParseError (NeedsArgument key)
                  | v # rest \<Rightarrow> SetFlag key v rest)))"

fun parse_one :: "gostring list \<Rightarrow> parse_step" where
  "parse_one [] = Finished []"
| "parse_one (s # args) =
     (if length s < 2 \<or> s ! 0 \<noteq> CHR ''-'' then Finished (s # args)
      else if s = ''--'' then Finished args
      else parse_flag s (if s ! 1 = CHR ''-'' then drop 2 s else drop 1 s) args)"

definition set_flag :: "gostring \<Rightarrow> gostring \<Rightarrow> flags \<Rightarrow> flags" where
  "set_flag key v fl = (if key = ''addr'' then fl\<lparr>flag_addr := v\<rparr> else fl\<lparr>flag_dir := v\<rparr>)"

lemma parse_one_shorter: "parse_one args = SetFlag k v rest \<Longrightarrow> length rest < length args"
  by (cases args) (auto simp: parse_flag_def Let_def split: if_splits list.splits)

function parse_flags :: "flags \<Rightarrow> gostring list \<Rightarrow> flag_error + (flags \<times> gostring list)" where
  "parse_flags fl args =
     (case parse_one args of
        Finished rest \<Rightarrow> Inr (fl, rest)
      | ParseError err \<Rightarrow> Inl err
      | SetFlag k v rest \<Rightarrow> parse_flags (set_flag k v fl) rest)"
  by pat_completeness auto
termination by (relation "measure (\<lambda>(fl, args). length args)") (auto dest: parse_one_shorter)

declare parse_flags.simps [simp del]

section \<open>The run\<close>

text \<open>The lines written to the standard error, one constructor per message.\<close>

datatype client_msg =
    FlagFailed flag_error | AddrRequired | CommandRequired
  | ResolveFailed gostring | DialFailed gostring | OpenFailed gostring | SendFailed gostring
  | RecvFailed gostring | CommandError gostring

text \<open>\<open>filepath.Abs\<close>, \<open>grpc.NewClient\<close>, \<open>client.RunCommand\<close>, \<open>stream.Send\<close> and the
  \<open>n\<close>-th \<open>stream.Recv\<close>; an error is its text.\<close>

record client_world =
  w_abs :: "gostring \<Rightarrow> gostring + gostring"
  w_dial :: "gostring \<Rightarrow> gostring option"
  w_open :: "gostring option"
  w_send :: "StartCommandRequest \<Rightarrow> gostring option"
  w_recv :: "nat \<Rightarrow> ServerEvent recv"

record client_result =
  res_code :: int
  res_stdout :: gostring
  res_stderr :: "client_msg list"
  res_sent :: "StartCommandRequest option"

definition command_line :: "gostring list \<Rightarrow> gostring" where
  "command_line cmdArgs = (if length cmdArgs = 1 then cmdArgs ! 0 else shellJoin cmdArgs)"

partial_function (option) recv_loop ::
  "(nat \<Rightarrow> ServerEvent recv) \<Rightarrow> nat \<Rightarrow> gostring \<Rightarrow> (int \<times> gostring \<times> client_msg list) option" where
  "recv_loop recv n out =
     (case recv n of
        RecvEOF \<Rightarrow> Some (0, out, [])
      | RecvErr err \<Rightarrow> Some (1, out, [RecvFailed err])
      | RecvEvent ev \<Rightarrow>
          (case ev of
             ServerEvent_Started cmdID \<Rightarrow> recv_loop recv (Suc n) out
           | ServerEvent_Output b \<Rightarrow> recv_loop recv (Suc n) (out @ b)
           | ServerEvent_Exited x \<Rightarrow>
               Some (sint (exit_ExitCode x), out,
                 if exit_ErrorMessage x \<noteq> [] then [CommandError (exit_ErrorMessage x)] else [])
           | ServerEvent_Unset \<Rightarrow> recv_loop recv (Suc n) out))"

definition refuse :: "int \<Rightarrow> client_msg \<Rightarrow> client_result" where
  "refuse code msg = \<lparr>res_code = code, res_stdout = [], res_stderr = [msg], res_sent = None\<rparr>"

definition client_run :: "client_world \<Rightarrow> gostring list \<Rightarrow> client_result option" where
  "client_run w args =
     (case parse_flags \<lparr>flag_addr = [], flag_dir = []\<rparr> args of
        Inl err \<Rightarrow> Some (refuse 2 (FlagFailed err))
      | Inr (fl, cmdArgs) \<Rightarrow>
          if flag_addr fl = [] then Some (refuse 2 AddrRequired)
          else if length cmdArgs = 0 then Some (refuse 2 CommandRequired)
          else (case w_abs w (flag_addr fl) of
            Inl err \<Rightarrow> Some (refuse 1 (ResolveFailed err))
          | Inr sockPath \<Rightarrow>
              (case w_dial w (''unix://'' @ sockPath) of
                 Some err \<Rightarrow> Some (refuse 1 (DialFailed err))
               | None \<Rightarrow>
                   (case w_open w of
                      Some err \<Rightarrow> Some (refuse 1 (OpenFailed err))
                    | None \<Rightarrow>
                        (let req = \<lparr>req_CommandLine = command_line cmdArgs, req_WorkingDir = flag_dir fl\<rparr>
                         in case w_send w req of
                              Some err \<Rightarrow> Some (refuse 1 (SendFailed err))
                            | None \<Rightarrow>
                                (case recv_loop (w_recv w) 0 [] of
                                   None \<Rightarrow> None
                                 | Some (code, out, msgs) \<Rightarrow>
                                     Some \<lparr>res_code = code, res_stdout = out, res_stderr = msgs,
                                           res_sent = Some req\<rparr>))))))"

text \<open>\<open>os.Exit\<close>: the system keeps the low eight bits of the code.\<close>

definition process_status :: "int \<Rightarrow> int" where
  "process_status code = code mod 256"

section \<open>The receive loop\<close>

lemma recv_loop_skip:
  "recv n = RecvEvent ev \<Longrightarrow> \<not> is_exited ev \<Longrightarrow>
     recv_loop recv n out = recv_loop recv (Suc n) (out @ event_output ev)"
  by (subst recv_loop.simps) (cases ev; simp)

lemma recv_loop_events:
  "\<forall>k < length evs. recv (n + k) = RecvEvent (evs ! k) \<Longrightarrow> \<forall>ev \<in> set evs. \<not> is_exited ev \<Longrightarrow>
     recv_loop recv n out = recv_loop recv (n + length evs) (out @ outputs evs)"
proof (induction evs arbitrary: n out)
  case (Cons ev evs)
  have "recv n = RecvEvent ev" using Cons.prems(1) by force
  moreover have "\<forall>k < length evs. recv (Suc n + k) = RecvEvent (evs ! k)"
    using Cons.prems(1) by force
  ultimately show ?case
    using Cons.IH [of "Suc n"] Cons.prems(2) recv_loop_skip [of recv n ev] by simp
qed simp

text \<open>The end of a stream, and what the client makes of it.\<close>

fun is_last :: "ServerEvent recv \<Rightarrow> bool" where
  "is_last (RecvEvent ev) = is_exited ev"
| "is_last _ = True"

fun last_result :: "ServerEvent recv \<Rightarrow> int \<times> client_msg list" where
  "last_result RecvEOF = (0, [])"
| "last_result (RecvErr err) = (1, [RecvFailed err])"
| "last_result (RecvEvent (ServerEvent_Exited x)) =
     (sint (exit_ExitCode x),
      if exit_ErrorMessage x \<noteq> [] then [CommandError (exit_ErrorMessage x)] else [])"
| "last_result (RecvEvent _) = (0, [])"

lemma recv_loop_last:
  "is_last (recv n) \<Longrightarrow>
     recv_loop recv n out = Some (fst (last_result (recv n)), out, snd (last_result (recv n)))"
  by (subst recv_loop.simps) (auto elim!: is_last.elims is_exited.elims split: recv.splits)

text \<open>The client's loop exactly: it returns as soon as the stream ends or the command's
  exit arrives, having written to the standard output the output events so far, in order and
  unchanged, and returns the command's exit code, 1 for a broken stream and 0 for a stream
  that ends without an exit; an error message of the server is reported.\<close>

theorem client_loop_exact:
  assumes "\<forall>k < length evs. recv k = RecvEvent (evs ! k)" and "\<forall>ev \<in> set evs. \<not> is_exited ev"
    and "is_last (recv (length evs))"
  shows "recv_loop recv 0 [] =
     Some (fst (last_result (recv (length evs))), outputs evs, snd (last_result (recv (length evs))))"
  using recv_loop_events [of evs recv 0 "[]"] assms by (simp add: recv_loop_last)

definition sample_events :: "ServerEvent list" where
  "sample_events = [ServerEvent_Started ''id'', ServerEvent_Output ''ab'', ServerEvent_Output ''c'']"

definition sample_recv :: "nat \<Rightarrow> ServerEvent recv" where
  "sample_recv n = (if n < 3 then RecvEvent (sample_events ! n)
     else RecvEvent (ServerEvent_Exited \<lparr>exit_ExitCode = 42, exit_ErrorMessage = []\<rparr>))"

lemma client_loop_exact_witness: "recv_loop sample_recv 0 [] = Some (42, ''abc'', [])"
proof -
  have "\<forall>k < length sample_events. sample_recv k = RecvEvent (sample_events ! k)"
    by (simp add: sample_recv_def sample_events_def)
  moreover have "\<forall>ev \<in> set sample_events. \<not> is_exited ev" by (simp add: sample_events_def)
  moreover have "is_last (sample_recv (length sample_events))"
    by (simp add: sample_recv_def sample_events_def)
  ultimately show ?thesis
    using client_loop_exact [of sample_events sample_recv]
    by (simp add: sample_recv_def sample_events_def)
qed

section \<open>What is sent\<close>

text \<open>The command that reaches the server: a single argument is sent as it is; several
  are sent as a line which a shell that follows the quoting rules splits into exactly these
  arguments; the working directory is the flag's value.\<close>

theorem client_request:
  assumes "posix_quoting denotes words" and "client_run w args = Some r" and "res_sent r = Some req"
  shows "\<exists>fl cmdArgs. parse_flags \<lparr>flag_addr = [], flag_dir = []\<rparr> args = Inr (fl, cmdArgs) \<and>
     flag_addr fl \<noteq> [] \<and> req_WorkingDir req = flag_dir fl \<and>
     (case cmdArgs of
        [] \<Rightarrow> False
      | [a] \<Rightarrow> req_CommandLine req = a
      | _ \<Rightarrow> words (req_CommandLine req) = Some cmdArgs)"
proof -
  obtain fl cmdArgs where p: "parse_flags \<lparr>flag_addr = [], flag_dir = []\<rparr> args = Inr (fl, cmdArgs)"
    and a: "flag_addr fl \<noteq> []" and c: "cmdArgs \<noteq> []"
    and req: "req = \<lparr>req_CommandLine = command_line cmdArgs, req_WorkingDir = flag_dir fl\<rparr>"
    using assms(2,3)
    by (auto simp: client_run_def refuse_def Let_def
        split: sum.splits if_splits option.splits prod.splits)
  then show ?thesis
    using posix_quoting.shellJoin_words [OF assms(1), of cmdArgs]
    by (intro exI [of _ fl] exI [of _ cmdArgs]) (auto simp: command_line_def split: list.splits)
qed

lemma client_request_witness:
  "\<exists>r req. client_run \<lparr>w_abs = Inr, w_dial = (\<lambda>_. None), w_open = None, w_send = (\<lambda>_. None), w_recv = sample_recv\<rparr>
       [''-addr'', ''/s'', ''touch'', ''a b''] = Some r \<and> res_sent r = Some req \<and>
     sh_words (req_CommandLine req) = Some [''touch'', ''a b''] \<and> res_code r = 42"
proof -
  let ?w = "\<lparr>w_abs = Inr, w_dial = (\<lambda>_. None), w_open = None, w_send = (\<lambda>_. None), w_recv = sample_recv\<rparr>"
  have p: "parse_flags \<lparr>flag_addr = [], flag_dir = []\<rparr> [''-addr'', ''/s'', ''touch'', ''a b''] =
      Inr (\<lparr>flag_addr = ''/s'', flag_dir = []\<rparr>, [''touch'', ''a b''])"
    by (simp add: parse_flags.simps parse_flag_def set_flag_def)
  have l: "recv_loop sample_recv 0 [] = Some (42, ''abc'', [])"
    by (simp add: recv_loop.simps sample_recv_def sample_events_def)
  obtain r req where r: "client_run ?w [''-addr'', ''/s'', ''touch'', ''a b''] = Some r"
    "res_sent r = Some req" "res_code r = 42"
    by (simp add: client_run_def p l Let_def)
  from client_request [OF sh.posix_quoting_axioms r(1,2)] r p show ?thesis by auto
qed

text \<open>Usage errors come first: bad flags, no socket or no command make the client return
  2 with one message before it connects or sends anything, and with flags, socket and command
  a run that sends nothing returns 1.\<close>

theorem client_usage:
  "case parse_flags \<lparr>flag_addr = [], flag_dir = []\<rparr> args of
      Inl err \<Rightarrow> client_run w args = Some (refuse 2 (FlagFailed err))
    | Inr (fl, cmdArgs) \<Rightarrow>
        (if flag_addr fl = [] then client_run w args = Some (refuse 2 AddrRequired)
         else if cmdArgs = [] then client_run w args = Some (refuse 2 CommandRequired)
         else case client_run w args of
                None \<Rightarrow> recv_loop (w_recv w) 0 [] = None
              | Some r \<Rightarrow> res_sent r = None \<longrightarrow> res_code r = 1 \<and> res_stdout r = [])"
  by (auto simp: client_run_def Let_def refuse_def split: sum.splits option.splits prod.splits)

lemma client_usage_witness:
  "\<forall>w. client_run w [''-dir'', ''/tmp'', ''ls''] = Some (refuse 2 AddrRequired)"
proof
  fix w
  have "parse_flags \<lparr>flag_addr = [], flag_dir = []\<rparr> [''-dir'', ''/tmp'', ''ls''] =
      Inr (\<lparr>flag_addr = [], flag_dir = ''/tmp''\<rparr>, [''ls''])"
    by (simp add: parse_flags.simps parse_flag_def set_flag_def)
  then show "client_run w [''-dir'', ''/tmp'', ''ls''] = Some (refuse 2 AddrRequired)"
    using client_usage [where args = "[''-dir'', ''/tmp'', ''ls'']" and w = w] by simp
qed

section \<open>The forms of a flag\<close>

text \<open>A use of a flag as a user may write it: one or two dashes, the value after \<open>=\<close> or as
  the next argument.\<close>

record flag_use =
  u_key :: gostring
  u_value :: gostring
  u_double :: bool
  u_eq :: bool

definition write_use :: "flag_use \<Rightarrow> gostring list" where
  "write_use u =
     (let d = (if u_double u then ''--'' else ''-'')
      in if u_eq u then [d @ u_key u @ ''='' @ u_value u] else [d @ u_key u, u_value u])"

definition stops_flags :: "gostring list \<Rightarrow> bool" where
  "stops_flags args \<longleftrightarrow> (case args of [] \<Rightarrow> True | a # _ \<Rightarrow> length a < 2 \<or> a ! 0 \<noteq> CHR ''-'')"

lemma parse_one_use:
  assumes "u_key u \<in> {''addr'', ''dir''}"
  shows "parse_one (write_use u @ rest) = SetFlag (u_key u) (u_value u) rest"
proof -
  have k: "takeWhile (\<lambda>c. c \<noteq> CHR ''='') (u_key u @ CHR ''='' # v) = u_key u"
    "dropWhile (\<lambda>c. c \<noteq> CHR ''='') (u_key u @ CHR ''='' # v) = CHR ''='' # v"
    "takeWhile (\<lambda>c. c \<noteq> CHR ''='') (u_key u) = u_key u"
    "dropWhile (\<lambda>c. c \<noteq> CHR ''='') (u_key u) = []" for v
    using assms by (elim insertE emptyE; simp)+
  have n: "u_key u \<noteq> []" "hd (u_key u) \<noteq> CHR ''-''" "hd (u_key u) \<noteq> CHR ''=''"
    "u_key u ! 0 \<noteq> CHR ''-''" "length (u_key u) \<ge> 2"
    using assms by auto
  show ?thesis
    using assms n
    by (cases "u_double u"; cases "u_eq u")
      (simp_all add: write_use_def parse_flag_def k nth_append hd_append Let_def; force)+
qed

text \<open>The flags are read back: any sequence of uses of the two flags, in any of their
  written forms, followed by \<open>--\<close> or by a first argument that does not look like a flag,
  yields for each flag its last value and leaves the rest of the arguments untouched.\<close>

theorem flags_roundtrip:
  assumes "\<forall>u \<in> set us. u_key u \<in> {''addr'', ''dir''}" and "stops_flags rest \<or> pre = [''--'']"
    and "pre = [] \<or> pre = [''--'']"
  shows "parse_flags fl (concat (map write_use us) @ pre @ rest) =
     Inr (fold (\<lambda>u. set_flag (u_key u) (u_value u)) us fl, rest)"
  using assms(1)
proof (induction us arbitrary: fl)
  case Nil
  have "parse_one (pre @ rest) = Finished rest"
    using assms(2,3) by (cases rest) (auto simp: stops_flags_def)
  then show ?case by (simp add: parse_flags.simps)
next
  case (Cons u us)
  then show ?case by (subst parse_flags.simps) (simp add: parse_one_use)
qed

lemma flags_roundtrip_witness:
  "parse_flags \<lparr>flag_addr = [], flag_dir = []\<rparr> [''--dir=/'', ''-addr'', ''s'', ''--'', ''-x''] =
     Inr (\<lparr>flag_addr = ''s'', flag_dir = ''/''\<rparr>, [''-x''])"
proof -
  let ?us = "[\<lparr>u_key = ''dir'', u_value = ''/'', u_double = True, u_eq = True\<rparr>,
    \<lparr>u_key = ''addr'', u_value = ''s'', u_double = False, u_eq = False\<rparr>]"
  have h: "\<forall>u \<in> set ?us. u_key u \<in> {''addr'', ''dir''}"
    "stops_flags [''-x''] \<or> [''--''] = [''--'']" "[''--''] = [] \<or> [''--''] = [''--'']" by simp_all
  from flags_roundtrip [OF h, of "\<lparr>flag_addr = [], flag_dir = []\<rparr>"] show ?thesis
    by (simp add: write_use_def set_flag_def)
qed

end
