(* ===== verification/ExecProps.thy ===== *)
theory ExecProps
  imports ExecSafety ExecClient
begin

text \<open>
  The properties of one \<open>RunCommand\<close> call (\<open>server.go\<close>) under every schedule, from the
  invariant of \<open>ExecSafety\<close>, and of the client and the server together.
\<close>

section \<open>Sample runs\<close>

definition sample_req :: StartCommandRequest where
  "sample_req = \<lparr>req_CommandLine = ''echo hi'', req_WorkingDir = []\<rparr>"

definition boot_acts :: "exec_action list" where
  "boot_acts = [AMain (GotEvent (ClientEvent_Start sample_req)), AMain Ok, AMain Ok, AMain (Random [10]), AMain Ok]"

definition reap_acts :: "exec_action list" where
  "reap_acts = [AWait, AWait, AWait, AWait, AWait]"

definition finish_acts :: "exec_action list" where
  "finish_acts = [AMain (Bytes 1), AMain Ok, AMain Ok, AMain Ok]"

text \<open>A command that prints two bytes; one whose output is still in the pipe when the deadline
  passes; one whose client breaks the protocol.\<close>

definition echo_acts :: "exec_action list" where
  "echo_acts = boot_acts @ [AWrite ''hi'', AMain (Bytes 2), AMain Ok, AExit WaitOk, AClose] @ reap_acts @ finish_acts"

definition slow_acts :: "exec_action list" where
  "slow_acts = boot_acts @ [AWrite ''hi'', AExit WaitOk, AClose] @ reap_acts @ [ADeadline] @ finish_acts"

definition bad_acts :: "exec_action list" where
  "bad_acts = boot_acts @ [ARecv (GotEvent ClientEvent_Unset), ARecv Ok, AExit (WaitExit (- 1)), AClose] @ reap_acts @ finish_acts"

definition exec_after :: "exec_action list \<Rightarrow> exec_sys" where
  "exec_after as = the (exec_run as init_exec)"

lemmas exec_simps =
  exec_after_def init_exec_def boot_acts_def reap_acts_def finish_acts_def echo_acts_def
  slow_acts_def bad_acts_def pipe_read_def exit_info_def

lemma exec_after_reach:
  assumes "exec_run as init_exec \<noteq> None"
  shows "exec_reach (exec_after as)"
  using assms exec_reach_run [OF exec_reach.init, of as] by (auto simp: exec_after_def)

lemma exec_runs_exist:
  "exec_run echo_acts init_exec \<noteq> None" "exec_run slow_acts init_exec \<noteq> None"
  "exec_run bad_acts init_exec \<noteq> None" "exec_run boot_acts init_exec \<noteq> None"
  by (simp_all add: exec_simps)

lemma echo_end:
  "main (exec_after echo_acts) = RDone None"
  "sent (exec_after echo_acts) = [ServerEvent_Started (randomID [10]), ServerEvent_Output ''hi'',
     ServerEvent_Exited \<lparr>exit_ExitCode = 0, exit_ErrorMessage = []\<rparr>]"
  "wrote (exec_after echo_acts) = ''hi''" "proc (exec_after echo_acts) = Reaped WaitOk"
  by (simp_all add: exec_simps)

section \<open>The stream\<close>

lemma sent_order:
  assumes "exec_reach s" and "main s = RDone r"
  shows "case r of
       None \<Rightarrow> (\<exists>msg. sent s = [ServerEvent_Exited (error_info msg)]) \<or>
               (\<exists>id cs wr. sent s = ServerEvent_Started id # cs @ [ServerEvent_Exited (exit_info wr)] \<and>
                  chunks cs \<and> proc s = Reaped wr)
     | Some err \<Rightarrow> \<forall>ev \<in> set (sent s). \<not> is_exited ev"
proof (cases r)
  case None
  with assms reach_rules [OF assms(1)] show ?thesis
    by (simp add: sent_rule_def) (auto simp: begun_def)
next
  case (Some err)
  have "\<forall>ev \<in> set evs. \<not> is_exited ev" if "begun evs" for evs
    using that by (fastforce simp: begun_def chunks_def)
  with Some assms reach_rules [OF assms(1)] show ?thesis
    by (auto simp: sent_rule_def)
qed

text \<open>C3. The order of events: when \<open>RunCommand\<close> has returned without an error, it has sent
  exactly one exit event, as the last one, after the start event and output events of 1 to
  4096 bytes, or alone when the command could not be started; the exit event carries the result
  of waiting for the command. When it returned an error it has sent no exit event.\<close>

theorem exec_event_order:
  assumes "exec_reach s" and "main s = RDone r"
  shows "case r of
       None \<Rightarrow> (\<exists>msg. sent s = [ServerEvent_Exited (error_info msg)]) \<or>
               (\<exists>id cs wr. sent s = ServerEvent_Started id # cs @ [ServerEvent_Exited (exit_info wr)] \<and>
                  chunks cs \<and> proc s = Reaped wr)
     | Some err \<Rightarrow> \<forall>ev \<in> set (sent s). \<not> is_exited ev"
  using assms by (rule sent_order)

lemma exec_event_order_witness:
  "\<exists>id cs wr. sent (exec_after echo_acts) = ServerEvent_Started id # cs @ [ServerEvent_Exited (exit_info wr)] \<and>
     chunks cs"
  using exec_event_order [OF exec_after_reach [OF exec_runs_exist(1)] echo_end(1)]
  by (auto simp: echo_end)

text \<open>C35. Output is passed on unchanged: at any time what has been sent is an initial part of
  what was written to the pipe; and when \<open>RunCommand\<close> returns without an error before the
  deadline has passed, it is all of it.\<close>

theorem exec_output_faithful:
  assumes "exec_reach s"
  shows "prefix (outputs (sent s)) (wrote s) \<and>
     (main s = RDone None \<and> deadline s \<noteq> Passed \<longrightarrow> outputs (sent s) = wrote s)"
  using reach_rules [OF assms] by (auto simp: output_rule_def eof_rule_def)

lemma exec_output_faithful_witness:
  "outputs (sent (exec_after echo_acts)) = wrote (exec_after echo_acts) \<and> wrote (exec_after echo_acts) = ''hi''"
proof -
  have "deadline (exec_after echo_acts) \<noteq> Passed" by (simp add: exec_simps)
  then show ?thesis
    using exec_output_faithful [OF exec_after_reach [OF exec_runs_exist(1)]] echo_end by simp
qed


text \<open>C37. A protocol violation may go unreported: the receive loop kills the process group
  before it hands over the error, so there is a schedule in which the call has returned
  normally, with an exit event, while the error is still to be handed over.\<close>

theorem exec_protocol_race:
  "\<exists>s. exec_reach s \<and> main s = RDone None \<and> listener s = LProto \<and> SigKill \<in> set (signals s) \<and>
     sent s \<noteq> [] \<and> is_exited (last (sent s))"
  by (intro exI [of _ "exec_after bad_acts"] conjI exec_after_reach [OF exec_runs_exist(3)])
    (simp_all add: exec_simps)

section \<open>Signals\<close>

text \<open>The actions of a call whose client stays connected and sends nothing more (it may
  close its side), and in which no call fails.\<close>

fun harmless :: "exec_action \<Rightarrow> bool" where
  "harmless (AMain (Fail _)) = False"
| "harmless (ARecv (Fail _)) = False"
| "harmless (ARecv (GotEvent _)) = False"
| "harmless ADisconnect = False"
| "harmless _ = True"

text \<open>The handler is not on its way out after a failed call.\<close>

fun quiet :: "main_pc \<Rightarrow> bool" where
  "quiet (RAbort _) = False" | "quiet (RReap _) = False" | "quiet (RKill _) = False"
| "quiet (RDrain _) = False" | "quiet _ = True"

definition calm :: "exec_sys \<Rightarrow> bool" where
  "calm s \<longleftrightarrow> listener s \<in> {LIdle, LRecv, LDone} \<and> \<not> ctxDone s \<and> timers s = 0 \<and>
     quiet (main s) \<and>
     (signals s \<noteq> [] \<longrightarrow> procDone s) \<and>
     (\<forall>wr. waiter s = WKill wr \<longrightarrow> procDone s)"

lemma quiet_main:
  assumes "main_move (main s) b s = Some s'" and "\<forall>err. b \<noteq> Fail err" and "quiet (main s)"
  shows "signals s' = signals s \<and> (listener s' = listener s \<or> listener s' = LRecv) \<and> ctxDone s' = ctxDone s \<and>
      timers s' = timers s \<and> quiet (main s') \<and> procDone s' = procDone s \<and> (waiter s' = waiter s \<or> waiter s' = WWait)"
proof (cases "main s")
  case RRead
  then obtain n c e s1 where "b = Bytes n" and r: "pipe_read n s = Some (c, e, s1)"
    using assms(1) by (auto split: exec_answer.splits option.splits)
  with RRead assms(1) pipe_read_cases [OF r] show ?thesis by (auto split: if_splits)
next
  case (RSend c e)
  with assms show ?thesis by (cases b; cases e) auto
qed (use assms in \<open>auto split: exec_answer.splits ClientEvent.splits option.splits proc.splits if_splits\<close>)

lemma harmless_ok: "harmless (AMain b) \<Longrightarrow> \<forall>err. b \<noteq> Fail err"
  by (cases b) auto

lemma calm_step:
  assumes "exec_step a s = Some s'" and "harmless a" and "calm s"
  shows "calm s'"
proof (cases a)
  case (AMain b)
  then have "signals s' = signals s \<and> (listener s' = listener s \<or> listener s' = LRecv) \<and> ctxDone s' = ctxDone s \<and>
      timers s' = timers s \<and> quiet (main s') \<and> procDone s' = procDone s \<and> (waiter s' = waiter s \<or> waiter s' = WWait)"
    using quiet_main [of s b s'] harmless_ok [of b] assms by (simp add: calm_def)
  with assms(3) show ?thesis by (cases "waiter s") (auto simp: calm_def)
next
  case AWait
  with assms show ?thesis
    by (cases "waiter s") (auto simp: calm_def split: proc.splits if_splits)
next
  case (ARecv b)
  with assms show ?thesis
    by (cases b) (auto simp: calm_def)
next
  case (ACtx f)
  with assms show ?thesis
    by (cases "watcher s") (auto simp: calm_def split: if_splits)
next
  case (ATimer f)
  with assms show ?thesis by (simp add: calm_def)
qed (use assms in \<open>auto simp: calm_def split: if_splits\<close>)

lemma calm_run:
  "exec_run as s = Some s' \<Longrightarrow> \<forall>a \<in> set as. harmless a \<Longrightarrow> calm s \<Longrightarrow> calm s'"
proof (induction as arbitrary: s)
  case (Cons a as)
  then show ?case using calm_step [of a s] by (auto split: option.splits)
qed simp

text \<open>A running command is left alone: as long as the client stays connected and sends
  nothing after the start (it may close its side), and no call fails, no signal is sent before
  the command has been waited for.\<close>

theorem exec_undisturbed:
  assumes "exec_run as init_exec = Some s" and "\<forall>a \<in> set as. harmless a"
  shows "signals s \<noteq> [] \<longrightarrow> procDone s"
proof -
  have "calm init_exec" by (simp add: calm_def init_exec_def)
  with calm_run [OF assms] show ?thesis by (simp add: calm_def)
qed

lemma exec_undisturbed_witness:
  "procDone (exec_after echo_acts)"
proof -
  have "exec_run echo_acts init_exec = Some (exec_after echo_acts)"
    using exec_runs_exist(1) by (auto simp: exec_after_def)
  moreover have "\<forall>a \<in> set echo_acts. harmless a"
    by (simp add: echo_acts_def boot_acts_def reap_acts_def finish_acts_def)
  moreover have "signals (exec_after echo_acts) \<noteq> []" by (simp add: exec_simps)
  ultimately show ?thesis using exec_undisturbed by blast
qed




section \<open>Return\<close>

fun main_rank :: "main_pc \<Rightarrow> nat" where
  "main_rank RStarted = 10" | "main_rank (RAbort _) = 2" | "main_rank (RReap _) = 1"
| "main_rank RSpawn = 9" | "main_rank (RSend _ _) = 8" | "main_rank RRead = 7"
| "main_rank RResult = 4" | "main_rank (RCheck _) = 3" | "main_rank (RExit _) = 2"
| "main_rank (RKill _) = 3" | "main_rank (RDrain _) = 1" | "main_rank _ = 0"

fun wait_rank :: "wait_pc \<Rightarrow> nat" where
  "wait_rank WIdle = 6" | "wait_rank WWait = 5" | "wait_rank (WClose _) = 4"
| "wait_rank (WKill _) = 3" | "wait_rank (WDeadline _) = 2" | "wait_rank (WSend _) = 1"
| "wait_rank WDone = 0"

fun deadline_rank :: "deadline \<Rightarrow> nat" where
  "deadline_rank NoDeadline = 2" | "deadline_rank Armed = 1" | "deadline_rank Passed = 0"

definition exec_rank :: "exec_sys \<Rightarrow> nat" where
  "exec_rank s = main_rank (main s) + wait_rank (waiter s) + deadline_rank (deadline s)"

definition gone :: "exec_sys \<Rightarrow> bool" where
  "gone s \<longleftrightarrow> (\<exists>wr. proc s = Zombie wr \<or> proc s = Reaped wr)"

lemma exec_progress:
  assumes w: "waiter_rule s" and g: "gone s" and nd: "\<forall>r. main s \<noteq> RDone r"
  shows "\<exists>a s'. a \<in> {AMain Ok, AMain (Bytes 0), AMain (Random []), AWait, ADeadline} \<and>
     exec_step a s = Some s' \<and> exec_rank s' < exec_rank s \<and> gone s'"
proof (cases "waiter s")
  case WIdle
  with w g nd have "booting (main s)" "\<forall>wr. proc s \<noteq> Reaped wr"
    by (cases "main s"; auto simp: waiter_rule_def gone_def)+
  with g obtain wr where z: "proc s = Zombie wr" by (auto simp: gone_def)
  show ?thesis
  proof (cases "main s")
    case RStarted
    then show ?thesis
      by (intro exI [of _ "AMain (Random [])"]) (simp add: exec_rank_def gone_def z)
  next
    case (RAbort err)
    then show ?thesis by (intro exI [of _ "AMain Ok"]) (simp add: exec_rank_def gone_def z)
  next
    case (RReap err)
    then show ?thesis by (intro exI [of _ "AMain Ok"]) (simp add: exec_rank_def gone_def z)
  next
    case RSpawn
    then show ?thesis by (intro exI [of _ "AMain Ok"]) (simp add: exec_rank_def gone_def z WIdle)
  qed (use \<open>booting (main s)\<close> in simp_all)
next
  case WWait
  with w have "before_wait s" "\<forall>wr. proc s \<noteq> Reaped wr" by (simp_all add: waiter_rule_def)
  with g obtain wr where z: "proc s = Zombie wr" by (auto simp: gone_def)
  with WWait show ?thesis by (intro exI [of _ AWait]) (simp add: exec_rank_def gone_def)
next
  case (WClose wr)
  with g show ?thesis by (intro exI [of _ AWait]) (simp add: exec_rank_def gone_def)
next
  case (WKill wr)
  with g show ?thesis by (intro exI [of _ AWait]) (simp add: exec_rank_def gone_def)
next
  case (WDeadline wr)
  with w have "deadline s = NoDeadline" by (simp add: waiter_rule_def)
  with g WDeadline show ?thesis by (intro exI [of _ AWait]) (simp add: exec_rank_def gone_def)
next
  case (WSend wr)
  with w have "waitCh s = None" by (simp add: waiter_rule_def)
  with g WSend show ?thesis by (intro exI [of _ AWait]) (simp add: exec_rank_def gone_def)
next
  case WDone
  with w obtain wr where d: "deadline s \<noteq> NoDeadline" and p: "proc s = Reaped wr"
    and m: "waitCh s = Some wr \<and> running (main s) \<or> waitCh s = None \<and> took wr (main s)"
    by (auto simp: waiter_rule_def)
  show ?thesis
  proof (cases "deadline s")
    case NoDeadline
    with d show ?thesis by simp
  next
    case Armed
    with g show ?thesis by (intro exI [of _ ADeadline]) (simp add: exec_rank_def gone_def)
  next
    case Passed
    show ?thesis
    proof (cases "main s")
      case RRead
      with Passed show ?thesis
        by (intro exI [of _ "AMain (Bytes 0)"]) (simp add: exec_rank_def gone_def p pipe_read_def)
    qed (use m p nd in \<open>(intro exI [of _ "AMain Ok"]; simp add: exec_rank_def gone_def)\<close>)+
  qed
qed

lemma exec_finishes:
  assumes "exec_reach s" and "gone s"
  shows "\<exists>as s'. length as \<le> exec_rank s \<and>
     set as \<subseteq> {AMain Ok, AMain (Bytes 0), AMain (Random []), AWait, ADeadline} \<and>
     exec_run as s = Some s' \<and> (\<exists>r. main s' = RDone r)"
  using assms
proof (induction "exec_rank s" arbitrary: s rule: less_induct)
  case less
  show ?case
  proof (cases "\<exists>r. main s = RDone r")
    case True
    then show ?thesis by (intro exI [of _ "[]"] exI [of _ s]) simp
  next
    case False
    then obtain a s1 where a: "a \<in> {AMain Ok, AMain (Bytes 0), AMain (Random []), AWait, ADeadline}"
      "exec_step a s = Some s1" "exec_rank s1 < exec_rank s" "gone s1"
      using exec_progress [of s] reach_rules [OF less.prems(1)] less.prems(2) by blast
    from less.hyps [OF a(3) exec_reach.step [OF less.prems(1) a(2)] a(4)] obtain as s' where
      "length as \<le> exec_rank s1"
      "set as \<subseteq> {AMain Ok, AMain (Bytes 0), AMain (Random []), AWait, ADeadline}"
      "exec_run as s1 = Some s'" "\<exists>r. main s' = RDone r" by blast
    with a show ?thesis
      by (intro exI [of _ "a # as"] exI [of _ s']) auto
  qed
qed

text \<open>\<open>RunCommand\<close> returns: from every reachable state in which the command has exited,
  at most eighteen moves of the handler, of the goroutine that waits for the command and of the
  clock lead to its return, whoever still holds the pipe open and whatever is in it.\<close>

theorem exec_returns:
  assumes "exec_reach s" and "\<exists>wr. proc s = Zombie wr \<or> proc s = Reaped wr"
  shows "\<exists>as s' r. length as \<le> 18 \<and>
     set as \<subseteq> {AMain Ok, AMain (Bytes 0), AMain (Random []), AWait, ADeadline} \<and>
     exec_run as s = Some s' \<and> main s' = RDone r"
proof -
  have "main_rank pc \<le> 10" for pc by (cases pc) simp_all
  moreover have "wait_rank pc \<le> 6" for pc by (cases pc) simp_all
  moreover have "deadline_rank d \<le> 2" for d by (cases d) simp_all
  ultimately have "exec_rank s \<le> 10 + 6 + 2" unfolding exec_rank_def by (intro add_mono)
  then have "exec_rank s \<le> 18" by simp
  with exec_finishes [OF assms(1) assms(2) [folded gone_def]] show ?thesis
    by (meson le_trans)
qed

lemma exec_returns_witness:
  "\<exists>as s' r. length as \<le> 18 \<and> exec_run as (exec_after (boot_acts @ [AWrite ''x'', AExit WaitOk])) = Some s' \<and>
     main s' = RDone r"
proof -
  have "exec_run (boot_acts @ [AWrite ''x'', AExit WaitOk]) init_exec \<noteq> None" by (simp add: exec_simps)
  moreover have "\<exists>wr. proc (exec_after (boot_acts @ [AWrite ''x'', AExit WaitOk])) = Zombie wr \<or>
      proc (exec_after (boot_acts @ [AWrite ''x'', AExit WaitOk])) = Reaped wr"
    by (simp add: exec_simps)
  ultimately show ?thesis using exec_returns [OF exec_after_reach] by blast
qed

text \<open>No goroutine blocks on a channel: the result of the wait and the protocol error
  always find room in their buffers, so the goroutines that send them move on whether or not the
  handler still reads; and once the command has been waited for, the watcher and the timers
  can end.\<close>

theorem exec_channels_free:
  assumes "exec_reach s"
  shows "(\<forall>wr. waiter s = WSend wr \<longrightarrow> exec_step AWait s \<noteq> None) \<and>
     (listener s = LProto \<longrightarrow> exec_step (ARecv Ok) s \<noteq> None) \<and>
     (procDone s \<longrightarrow> (watcher s = CSelect \<longrightarrow> exec_step (ACtx False) s \<noteq> None) \<and>
        (timers s > 0 \<longrightarrow> exec_step (ATimer False) s \<noteq> None))"
proof (intro conjI allI impI)
  show "exec_step AWait s \<noteq> None" if "waiter s = WSend wr" for wr
    using that reach_rules [OF assms] by (simp add: waiter_rule_def)
  show "exec_step (ARecv Ok) s \<noteq> None" if "listener s = LProto"
    using that reach_rules [OF assms] by (auto simp: proto_rule_def)
  show "exec_step (ACtx False) s \<noteq> None" if "procDone s" "watcher s = CSelect"
    using that by simp
  show "exec_step (ATimer False) s \<noteq> None" if "procDone s" "timers s > 0"
    using that by (cases "timers s") simp_all
qed

lemma exec_channels_free_witness:
  "exec_step (ARecv Ok) (exec_after bad_acts) \<noteq> None \<and> listener (exec_after bad_acts) = LProto"
proof -
  have "listener (exec_after bad_acts) = LProto" by (simp add: exec_simps)
  then show ?thesis using exec_channels_free [OF exec_after_reach [OF exec_runs_exist(3)]] by blast
qed

section \<open>The client and the server together\<close>

text \<open>What the client receives of a finished call: the events sent, then the status.\<close>

definition error_text :: "rpc_error \<Rightarrow> gostring" where
  "error_text err = (case err of InvalidArgument m \<Rightarrow> m | StreamError m \<Rightarrow> m)"

definition stream_of :: "ServerEvent list \<Rightarrow> rpc_error option \<Rightarrow> nat \<Rightarrow> ServerEvent recv" where
  "stream_of evs r n =
     (if n < length evs then RecvEvent (evs ! n)
      else case r of None \<Rightarrow> RecvEOF | Some err \<Rightarrow> RecvErr (error_text err))"

lemma stream_loop:
  assumes "\<forall>ev \<in> set evs. \<not> is_exited ev" and "is_last (stream_of (evs @ rest) r (length evs))"
  shows "recv_loop (stream_of (evs @ rest) r) 0 [] =
     Some (fst (last_result (stream_of (evs @ rest) r (length evs))), outputs evs,
       snd (last_result (stream_of (evs @ rest) r (length evs))))"
proof -
  have "\<forall>k < length evs. stream_of (evs @ rest) r (0 + k) = RecvEvent (evs ! k)"
    by (simp add: stream_of_def nth_append)
  from recv_loop_events [OF this assms(1), of "[]"] assms(2) show ?thesis
    by (simp add: recv_loop_last)
qed

text \<open>A call that returns without error ends in one exit event, of a command that was waited for
  or of an attempt that failed.\<close>

lemma sent_ends:
  assumes "exec_reach s" and "main s = RDone None"
  obtains evs x where "sent s = evs @ [ServerEvent_Exited x]" "\<forall>ev \<in> set evs. \<not> is_exited ev"
    "(evs = [] \<and> (\<exists>msg. x = error_info msg)) \<or> (\<exists>wr. proc s = Reaped wr \<and> x = exit_info wr)"
proof -
  from sent_order [OF assms] consider (failed) msg where "sent s = [ServerEvent_Exited (error_info msg)]"
    | (ended) id cs wr where "sent s = ServerEvent_Started id # cs @ [ServerEvent_Exited (exit_info wr)]"
        "chunks cs" "proc s = Reaped wr" by auto
  then show thesis
  proof cases
    case failed
    then show thesis by (intro that [of "[]"]) auto
  next
    case ended
    moreover have "\<forall>ev \<in> set cs. \<not> is_exited ev" using ended(2) by (fastforce simp: chunks_def)
    ultimately show thesis by (intro that [of "ServerEvent_Started id # cs" "exit_info wr"]) auto
  qed
qed

text \<open>C9. End to end: whatever the schedule of a finished call, the client's loop returns;
  it has written to its standard output an initial part of what the command wrote; it returns
  1 if the call failed, -1 if the command could not be started or waited for, 0 if it succeeded
  and otherwise its exit code, which the process passes on unchanged from 0 to 255.\<close>

theorem client_sees_exit:
  assumes "exec_reach s" and "main s = RDone r"
  shows "\<exists>code out msgs. recv_loop (stream_of (sent s) r) 0 [] = Some (code, out, msgs) \<and>
     out = outputs (sent s) \<and> prefix out (wrote s) \<and>
     (case r of
        Some err \<Rightarrow> code = 1
      | None \<Rightarrow>
          (\<exists>msg. sent s = [ServerEvent_Exited (error_info msg)] \<and> code = - 1) \<or>
          (\<exists>wr. proc s = Reaped wr \<and>
             (case wr of
                WaitOk \<Rightarrow> code = 0
              | WaitExit c \<Rightarrow> (- 1 \<le> c \<and> c \<le> 255 \<longrightarrow> code = c) \<and> (0 \<le> c \<and> c \<le> 255 \<longrightarrow> process_status code = c)
              | WaitFailed msg \<Rightarrow> code = - 1)))"
proof -
  note order = sent_order [OF assms]
  have pre: "prefix (outputs (sent s)) (wrote s)"
    using reach_rules [OF assms(1)] by (simp add: output_rule_def)
  have small: "sint (word_of_int c :: 32 word) = c" if "- 1 \<le> c" "c \<le> 255" for c
    using that by (simp add: int_word_sint)
  show ?thesis
  proof (cases r)
    case (Some err)
    with order have "\<forall>ev \<in> set (sent s). \<not> is_exited ev" by simp
    moreover have l: "stream_of (sent s @ []) r (length (sent s)) = RecvErr (error_text err)"
      by (simp add: stream_of_def Some)
    ultimately have "recv_loop (stream_of (sent s) r) 0 [] =
        Some (1, outputs (sent s), [RecvFailed (error_text err)])"
      using stream_loop [of "sent s" "[]" r] by simp
    with pre Some show ?thesis by auto
  next
    case None
    obtain evs x where s: "sent s = evs @ [ServerEvent_Exited x]" "\<forall>ev \<in> set evs. \<not> is_exited ev"
      and x: "(evs = [] \<and> (\<exists>msg. x = error_info msg)) \<or> (\<exists>wr. proc s = Reaped wr \<and> x = exit_info wr)"
      by (rule sent_ends [OF assms(1) assms(2) [unfolded None]])
    have l: "stream_of (evs @ [ServerEvent_Exited x]) r (length evs) = RecvEvent (ServerEvent_Exited x)"
      by (simp add: stream_of_def)
    have loop: "recv_loop (stream_of (sent s) r) 0 [] =
        Some (sint (exit_ExitCode x), outputs evs, snd (last_result (RecvEvent (ServerEvent_Exited x))))"
      using stream_loop [of evs "[ServerEvent_Exited x]" r] s by (simp add: l)
    have out: "outputs evs = outputs (sent s)" "prefix (outputs evs) (wrote s)" using pre s by simp_all
    from x show ?thesis
    proof
      assume "evs = [] \<and> (\<exists>msg. x = error_info msg)"
      with loop out s None show ?thesis by (auto simp: error_info_def)
    next
      assume "\<exists>wr. proc s = Reaped wr \<and> x = exit_info wr"
      then obtain wr where wr: "proc s = Reaped wr" "x = exit_info wr" by blast
      with loop out None show ?thesis
        by (intro exI [of _ "sint (exit_ExitCode x)"] exI [of _ "outputs evs"]
            exI [of _ "snd (last_result (RecvEvent (ServerEvent_Exited x)))"] conjI)
          (auto simp: exit_info_def small process_status_def split: wait_result.splits)
    qed
  qed
qed

lemma client_sees_exit_witness:
  "\<exists>msgs. recv_loop (stream_of (sent (exec_after echo_acts)) None) 0 [] = Some (0, ''hi'', msgs)"
  using client_sees_exit [OF exec_after_reach [OF exec_runs_exist(1)] echo_end(1)] by (auto simp: echo_end)

section \<open>Identifiers\<close>

text \<open>The identifier of a command is its sixteen random bytes: 32 characters, different for
  different bytes.\<close>

lemma randomID_faithful:
  "length (randomID bs) = 2 * length bs \<and> (length bs = length cs \<longrightarrow> randomID bs = randomID cs \<longrightarrow> bs = cs)"
proof (intro conjI impI)
  show "length (randomID bs) = 2 * length bs" by (induction bs) (simp_all add: randomID_def)
  assume "length bs = length cs" "randomID bs = randomID cs"
  then show "bs = cs"
  proof (induction bs cs rule: list_induct2)
    case (Cons b bs c cs)
    have "unat b div 16 < 16" "unat c div 16 < 16"
      using unsigned_less [of b, where 'a = nat] unsigned_less [of c, where 'a = nat] by simp_all
    with Cons.prems have "unat b div 16 = unat c div 16" "unat b mod 16 = unat c mod 16"
      by (simp_all add: randomID_def hex_digit_eq)
    then have "unat b = unat c" by (metis div_mult_mod_eq)
    then have "b = c" by (simp only: unsigned_word_eqI)
    with Cons show ?case by (simp add: randomID_def)
  qed simp
qed

lemma randomID_faithful_witness: "randomID [1, 2] \<noteq> randomID [1, 3]"
  using randomID_faithful [of "[1, 2]" "[1, 3]"] by auto

end
