(* ===== verification/ExecDaemon.thy ===== *)
theory ExecDaemon
  imports ExecProps
begin

text \<open>
  The daemon, \<open>grpc_exec/cmd/grpc_execd/main.go\<close>: the main goroutine, the goroutine that waits
  for a signal, and the \<open>RunCommand\<close> calls that the gRPC server runs, each as
  \<open>ExecServer\<close> has it. Of gRPC the code uses what it documents: \<open>GracefulStop\<close> refuses new
  calls and waits for the pending ones; \<open>Serve\<close> fails if the server was stopped before it was
  called, and otherwise returns nil once the stop is over, or an error of the listener.
\<close>

section \<open>The program\<close>

text \<open>\<open>DExited\<close> holds the exit status; \<open>DKilled\<close> is the default action of a signal.\<close>

datatype daemon_pc =
    DFlags gostring | DListen gostring | DSpawn | DServe | DServing | DExited int | DKilled

datatype notifier_pc = NIdle | NRegister | NWait | NStop | NDone

record daemon =
  dmain :: daemon_pc
  notifier :: notifier_pc
  sigCh :: bool
  draining :: bool
  rpcs :: "exec_sys list"

definition init_daemon :: "gostring \<Rightarrow> daemon" where
  "init_daemon addr =
     \<lparr>dmain = DFlags addr, notifier = NIdle, sigCh = False, draining = False, rpcs = []\<rparr>"

definition returned :: "exec_sys \<Rightarrow> bool" where
  "returned s \<longleftrightarrow> (case main s of RDone r \<Rightarrow> True | _ \<Rightarrow> False)"

text \<open>The main goroutine: \<open>err\<close> is the error of \<open>net.Listen\<close> or of the listener, if any.\<close>

fun daemon_move :: "daemon_pc \<Rightarrow> gostring option \<Rightarrow> daemon \<Rightarrow> daemon option" where
  "daemon_move (DFlags addr) err d =
     Some (d\<lparr>dmain := (if addr = [] then DExited 1 else DListen addr)\<rparr>)"
| "daemon_move (DListen addr) err d =
     Some (d\<lparr>dmain := (if err \<noteq> None then DExited 1 else DSpawn)\<rparr>)"
| "daemon_move DSpawn err d = Some (d\<lparr>dmain := DServe, notifier := NRegister\<rparr>)"
| "daemon_move DServe err d = Some (d\<lparr>dmain := (if draining d then DExited 1 else DServing)\<rparr>)"
| "daemon_move DServing err d =
     (if draining d
      then (if \<forall>s \<in> set (rpcs d). returned s then Some (d\<lparr>dmain := DExited 0\<rparr>) else None)
      else (if err \<noteq> None then Some (d\<lparr>dmain := DExited 1\<rparr>) else None))"
| "daemon_move (DExited n) err d = None"
| "daemon_move DKilled err d = None"

text \<open>The signal goroutine: register, wait, stop the server.\<close>

fun notify_move :: "notifier_pc \<Rightarrow> daemon \<Rightarrow> daemon option" where
  "notify_move NIdle d = None"
| "notify_move NRegister d = Some (d\<lparr>notifier := NWait\<rparr>)"
| "notify_move NWait d = (if sigCh d then Some (d\<lparr>notifier := NStop, sigCh := False\<rparr>) else None)"
| "notify_move NStop d = Some (d\<lparr>notifier := NDone, draining := True\<rparr>)"
| "notify_move NDone d = None"

text \<open>A signal: fatal while nobody has registered for it; then it goes into the channel's one
  place, or is dropped.\<close>

definition on_signal :: "daemon \<Rightarrow> daemon" where
  "on_signal d =
     (if notifier d \<in> {NIdle, NRegister} then d\<lparr>dmain := DKilled\<rparr> else d\<lparr>sigCh := True\<rparr>)"

section \<open>Schedules\<close>

datatype daemon_action =
    DMain "gostring option" | DNotify | DSignal | DAccept | DRpc nat exec_action

definition alive :: "daemon \<Rightarrow> bool" where
  "alive d \<longleftrightarrow> (case dmain d of DExited n \<Rightarrow> False | DKilled \<Rightarrow> False | _ \<Rightarrow> True)"

fun daemon_act :: "daemon_action \<Rightarrow> daemon \<Rightarrow> daemon option" where
  "daemon_act (DMain err) d = daemon_move (dmain d) err d"
| "daemon_act DNotify d = notify_move (notifier d) d"
| "daemon_act DSignal d = Some (on_signal d)"
| "daemon_act DAccept d =
     (if dmain d = DServing \<and> \<not> draining d then Some (d\<lparr>rpcs := rpcs d @ [init_exec]\<rparr>) else None)"
| "daemon_act (DRpc k a) d =
     (if k < length (rpcs d)
      then map_option (\<lambda>s. d\<lparr>rpcs := (rpcs d)[k := s]\<rparr>) (exec_step a (rpcs d ! k)) else None)"

text \<open>Nothing moves after the process has ended.\<close>

definition daemon_step :: "daemon_action \<Rightarrow> daemon \<Rightarrow> daemon option" where
  "daemon_step a d = (if alive d then daemon_act a d else None)"

fun daemon_run :: "daemon_action list \<Rightarrow> daemon \<Rightarrow> daemon option" where
  "daemon_run [] d = Some d"
| "daemon_run (a # as) d = (case daemon_step a d of None \<Rightarrow> None | Some d1 \<Rightarrow> daemon_run as d1)"

inductive daemon_reach :: "daemon \<Rightarrow> bool" where
  init: "daemon_reach (init_daemon addr)"
| step: "daemon_reach d \<Longrightarrow> daemon_step a d = Some d' \<Longrightarrow> daemon_reach d'"

lemma daemon_reach_run: "daemon_reach d \<Longrightarrow> daemon_run as d = Some d' \<Longrightarrow> daemon_reach d'"
  by (induction as arbitrary: d) (auto split: option.splits intro: daemon_reach.step)

lemma daemon_run_append:
  "daemon_run (as @ bs) d = (case daemon_run as d of None \<Rightarrow> None | Some d1 \<Rightarrow> daemon_run bs d1)"
  by (induction as arbitrary: d) (auto split: option.splits)

section \<open>A returned call has no command left\<close>

definition done_rule :: "exec_sys \<Rightarrow> bool" where
  "done_rule s \<longleftrightarrow> (returned s \<longrightarrow> proc s = NoProc \<or> (\<exists>wr. proc s = Reaped wr))"

lemma unstarted_no_proc: "waiter_rule s \<Longrightarrow> unstarted (main s) \<Longrightarrow> proc s = NoProc"
  by (cases "main s"; auto simp: waiter_rule_def split: wait_pc.splits)

lemma took_wait: "waiter_rule s \<Longrightarrow> waitCh s = Some wr \<Longrightarrow> proc s = Reaped wr"
  by (auto simp: waiter_rule_def before_wait_def split: wait_pc.splits)

lemma after_take: "waiter_rule s \<Longrightarrow> main s = RCheck i \<or> main s = RExit i \<Longrightarrow> \<exists>wr. proc s = Reaped wr"
  by (auto simp: waiter_rule_def before_wait_def split: wait_pc.splits)

lemma main_done_rule:
  assumes w: "waiter_rule s" and m: "main_move (main s) a s = Some s'"
  shows "done_rule s'"
proof (cases "unstarted (main s)")
  case True
  with w have "proc s = NoProc" by (rule unstarted_no_proc)
  with True m show ?thesis
    by (cases "main s") (auto simp: done_rule_def returned_def split: exec_answer.splits ClientEvent.splits)
next
  case False
  show ?thesis
  proof (cases "main s")
    case (RCheck i)
    with m w show ?thesis using after_take [OF w] by (auto simp: done_rule_def returned_def split: if_splits)
  next
    case (RExit i)
    with m w show ?thesis using after_take [OF w] by (auto simp: done_rule_def returned_def split: exec_answer.splits)
  next
    case (RDrain err)
    with m w show ?thesis using took_wait [OF w] by (auto simp: done_rule_def returned_def split: option.splits)
  next
    case RRead
    with m show ?thesis
      by (auto simp: done_rule_def returned_def split: exec_answer.splits option.splits prod.splits if_splits)
  qed (use m False in \<open>auto simp: done_rule_def returned_def split: exec_answer.splits option.splits proc.splits if_splits\<close>)
qed

lemma step_done_rule:
  assumes w: "waiter_rule s" and d: "done_rule s" and h: "exec_step a s = Some s'"
  shows "done_rule s'"
  using h
proof (cases rule: exec_step_cases)
  case (main b)
  show ?thesis by (rule main_done_rule [OF w main])
next
  case wait
  with d show ?thesis
    by (cases "waiter s") (auto simp: done_rule_def returned_def split: proc.splits if_splits)
next
  case (recv b)
  with d show ?thesis using recv_same_core [OF recv] by (auto simp: done_rule_def returned_def same_core_def)
next
  case (ctx f)
  with d show ?thesis using ctx_same_core [OF ctx] by (auto simp: done_rule_def returned_def same_core_def)
next
  case (timer f)
  with d show ?thesis using timer_same_core [OF timer] by (auto simp: done_rule_def returned_def same_core_def)
qed (use d in \<open>auto simp: done_rule_def returned_def\<close>)

lemma exec_reach_done: "exec_reach s \<Longrightarrow> done_rule s"
proof (induction rule: exec_reach.induct)
  case init
  show ?case by (simp add: init_exec_def done_rule_def returned_def)
next
  case (step s a s')
  then show ?case using reach_rules [OF step.hyps(1)] step_done_rule by blast
qed

section \<open>Reachable states\<close>

fun early :: "daemon_pc \<Rightarrow> bool" where
  "early (DFlags _) = True" | "early (DListen _) = True" | "early DSpawn = True" | "early _ = False"

definition daemon_rule :: "daemon \<Rightarrow> bool" where
  "daemon_rule d \<longleftrightarrow>
     (\<forall>s \<in> set (rpcs d). exec_reach s) \<and>
     (dmain d = DExited 0 \<longrightarrow> draining d \<and> (\<forall>s \<in> set (rpcs d). returned s)) \<and>
     (draining d \<longrightarrow> notifier d = NDone) \<and> (early (dmain d) \<longrightarrow> notifier d = NIdle)"

lemma daemon_act_rule:
  assumes "daemon_rule d" and "daemon_act a d = Some d'" and "alive d"
  shows "daemon_rule d'"
proof (cases a)
  case (DMain err)
  with assms show ?thesis
    by (cases "dmain d") (auto simp: daemon_rule_def alive_def split: if_splits)
next
  case DNotify
  with assms show ?thesis
    by (cases "notifier d") (auto simp: daemon_rule_def alive_def split: if_splits)
next
  case DSignal
  with assms show ?thesis
    by (cases "notifier d \<in> {NIdle, NRegister}") (auto simp: daemon_rule_def on_signal_def)
next
  case DAccept
  with assms show ?thesis by (auto simp: daemon_rule_def intro: exec_reach.init split: if_splits)
next
  case (DRpc k b)
  with assms obtain s where s: "k < length (rpcs d)" "exec_step b (rpcs d ! k) = Some s"
    "d' = d\<lparr>rpcs := (rpcs d)[k := s]\<rparr>" by (auto split: if_splits)
  have "exec_reach s"
    using assms(1) s nth_mem [OF s(1)] by (auto simp: daemon_rule_def intro: exec_reach.step)
  moreover have "dmain d \<noteq> DExited 0" using assms(3) by (auto simp: alive_def)
  ultimately show ?thesis using assms(1) s(3) set_update_subset_insert [of "rpcs d" k s]
    by (auto simp: daemon_rule_def)
qed

lemma daemon_reach_rule: "daemon_reach d \<Longrightarrow> daemon_rule d"
proof (induction rule: daemon_reach.induct)
  case (step d a d')
  then show ?case using daemon_act_rule by (auto simp: daemon_step_def split: if_splits)
qed (simp add: daemon_rule_def init_daemon_def)

section \<open>The end of the daemon\<close>

text \<open>C15. A clean exit leaves nothing behind: when the daemon has exited with status 0, every
  \<open>RunCommand\<close> call it accepted has returned, and every command started has been waited for.\<close>

theorem daemon_exit_clean:
  assumes "daemon_reach d" and "dmain d = DExited 0" and "s \<in> set (rpcs d)"
  shows "(\<exists>r. main s = RDone r) \<and> (proc s = NoProc \<or> (\<exists>wr. proc s = Reaped wr))"
proof -
  have r: "exec_reach s" "returned s"
    using daemon_reach_rule [OF assms(1)] assms(2,3) by (auto simp: daemon_rule_def)
  then have "\<exists>r. main s = RDone r" by (simp add: returned_def split: main_pc.splits)
  with exec_reach_done [OF r(1)] r(2) show ?thesis by (simp add: done_rule_def)
qed

lemma daemon_run_rpc:
  assumes "exec_run as (rpcs d ! k) = Some s" and "k < length (rpcs d)" and "alive d"
  shows "daemon_run (map (DRpc k) as) d = Some (d\<lparr>rpcs := (rpcs d)[k := s]\<rparr>)"
  using assms
proof (induction as arbitrary: d)
  case (Cons a as)
  then obtain s1 where s1: "exec_step a (rpcs d ! k) = Some s1" "exec_run as s1 = Some s"
    by (auto split: option.splits)
  let ?d = "d\<lparr>rpcs := (rpcs d)[k := s1]\<rparr>"
  have "alive ?d" using Cons.prems(3) by (simp add: alive_def)
  with Cons.IH [of ?d] Cons.prems s1 show ?case by (simp add: daemon_step_def)
next
  case Nil
  then have "(rpcs d)[k := s] = rpcs d" by auto
  then show ?case by simp
qed

text \<open>A call that has returned or whose command has exited can be run to its end.\<close>

definition can_end :: "exec_sys \<Rightarrow> bool" where
  "can_end s \<longleftrightarrow> returned s \<or> gone s"

lemma can_end_run:
  assumes "exec_reach s" and "can_end s"
  shows "\<exists>as s'. length as \<le> 18 \<and> exec_run as s = Some s' \<and> returned s'"
proof (cases "returned s")
  case True
  then show ?thesis by (intro exI [of _ "[]"] exI [of _ s]) simp
next
  case False
  have "main_rank pc \<le> 10" for pc by (cases pc) simp_all
  moreover have "wait_rank pc \<le> 6" for pc by (cases pc) simp_all
  moreover have "deadline_rank d \<le> 2" for d by (cases d) simp_all
  ultimately have "exec_rank s \<le> 10 + 6 + 2" unfolding exec_rank_def by (intro add_mono)
  moreover have "gone s" using False assms(2) by (simp add: can_end_def)
  with exec_finishes [OF assms(1)] obtain as s' where
    "length as \<le> exec_rank s" "exec_run as s = Some s'" "\<exists>r. main s' = RDone r" by blast
  ultimately show ?thesis by (intro exI [of _ as] exI [of _ s']) (auto simp: returned_def)
qed

lemma calls_end:
  assumes "\<forall>s \<in> set (rpcs d). exec_reach s \<and> can_end s" and "alive d" and "n \<le> length (rpcs d)"
  shows "\<exists>as ss. length as \<le> 18 * n \<and> daemon_run as d = Some (d\<lparr>rpcs := ss @ drop n (rpcs d)\<rparr>) \<and>
     length ss = n \<and> (\<forall>s \<in> set ss. returned s)"
  using assms(3)
proof (induction n)
  case 0
  show ?case by (intro exI [of _ "[]"]) simp
next
  case (Suc n)
  then obtain as ss where as: "length as \<le> 18 * n" "length ss = n" "\<forall>s \<in> set ss. returned s"
    and r: "daemon_run as d = Some (d\<lparr>rpcs := ss @ drop n (rpcs d)\<rparr>)" by auto
  from Suc.prems have d: "drop n (rpcs d) = rpcs d ! n # drop (Suc n) (rpcs d)" by (simp add: Cons_nth_drop_Suc)
  have "rpcs d ! n \<in> set (rpcs d)" using Suc.prems by simp
  with assms(1) can_end_run obtain bs s where bs: "length bs \<le> 18" "exec_run bs (rpcs d ! n) = Some s" "returned s"
    by blast
  have "daemon_run (map (DRpc n) bs) (d\<lparr>rpcs := ss @ drop n (rpcs d)\<rparr>) =
      Some (d\<lparr>rpcs := (ss @ [s]) @ drop (Suc n) (rpcs d)\<rparr>)"
    using daemon_run_rpc [of bs "d\<lparr>rpcs := ss @ drop n (rpcs d)\<rparr>" n s] bs as(2) d assms(2) Suc.prems
    by (simp add: alive_def nth_append list_update_append)
  with r as bs show ?case
    by (intro exI [of _ "as @ map (DRpc n) bs"] exI [of _ "ss @ [s]"]) (auto simp: daemon_run_append)
qed

text \<open>The daemon drains: once the signal goroutine has stopped the server, and the command of
  every pending call has exited, at most eighteen moves for each call and one more end the
  process with status 0.\<close>

theorem daemon_drains:
  assumes "daemon_reach d" and "draining d" and "dmain d = DServing"
    and "\<forall>s \<in> set (rpcs d). can_end s"
  shows "\<exists>as d'. length as \<le> 18 * length (rpcs d) + 1 \<and> daemon_run as d = Some d' \<and> dmain d' = DExited 0"
proof -
  have a: "alive d" by (simp add: alive_def assms(3))
  have "\<forall>s \<in> set (rpcs d). exec_reach s \<and> can_end s"
    using daemon_reach_rule [OF assms(1)] assms(4) by (simp add: daemon_rule_def)
  from calls_end [OF this a order_refl] obtain as ss where
    as: "length as \<le> 18 * length (rpcs d)" "daemon_run as d = Some (d\<lparr>rpcs := ss\<rparr>)" "\<forall>s \<in> set ss. returned s"
    by auto
  have "daemon_run (as @ [DMain None]) d = Some (d\<lparr>rpcs := ss, dmain := DExited 0\<rparr>)"
    using as(2,3) assms(2,3) by (simp add: daemon_run_append daemon_step_def alive_def)
  with as(1) show ?thesis by (intro exI [of _ "as @ [DMain None]"]) simp
qed

section \<open>Sample runs\<close>

definition serve_acts :: "daemon_action list" where
  "serve_acts = [DMain None, DMain None, DMain None, DNotify, DMain None, DAccept] @
     map (DRpc 0) (boot_acts @ [AExit WaitOk]) @ [DSignal, DNotify, DNotify]"

definition served :: daemon where
  "served = the (daemon_run serve_acts (init_daemon ''/tmp/s''))"

lemma serve_run: "daemon_run serve_acts (init_daemon ''/tmp/s'') \<noteq> None"
  by (simp add: serve_acts_def init_daemon_def daemon_step_def alive_def on_signal_def exec_simps)

lemma served:
  "daemon_reach served" "draining served" "dmain served = DServing" "\<forall>s \<in> set (rpcs served). can_end s"
proof -
  show "daemon_reach served"
    using serve_run daemon_reach_run [OF daemon_reach.init] by (auto simp: served_def)
qed (simp_all add: served_def serve_acts_def init_daemon_def daemon_step_def alive_def on_signal_def
    exec_simps can_end_def gone_def)

lemma daemon_drains_witness:
  "\<exists>as d'. daemon_run as served = Some d' \<and> dmain d' = DExited 0"
  using daemon_drains [OF served] by blast

definition clean_acts :: "daemon_action list" where
  "clean_acts = [DMain None, DMain None, DMain None, DNotify, DMain None, DAccept] @
     map (DRpc 0) echo_acts @ [DSignal, DNotify, DNotify, DMain None]"

lemma clean_run:
  "\<exists>d s. daemon_run clean_acts (init_daemon ''/tmp/s'') = Some d \<and> dmain d = DExited 0 \<and> rpcs d = [s]"
  by (simp add: clean_acts_def init_daemon_def daemon_step_def alive_def on_signal_def exec_simps returned_def)

lemma daemon_exit_clean_witness:
  "\<exists>(d :: daemon) s. dmain d = DExited 0 \<and> rpcs d = [s] \<and> (\<exists>r. main s = RDone r)"
proof -
  obtain d s where d: "daemon_run clean_acts (init_daemon ''/tmp/s'') = Some d" "dmain d = DExited 0" "rpcs d = [s]"
    using clean_run by blast
  have "\<exists>r. main s = RDone r"
    using daemon_exit_clean [OF daemon_reach_run [OF daemon_reach.init d(1)] d(2), of s] d(3) by simp
  with d show ?thesis by blast
qed

section \<open>An early signal\<close>

text \<open>The signal goroutine may stop the server before \<open>Serve\<close> is called; \<open>Serve\<close> then fails,
  and a shutdown that was asked for ends with status 1.\<close>

theorem early_signal_fails:
  "\<exists>d. daemon_reach d \<and> dmain d = DExited 1 \<and> draining d"
proof -
  let ?as = "[DMain None, DMain None, DMain None, DNotify, DSignal, DNotify, DNotify, DMain None]"
  have "\<exists>d. daemon_run ?as (init_daemon ''/tmp/s'') = Some d \<and> dmain d = DExited 1 \<and> draining d"
    by (simp add: init_daemon_def daemon_step_def alive_def on_signal_def)
  then show ?thesis using daemon_reach_run [OF daemon_reach.init] by blast
qed

end
