(* ===== verification/ExecFair.thy ===== *)
theory ExecFair
  imports ExecProps Fairness
begin

text \<open>
  \<open>RunCommand\<close> of \<open>server.go\<close> returns on every fair run once its command has exited, whatever
  the client, the goroutines that listen to it and the holders of the pipe do in between.
\<close>

section \<open>Threads and measures\<close>

text \<open>The handler, the goroutine that waits for the command, and the clock of the read deadline.\<close>

datatype exec_thread = THandler | TWaiter | TClock

fun exec_thread_moves :: "exec_thread \<Rightarrow> exec_sys \<Rightarrow> exec_action \<Rightarrow> bool" where
  "exec_thread_moves THandler s (AMain b) = True"
| "exec_thread_moves TWaiter s AWait = True"
| "exec_thread_moves TClock s ADeadline = True"
| "exec_thread_moves _ _ _ = False"

definition return_inv :: "exec_sys \<Rightarrow> bool" where
  "return_inv s \<longleftrightarrow> exec_reach s \<and> gone s"

definition is_done :: "exec_sys \<Rightarrow> bool" where
  "is_done s \<longleftrightarrow> (\<exists>r. main s = RDone r)"

text \<open>Until the waiter is started the handler helps, then the waiter, then the clock, and then the
  handler again, whose reads now fail.\<close>

definition return_helper :: "exec_sys \<Rightarrow> exec_thread" where
  "return_helper s =
     (case waiter s of
        WIdle \<Rightarrow> THandler
      | WDone \<Rightarrow> if deadline s = Passed then THandler else TClock
      | _ \<Rightarrow> TWaiter)"

definition return_measure :: "exec_sys \<Rightarrow> nat" where
  "return_measure s =
     (case waiter s of
        WIdle \<Rightarrow> 40 + main_rank (main s)
      | WDone \<Rightarrow> if deadline s = Passed then main_rank (main s) else 20
      | pc \<Rightarrow> 21 + wait_rank pc)"

lemmas return_defs = return_helper_def return_measure_def is_done_def

section \<open>One step\<close>

lemma return_frame:
  assumes "main s' = main s" "waiter s' = waiter s" "deadline s' = deadline s"
  shows "return_measure s' = return_measure s" "return_helper s' = return_helper s"
  using assms by (cases "waiter s"; simp add: return_measure_def return_helper_def)+

lemma return_same_core: "same_core s s' \<Longrightarrow>
    gone s' = gone s \<and> return_measure s' = return_measure s \<and> return_helper s' = return_helper s"
  using return_frame [of s' s] by (simp add: same_core_def gone_def)

lemma main_rank_le: "main_rank pc \<le> 10"
  by (cases pc) simp_all

lemma gone_booting: "waiter_rule s \<Longrightarrow> waiter s = WIdle \<Longrightarrow> gone s \<Longrightarrow> \<not> is_done s \<Longrightarrow> booting (main s)"
  by (auto simp: waiter_rule_def gone_def is_done_def)

lemma gone_kept: "exec_step x s = Some s' \<Longrightarrow> waiter_rule s \<Longrightarrow> gone s \<Longrightarrow> gone s'"
proof (elim exec_step_cases)
  fix b
  assume "main_move (main s) b s = Some s'" "gone s" "waiter_rule s"
  then show "gone s'"
    by (cases "main s")
      (auto simp: gone_def waiter_rule_def before_wait_def
        split: exec_answer.splits ClientEvent.splits option.splits proc.splits if_splits prod.splits wait_pc.splits
        dest!: pipe_read_cases)
next
  assume "wait_move (waiter s) s = Some s'" "gone s"
  then show "gone s'" by (cases "waiter s") (auto simp: gone_def split: proc.splits if_splits)
next
  fix f
  assume "timer_move f s = Some s'" "gone s"
  then show "gone s'" using return_same_core [OF timer_same_core] by simp
qed (use return_same_core [OF recv_same_core] return_same_core [OF ctx_same_core] in \<open>(auto simp: gone_def)\<close>)

lemma main_step:
  assumes m: "main_move (main s) b s = Some s'" and w: "waiter_rule s" and g: "gone s" and n: "\<not> is_done s"
  shows "is_done s' \<or> return_measure s' < return_measure s \<or>
     return_measure s' = return_measure s \<and> return_helper s' = return_helper s \<and> return_helper s \<noteq> THandler"
proof (cases "waiter s = WIdle")
  case True
  have "booting (main s)" by (rule gone_booting [OF w True g n])
  with m True show ?thesis
    by (cases "main s") (auto simp: return_defs split: exec_answer.splits proc.splits)
next
  case False
  then have "\<not> booting (main s)" "\<not> unstarted (main s)"
    using w n by (cases "main s"; auto simp: waiter_rule_def is_done_def split: wait_pc.splits)+
  then have f: "waiter s' = waiter s \<and> deadline s' = deadline s \<and>
      (deadline s = Passed \<longrightarrow> main_rank (main s') < main_rank (main s))"
    using m n by (cases "main s")
      (auto simp: is_done_def pipe_read_def split: exec_answer.splits option.splits if_splits prod.splits)
  show ?thesis
  proof (cases "waiter s = WDone \<and> deadline s = Passed")
    case True
    with f show ?thesis by (simp add: return_measure_def)
  next
    case other: False
    with f False show ?thesis by (cases "waiter s") (auto simp: return_measure_def return_helper_def)
  qed
qed

lemma wait_step:
  assumes m: "wait_move (waiter s) s = Some s'"
  shows "return_measure s' < return_measure s"
proof -
  have "waiter s' = WDone \<longrightarrow> return_measure s' \<le> 20" using main_rank_le [of "main s'"] by (simp add: return_measure_def)
  with m show ?thesis
    by (cases "waiter s") (auto simp: return_measure_def split: proc.splits if_splits)
qed

text \<open>The moves of everybody else.\<close>

lemma other_step:
  assumes h: "exec_step x s = Some s'" and g: "gone s" and n: "\<And>b. x \<noteq> AMain b" "x \<noteq> AWait"
  shows "return_measure s' < return_measure s \<and> x = ADeadline \<or>
     return_measure s' = return_measure s \<and> return_helper s' = return_helper s \<and> \<not> (x = ADeadline \<and> return_helper s = TClock)"
proof (cases x)
  case ADeadline
  then have d: "deadline s = Armed" "s' = s\<lparr>deadline := Passed\<rparr>" using h by (auto split: if_splits)
  with ADeadline main_rank_le [of "main s"] show ?thesis
    by (cases "waiter s") (simp_all add: return_measure_def return_helper_def)
next
  case (ARecv b)
  with h return_same_core [OF recv_same_core] show ?thesis by simp
next
  case (ACtx b)
  with h return_same_core [OF ctx_same_core] show ?thesis by simp
next
  case (ATimer b)
  with h return_same_core [OF timer_same_core] show ?thesis by simp
next
  case (AExit wr)
  with h g show ?thesis by (auto simp: gone_def split: if_splits)
qed (use h n in \<open>auto intro!: return_frame split: if_splits\<close>)

lemma handler_enabled:
  assumes w: "waiter_rule s" and g: "gone s" and n: "\<not> is_done s" and h: "return_helper s = THandler"
  shows "\<exists>b. exec_step (AMain b) s \<noteq> None"
proof (cases "waiter s = WIdle")
  case True
  then have b: "booting (main s)" and z: "\<exists>wr. proc s = Zombie wr"
    using w g n gone_booting [OF w True g n] by (auto simp: waiter_rule_def gone_def is_done_def)
  show ?thesis
  proof (cases "main s")
    case RStarted
    then show ?thesis by (intro exI [of _ "Random []"]) simp
  qed (use b z in auto)
next
  case False
  then have d: "waiter s = WDone" "deadline s = Passed"
    using h by (auto simp: return_helper_def split: wait_pc.splits if_splits)
  then obtain wr where "waitCh s = Some wr \<and> running (main s) \<or> waitCh s = None \<and> took wr (main s)"
    using w by (auto simp: waiter_rule_def)
  then show ?thesis
  proof (cases "main s")
    case RRead
    with d show ?thesis by (intro exI [of _ "Bytes 0"]) (simp add: pipe_read_def)
  next
    case (RSend b failed)
    then show ?thesis by (intro exI [of _ Ok]) simp
  next
    case (RExit i)
    then show ?thesis by (intro exI [of _ Ok]) simp
  qed (use n in \<open>auto simp: is_done_def\<close>)
qed

lemma waiter_enabled:
  assumes w: "waiter_rule s" and g: "gone s" and h: "return_helper s = TWaiter"
  shows "exec_step AWait s \<noteq> None"
  using assms by (cases "waiter s") (auto simp: return_helper_def waiter_rule_def gone_def split: proc.splits if_splits)

section \<open>RunCommand returns on every fair run\<close>

interpretation returning: response exec_step exec_thread_moves return_inv is_done return_measure return_helper
proof
  fix s s' x
  assume i: "return_inv s" and h: "exec_step x s = Some s'"
  then have w: "waiter_rule s" and g: "gone s" using reach_rules by (auto simp: return_inv_def)
  have "exec_reach s'" using exec_reach.step h i by (auto simp: return_inv_def)
  then show "return_inv s'" using gone_kept [OF h w g] by (simp add: return_inv_def)
  assume n: "\<not> is_done s"
  consider (main) b where "x = AMain b" | (wait) "x = AWait" | (other) "\<And>b. x \<noteq> AMain b" "x \<noteq> AWait" by blast
  then have all: "is_done s' \<or> return_measure s' < return_measure s \<or>
      return_measure s' = return_measure s \<and> return_helper s' = return_helper s \<and>
        \<not> exec_thread_moves (return_helper s) s x"
  proof cases
    case (main b)
    with h main_step [OF _ w g n, of b s'] show ?thesis by (cases "return_helper s") auto
  next
    case wait
    with h wait_step [of s s'] show ?thesis by simp
  next
    case other
    with other_step [OF h g other] show ?thesis
      by (cases "(return_helper s, s, x)" rule: exec_thread_moves.cases) auto
  qed
  then show "is_done s' \<or> return_measure s' < return_measure s \<or>
      return_measure s' = return_measure s \<and> return_helper s' = return_helper s" by blast
  assume "exec_thread_moves (return_helper s) s x"
  with all show "is_done s' \<or> return_measure s' < return_measure s" by blast
next
  fix s
  assume i: "return_inv s" and n: "\<not> is_done s"
  then have w: "waiter_rule s" and g: "gone s" using reach_rules by (auto simp: return_inv_def)
  show "enabled exec_step (exec_thread_moves (return_helper s)) s"
  proof (cases "return_helper s")
    case THandler
    with handler_enabled [OF w g n] show ?thesis unfolding enabled_def by (metis exec_thread_moves.simps(1))
  next
    case TWaiter
    with waiter_enabled [OF w g] show ?thesis unfolding enabled_def by (metis exec_thread_moves.simps(2))
  next
    case TClock
    then have "deadline s = Armed"
      using w by (cases "deadline s") (auto simp: return_helper_def waiter_rule_def split: wait_pc.splits if_splits)
    with TClock show ?thesis unfolding enabled_def by (intro exI [of _ ADeadline]) simp
  qed
qed

text \<open>C12. \<open>RunCommand\<close> returns on every fair run: once the command has exited, if the handler, the
  goroutine that waits for the command and the clock do not stop while they can move (for a
  sending handler, that gRPC answers), the handler returns, whatever the client sends, whoever
  keeps the pipe open and writes to it, and however the other goroutines run.\<close>

theorem exec_return_inevitable:
  assumes "exec_reach (p 0)" and "\<exists>wr. proc (p 0) = Zombie wr \<or> proc (p 0) = Reaped wr"
    and "runs exec_step p a" and "\<And>t. fair exec_step (exec_thread_moves t) p a"
  shows "\<exists>n r. main (p n) = RDone r"
proof -
  have "return_inv (p 0)" using assms(1,2) by (simp add: return_inv_def gone_def)
  from returning.inevitable [OF assms(3,4) this, of 0] show ?thesis by (auto simp: is_done_def)
qed

text \<open>A command that exits with output in the pipe; the rest of the run.\<close>

definition exited_acts :: "exec_action list" where
  "exited_acts = boot_acts @ [AWrite ''hi'', AExit WaitOk]"

definition rest_acts :: "exec_action list" where
  "rest_acts = [AMain (Bytes 2), AMain Ok] @ reap_acts @ [AWrite ''x'', ADeadline, AMain (Bytes 0), AMain Ok, AMain Ok, AMain Ok]"

lemma exec_return_inevitable_witness:
  "\<exists>n r. main (run_states exec_step rest_acts (exec_after exited_acts) n) = RDone r"
proof -
  let ?p = "run_states exec_step rest_acts (exec_after exited_acts)"
  have e: "exec_run exited_acts init_exec \<noteq> None" by (simp add: exec_simps exited_acts_def)
  have c: "exec_reach (?p 0)" using exec_after_reach [OF e] by simp
  have z: "\<exists>wr. proc (?p 0) = Zombie wr \<or> proc (?p 0) = Reaped wr" by (simp add: exec_simps exited_acts_def)
  have "run_ok exec_step rest_acts (exec_after exited_acts)" by (simp add: exec_simps exited_acts_def rest_acts_def)
  then have r: "runs exec_step ?p (run_actions rest_acts)" by (rule run_ok_runs)
  have "exec_step x (?p (length rest_acts)) = None" if "exec_thread_moves t (?p (length rest_acts)) x" for t x
    using that by (cases "(t, ?p (length rest_acts), x)" rule: exec_thread_moves.cases)
      (auto simp: exec_simps exited_acts_def rest_acts_def split: if_splits)
  then have "\<not> enabled exec_step (exec_thread_moves t) (?p (length rest_acts))" for t by (auto simp: enabled_def)
  then have f: "fair exec_step (exec_thread_moves t) ?p (run_actions rest_acts)" for t by (rule finite_fair)
  show ?thesis by (rule exec_return_inevitable [OF c z r f])
qed

end
