(* ===== verification/DaemonFair.thy ===== *)
theory DaemonFair
  imports ExecDaemon ExecFair
begin

text \<open>
  The daemon ends on every fair run once its server has been told to stop and the commands of
  its calls have exited (\<open>grpc_exec/cmd/grpc_execd/main.go\<close>). Each pending call returns
  by the laws of \<open>ExecFair\<close>, whatever the other calls do.
\<close>

section \<open>Threads and measures\<close>

text \<open>The main goroutine, and the threads of the \<open>k\<close>-th call.\<close>

datatype daemon_thread = TMain | TCall nat exec_thread

fun daemon_thread_moves :: "daemon_thread \<Rightarrow> daemon \<Rightarrow> daemon_action \<Rightarrow> bool" where
  "daemon_thread_moves TMain d (DMain err) = True"
| "daemon_thread_moves (TCall k t) d (DRpc l a) = (l = k \<and> k < length (rpcs d) \<and> exec_thread_moves t (rpcs d ! k) a)"
| "daemon_thread_moves _ d _ = False"

definition call_left :: "exec_sys \<Rightarrow> nat" where
  "call_left s = (if returned s then 0 else Suc (return_measure s))"

definition daemon_left :: "daemon \<Rightarrow> nat" where
  "daemon_left d = sum_list (map call_left (rpcs d))"

fun first_open :: "exec_sys list \<Rightarrow> nat option" where
  "first_open [] = None"
| "first_open (s # ss) = (if returned s then map_option Suc (first_open ss) else Some 0)"

definition daemon_helper :: "daemon \<Rightarrow> daemon_thread" where
  "daemon_helper d =
     (case first_open (rpcs d) of None \<Rightarrow> TMain | Some k \<Rightarrow> TCall k (return_helper (rpcs d ! k)))"

definition drain_inv :: "daemon \<Rightarrow> bool" where
  "drain_inv d \<longleftrightarrow> daemon_reach d \<and> draining d \<and> dmain d \<in> {DServing, DExited 0} \<and> (\<forall>s \<in> set (rpcs d). can_end s)"

section \<open>One step of a call\<close>

lemma returned_is_done: "returned s = is_done s"
  by (auto simp: returned_def is_done_def split: main_pc.splits)

lemma returned_kept: "exec_step a s = Some s' \<Longrightarrow> returned s \<Longrightarrow> returned s'"
proof (elim exec_step_cases)
  fix b assume "main_move (main s) b s = Some s'" "returned s"
  then show "returned s'" by (auto simp: returned_def split: main_pc.splits)
next
  assume "wait_move (waiter s) s = Some s'" "returned s"
  then show "returned s'" using wait_move_frame [of "waiter s" s s'] by (auto simp: returned_def)
next
  fix b assume "recv_move (listener s) b s = Some s'" "returned s"
  then show "returned s'" using recv_same_core by (fastforce simp: returned_def same_core_def)
next
  fix b assume "ctx_move (watcher s) b s = Some s'" "returned s"
  then show "returned s'" using ctx_same_core by (fastforce simp: returned_def same_core_def)
next
  fix b assume "timer_move b s = Some s'" "returned s"
  then show "returned s'" using timer_same_core by (fastforce simp: returned_def same_core_def)
qed (auto simp: returned_def)

lemma can_end_kept: "exec_reach s \<Longrightarrow> exec_step a s = Some s' \<Longrightarrow> can_end s \<Longrightarrow> can_end s'"
  using returned_kept gone_kept reach_rules unfolding can_end_def by blast

lemma call_step:
  assumes r: "exec_reach s" and e: "can_end s" and h: "exec_step a s = Some s'"
  shows "call_left s' < call_left s \<or> call_left s' = call_left s \<and> returned s' = returned s \<and>
     (\<not> returned s \<longrightarrow> return_helper s' = return_helper s \<and> \<not> exec_thread_moves (return_helper s) s a)"
proof (cases "returned s")
  case True
  with returned_kept [OF h] show ?thesis by (simp add: call_left_def)
next
  case False
  with e r have i: "return_inv s" by (simp add: return_inv_def can_end_def)
  have n: "\<not> is_done s" using False by (simp add: returned_is_done)
  from returning.waits [OF i n h] returning.helps [OF i n h] False show ?thesis
    by (auto simp: call_left_def returned_is_done)
qed

section \<open>One step of the daemon\<close>

lemma first_open_Some: "first_open ss = Some k \<Longrightarrow> k < length ss \<and> \<not> returned (ss ! k)"
  by (induction ss arbitrary: k) (auto split: if_splits)

lemma first_open_None: "first_open ss = None \<longleftrightarrow> (\<forall>s \<in> set ss. returned s)"
  by (induction ss) auto

lemma first_open_update: "l < length ss \<Longrightarrow> returned s = returned (ss ! l) \<Longrightarrow> first_open (ss[l := s]) = first_open ss"
  by (induction ss arbitrary: l) (auto split: nat.splits)

lemma sum_left_update:
  "l < length ss \<Longrightarrow> sum_list (map call_left (ss[l := s])) + call_left (ss ! l) = sum_list (map call_left ss) + call_left s"
  by (induction ss arbitrary: l) (auto split: nat.splits)

lemma same_rpcs: "rpcs d' = rpcs d \<Longrightarrow> daemon_left d' = daemon_left d \<and> daemon_helper d' = daemon_helper d"
  by (cases "first_open (rpcs d)") (simp_all add: daemon_left_def daemon_helper_def)

lemma rpc_step:
  assumes i: "drain_inv d" and h: "daemon_step (DRpc l a) d = Some d'"
  shows "drain_inv d' \<and> (daemon_left d' < daemon_left d \<or> daemon_left d' = daemon_left d \<and>
     daemon_helper d' = daemon_helper d \<and> \<not> daemon_thread_moves (daemon_helper d) d (DRpc l a))"
proof -
  obtain s where s: "l < length (rpcs d)" "exec_step a (rpcs d ! l) = Some s" "d' = d\<lparr>rpcs := (rpcs d)[l := s]\<rparr>"
    using h by (auto simp: daemon_step_def split: if_splits)
  have m: "rpcs d ! l \<in> set (rpcs d)" using s(1) by simp
  have r: "exec_reach (rpcs d ! l)" and e: "can_end (rpcs d ! l)"
    using i m daemon_reach_rule by (auto simp: drain_inv_def daemon_rule_def)
  have "can_end s" by (rule can_end_kept [OF r s(2) e])
  then have "\<forall>x \<in> set (rpcs d'). can_end x"
    using i set_update_subset_insert [of "rpcs d" l s] by (auto simp: s(3) drain_inv_def)
  then have i': "drain_inv d'" using i daemon_reach.step [OF _ h] by (auto simp: drain_inv_def s(3))
  have sum: "daemon_left d' + call_left (rpcs d ! l) = daemon_left d + call_left s"
    using sum_left_update [OF s(1)] by (simp add: daemon_left_def s(3))
  show ?thesis
  proof (cases "call_left s < call_left (rpcs d ! l)")
    case True
    with sum i' show ?thesis by simp
  next
    case False
    with call_step [OF r e s(2)] have eq: "call_left s = call_left (rpcs d ! l)" "returned s = returned (rpcs d ! l)"
      "\<not> returned (rpcs d ! l) \<Longrightarrow> return_helper s = return_helper (rpcs d ! l) \<and>
         \<not> exec_thread_moves (return_helper (rpcs d ! l)) (rpcs d ! l) a" by auto
    have f: "first_open (rpcs d') = first_open (rpcs d)" using first_open_update [OF s(1) eq(2)] by (simp add: s(3))
    have "daemon_helper d' = daemon_helper d \<and> \<not> daemon_thread_moves (daemon_helper d) d (DRpc l a)"
    proof (cases "first_open (rpcs d)")
      case None
      with f show ?thesis by (simp add: daemon_helper_def)
    next
      case (Some k)
      note k = first_open_Some [OF Some]
      show ?thesis
      proof (cases "k = l")
        case True
        with k eq(3) f Some s(1) show ?thesis by (simp add: daemon_helper_def s(3))
      next
        case False
        with f Some show ?thesis by (simp add: daemon_helper_def s(3))
      qed
    qed
    with sum eq(1) i' show ?thesis by simp
  qed
qed

section \<open>The daemon ends on every fair run\<close>

interpretation draining: response daemon_step daemon_thread_moves drain_inv "\<lambda>d. dmain d = DExited 0" daemon_left daemon_helper
proof
  fix d d' x
  assume i: "drain_inv d" and h: "daemon_step x d = Some d'"
  have r: "daemon_reach d'" using i daemon_reach.step [OF _ h] by (simp add: drain_inv_def)
  have nd: "notifier d = NDone" using i daemon_reach_rule by (auto simp: drain_inv_def daemon_rule_def)
  have m: "dmain d = DServing" using i h by (auto simp: drain_inv_def daemon_step_def alive_def)
  have all: "drain_inv d' \<and> (dmain d' = DExited 0 \<or> daemon_left d' < daemon_left d \<or>
      daemon_left d' = daemon_left d \<and> daemon_helper d' = daemon_helper d \<and> \<not> daemon_thread_moves (daemon_helper d) d x)"
  proof (cases x)
    case (DMain err)
    with h i m have "d' = d\<lparr>dmain := DExited 0\<rparr>"
      by (auto simp: daemon_step_def drain_inv_def split: if_splits)
    with i r show ?thesis by (simp add: drain_inv_def)
  next
    case DNotify
    with h nd show ?thesis by (auto simp: daemon_step_def split: if_splits)
  next
    case DSignal
    with h nd have d': "d' = d\<lparr>sigCh := True\<rparr>" by (auto simp: daemon_step_def on_signal_def split: if_splits)
    have "drain_inv d'" using i r by (simp add: d' drain_inv_def)
    with DSignal same_rpcs [of d' d] show ?thesis by (simp add: d')
  next
    case DAccept
    with h i show ?thesis by (auto simp: daemon_step_def drain_inv_def split: if_splits)
  next
    case (DRpc l a)
    with rpc_step [OF i, of l a d'] h show ?thesis by blast
  qed
  then show "drain_inv d'" ..
  from all show "dmain d' = DExited 0 \<or> daemon_left d' < daemon_left d \<or>
      daemon_left d' = daemon_left d \<and> daemon_helper d' = daemon_helper d" by blast
  assume "daemon_thread_moves (daemon_helper d) d x"
  with all show "dmain d' = DExited 0 \<or> daemon_left d' < daemon_left d" by blast
next
  fix d
  assume i: "drain_inv d" and g: "dmain d \<noteq> DExited 0"
  then have m: "dmain d = DServing" and a: "alive d" by (auto simp: drain_inv_def alive_def)
  show "enabled daemon_step (daemon_thread_moves (daemon_helper d)) d"
  proof (cases "first_open (rpcs d)")
    case None
    then have "\<forall>s \<in> set (rpcs d). returned s" by (simp add: first_open_None)
    with i m a None show ?thesis unfolding enabled_def
      by (intro exI [of _ "DMain None"]) (simp add: daemon_helper_def daemon_step_def drain_inv_def)
  next
    case (Some k)
    note k = first_open_Some [OF Some]
    then have "rpcs d ! k \<in> set (rpcs d)" by simp
    then have "return_inv (rpcs d ! k)"
      using i k daemon_reach_rule by (auto simp: return_inv_def drain_inv_def daemon_rule_def can_end_def)
    from returning.ready [OF this] k obtain b where "exec_thread_moves (return_helper (rpcs d ! k)) (rpcs d ! k) b"
      "exec_step b (rpcs d ! k) \<noteq> None" by (auto simp: enabled_def returned_is_done)
    with k a Some show ?thesis unfolding enabled_def
      by (intro exI [of _ "DRpc k b"]) (auto simp: daemon_helper_def daemon_step_def)
  qed
qed

text \<open>C14. The daemon ends on every fair run: once the signal goroutine has stopped the server, and
  the command of every pending call has exited or the call has returned, if the main goroutine and
  the threads of the pending calls are not passed over for ever, the process exits with status 0,
  whatever the clients send, and however many more signals come.\<close>

theorem daemon_exit_inevitable:
  assumes "daemon_reach (p 0)" and "draining (p 0)" and "dmain (p 0) = DServing"
    and "\<forall>s \<in> set (rpcs (p 0)). returned s \<or> (\<exists>wr. proc s = Zombie wr \<or> proc s = Reaped wr)"
    and "runs daemon_step p a" and "\<And>t. fair daemon_step (daemon_thread_moves t) p a"
  shows "\<exists>n. dmain (p n) = DExited 0"
proof -
  have "drain_inv (p 0)" using assms(1-4) by (simp add: drain_inv_def can_end_def gone_def)
  from draining.inevitable [OF assms(5,6) this, of 0] show ?thesis by blast
qed

text \<open>The rest of the run of the sample daemon: its call returns, and it exits.\<close>

definition drain_acts :: "daemon_action list" where
  "drain_acts = map (DRpc 0) (reap_acts @ [ADeadline, AMain (Bytes 0), AMain Ok, AMain Ok, AMain Ok]) @ [DSignal, DMain None]"

lemma daemon_exit_inevitable_witness:
  "\<exists>n. dmain (run_states daemon_step drain_acts served n) = DExited 0"
proof -
  let ?p = "run_states daemon_step drain_acts served"
  have ok: "run_ok daemon_step drain_acts served" and x: "\<not> alive (?p (length drain_acts))"
    by (simp_all add: drain_acts_def served_def serve_acts_def init_daemon_def daemon_step_def alive_def on_signal_def
      exec_simps returned_def)
  have f: "fair daemon_step (daemon_thread_moves t) ?p (run_actions drain_acts)" for t
    using x by (intro finite_fair) (simp add: enabled_def daemon_step_def)
  have s: "daemon_reach (?p 0)" "draining (?p 0)" "dmain (?p 0) = DServing"
    "\<forall>s \<in> set (rpcs (?p 0)). returned s \<or> (\<exists>wr. proc s = Zombie wr \<or> proc s = Reaped wr)"
    using served by (simp_all add: can_end_def gone_def)
  show ?thesis by (rule daemon_exit_inevitable [OF s run_ok_runs [OF ok] f])
qed

end
